(* ===== verification/Prelude.thy ===== *)
theory Prelude
  imports Complex_Main "HOL-Library.Word" "HOL-Library.Multiset" "HOL-Library.AList"
begin

text \<open>
  What the component theories share: 128-bit identifiers with the byte-wise comparison of
  the sources, IEEE comparisons of \<^verbatim>\<open>float64\<close> values, Go maps as association lists,
  \<^verbatim>\<open>sort.Slice\<close> as a comparator-driven insertion sort, and the \<open>latest row wins\<close> scan
  (largest creation time, largest identifier on a tie) that four read operations of the
  program repeat.
\<close>

named_theorems gomap_simps
named_theorems float_simps

section \<open>Contexts, times and identifiers\<close>

text \<open>
  A request context is either live or cancelled; the state is the one seen by the
  \<^verbatim>\<open>ctx.Err()\<close> checks of one call. An instant is a number of nanoseconds. A
  \<^verbatim>\<open>uuid.UUID\<close> is its sixteen bytes read as one big-endian word; the nil identifier
  is the zero word.
\<close>

datatype ctx = Live | Cancelled

type_synonym time = int
type_synonym uuid = "128 word"
type_synonym sha = string

abbreviation uuid_Nil :: uuid where
  "uuid_Nil \<equiv> 0"

definition uuid_byte :: "uuid \<Rightarrow> nat \<Rightarrow> nat" where
  "uuid_byte u i = (unat u div 2 ^ (8 * (15 - i))) mod 256"

fun uuidCompare_from :: "nat \<Rightarrow> nat \<Rightarrow> uuid \<Rightarrow> uuid \<Rightarrow> int" where
  "uuidCompare_from 0 i a b = 0"
| "uuidCompare_from (Suc n) i a b =
     (if uuid_byte a i < uuid_byte b i then -1
      else if uuid_byte a i > uuid_byte b i then 1
      else uuidCompare_from n (Suc i) a b)"

definition uuidCompare :: "uuid \<Rightarrow> uuid \<Rightarrow> int" where
  "uuidCompare a b = uuidCompare_from 16 0 a b"

lemma div_256_step: "(x::nat) div 2 ^ (8 * k) = (x div 2 ^ (8 * Suc k)) * 256 + (x div 2 ^ (8 * k)) mod 256"
proof -
  have "x div 2 ^ (8 * Suc k) = x div 2 ^ (8 * k) div 256"
    by (simp add: div_mult2_eq [symmetric] power_add mult.commute)
  then show ?thesis
    by (metis div_mult_mod_eq)
qed

lemma uuidCompare_from_eq:
  assumes "n + i = 16" and "unat a div 2 ^ (8 * n) = unat b div 2 ^ (8 * n)"
  shows "uuidCompare_from n i a b = (if a < b then -1 else if b < a then 1 else 0)"
  using assms
proof (induction n arbitrary: i)
  case 0
  then have "a = b" by (simp add: word_unat_eq_iff)
  then show ?case by simp
next
  case (Suc n)
  let ?A = "unat a div 2 ^ (8 * n)" and ?B = "unat b div 2 ^ (8 * n)"
  have i: "15 - i = n" using Suc.prems(1) by simp
  have A: "?A = (unat a div 2 ^ (8 * Suc n)) * 256 + uuid_byte a i"
    and B: "?B = (unat b div 2 ^ (8 * Suc n)) * 256 + uuid_byte b i"
    unfolding uuid_byte_def i by (rule div_256_step)+
  have less: "?A < ?B \<Longrightarrow> a < b" and greater: "?B < ?A \<Longrightarrow> b < a"
    using div_le_mono [of "unat b" "unat a" "2 ^ (8 * n)"]
      div_le_mono [of "unat a" "unat b" "2 ^ (8 * n)"]
    by (auto simp: word_less_nat_alt not_le [symmetric])
  consider "uuid_byte a i < uuid_byte b i" | "uuid_byte b i < uuid_byte a i"
    | "uuid_byte a i = uuid_byte b i" by linarith
  then show ?case
  proof cases
    case 1
    then have "a < b" using A B Suc.prems(2) by (intro less) simp
    with 1 show ?thesis by simp
  next
    case 2
    then have "b < a" using A B Suc.prems(2) by (intro greater) simp
    with 2 show ?thesis by auto
  next
    case 3
    then have "?A = ?B" using A B Suc.prems(2) by simp
    with 3 Suc.IH [of "Suc i"] Suc.prems(1) show ?thesis by simp
  qed
qed

lemma uuidCompare_eq [code]: "uuidCompare a b = (if a < b then -1 else if b < a then 1 else 0)"
proof -
  have "unat u < 2 ^ 128" for u :: uuid
    using unsigned_less [of u] by simp
  then show ?thesis
    unfolding uuidCompare_def by (intro uuidCompare_from_eq) simp_all
qed

lemma uuidCompare_less [simp]: "uuidCompare a b < 0 \<longleftrightarrow> a < b"
  and uuidCompare_greater [simp]: "uuidCompare a b > 0 \<longleftrightarrow> b < a"
  by (auto simp: uuidCompare_eq)

section \<open>Floating-point values\<close>

text \<open>
  The program only compares \<^verbatim>\<open>float64\<close> values here, so a value is not-a-number, an
  infinity or the rational it denotes (both zeros compare equal and are one value).
\<close>

datatype float64 = NaN | NegInf | Fin rat | PosInf

fun flt_less :: "float64 \<Rightarrow> float64 \<Rightarrow> bool" where
  "flt_less NaN _ = False"
| "flt_less _ NaN = False"
| "flt_less (Fin a) (Fin b) = (a < b)"
| "flt_less NegInf b = (b \<noteq> NegInf)"
| "flt_less a PosInf = (a \<noteq> PosInf)"
| "flt_less _ _ = False"

fun flt_eq :: "float64 \<Rightarrow> float64 \<Rightarrow> bool" where
  "flt_eq NaN _ = False"
| "flt_eq _ NaN = False"
| "flt_eq a b = (a = b)"

definition flt_le :: "float64 \<Rightarrow> float64 \<Rightarrow> bool" where
  "flt_le a b = (flt_less a b \<or> flt_eq a b)"

lemma flt_eq_iff: "flt_eq a b \<longleftrightarrow> a \<noteq> NaN \<and> a = b"
  by (cases a; cases b) auto

lemma flt_trichotomy:
  "a \<noteq> NaN \<Longrightarrow> b \<noteq> NaN \<Longrightarrow> flt_less a b \<or> flt_eq a b \<or> flt_less b a"
  by (cases a; cases b) auto

lemma flt_less_asym: "flt_less a b \<Longrightarrow> \<not> flt_less b a"
  by (cases a; cases b) auto

lemma flt_less_irrefl [simp]: "\<not> flt_less a a"
  by (cases a) auto

lemma flt_not_le: "a \<noteq> NaN \<Longrightarrow> b \<noteq> NaN \<Longrightarrow> \<not> flt_le a b \<longleftrightarrow> flt_less b a"
  using flt_trichotomy [of a b] flt_less_asym [of a b]
  by (auto simp: flt_le_def flt_eq_iff)

section \<open>Results\<close>

text \<open>The monadic bind of results: an error stops the computation, as \<^verbatim>\<open>if err != nil\<close> does.\<close>

definition bindE :: "'e + 'a \<Rightarrow> ('a \<Rightarrow> 'e + 'b) \<Rightarrow> 'e + 'b" where
  "bindE r f = (case r of Inl e \<Rightarrow> Inl e | Inr x \<Rightarrow> f x)"

lemma bindE_simps [simp]: "bindE (Inl e) f = Inl e" "bindE (Inr x) f = f x"
  by (simp_all add: bindE_def)

lemma bindE_Inr: "bindE r f = Inr y \<longleftrightarrow> (\<exists>x. r = Inr x \<and> f x = Inr y)"
  by (cases r) auto

lemma bindE_Inl: "bindE r f = Inl e \<longleftrightarrow> r = Inl e \<or> (\<exists>x. r = Inr x \<and> f x = Inl e)"
  by (cases r) auto

lemma bindE_cong [fundef_cong]:
  "r = r' \<Longrightarrow> (\<And>x. r' = Inr x \<Longrightarrow> f x = f' x) \<Longrightarrow> bindE r f = bindE r' f'"
  by (cases r') auto

text \<open>A loop over a slice that stops at the first error.\<close>

fun mapE :: "('a \<Rightarrow> 'e + 'b) \<Rightarrow> 'a list \<Rightarrow> 'e + 'b list" where
  "mapE f [] = Inr []"
| "mapE f (x # xs) = bindE (f x) (\<lambda>y. bindE (mapE f xs) (\<lambda>ys. Inr (y # ys)))"

lemma mapE_cong [fundef_cong]:
  "xs = ys \<Longrightarrow> (\<And>x. x \<in> set ys \<Longrightarrow> f x = g x) \<Longrightarrow> mapE f xs = mapE g ys"
  by (induction ys arbitrary: xs) auto

lemma mapE_Inr_iff: "mapE f xs = Inr ys \<longleftrightarrow> list_all2 (\<lambda>x y. f x = Inr y) xs ys"
  by (induction xs arbitrary: ys) (auto simp: bindE_Inr list_all2_Cons1)

lemma mapE_Inl: "mapE f xs = Inl e \<Longrightarrow> \<exists>x \<in> set xs. f x = Inl e"
  by (induction xs) (auto simp: bindE_Inl)

lemma mapE_total: "(\<And>x. x \<in> set xs \<Longrightarrow> \<exists>y. f x = Inr y) \<Longrightarrow> \<exists>ys. mapE f xs = Inr ys"
  by (induction xs) (force simp: bindE_Inr)+

section \<open>Go maps\<close>

text \<open>
  A Go map is an association list with distinct keys, read with \<^const>\<open>map_of\<close> and written
  with \<open>gomap_put\<close>. Every iteration of the program over a map is followed by a sort or only
  asks for existence, so the order of the list is not observable.
\<close>

type_synonym ('k, 'v) gomap = "('k \<times> 'v) list"

definition gomap_put :: "'k \<Rightarrow> 'v \<Rightarrow> ('k, 'v) gomap \<Rightarrow> ('k, 'v) gomap" where
  "gomap_put k v m = AList.update k v m"

definition gomap_delete :: "'k \<Rightarrow> ('k, 'v) gomap \<Rightarrow> ('k, 'v) gomap" where
  "gomap_delete k m = AList.delete k m"

definition gomap_ok :: "('k, 'v) gomap \<Rightarrow> bool" where
  "gomap_ok m \<longleftrightarrow> distinct (map fst m)"

lemma map_of_put [simp, gomap_simps]: "map_of (gomap_put k v m) = (map_of m)(k \<mapsto> v)"
  by (simp add: gomap_put_def update_conv')

lemma map_of_gomap_delete [simp, gomap_simps]: "map_of (gomap_delete k m) = (map_of m)(k := None)"
  by (simp add: gomap_delete_def delete_conv')

lemma gomap_ok_Nil [simp]: "gomap_ok []"
  by (simp add: gomap_ok_def)

lemma gomap_ok_put [simp]: "gomap_ok m \<Longrightarrow> gomap_ok (gomap_put k v m)"
  by (simp add: gomap_ok_def gomap_put_def distinct_update)

lemma gomap_ok_delete [simp]: "gomap_ok m \<Longrightarrow> gomap_ok (gomap_delete k m)"
  by (simp add: gomap_ok_def gomap_delete_def distinct_delete)

lemma gomap_set_map_of: "gomap_ok m \<Longrightarrow> (k, v) \<in> set m \<longleftrightarrow> map_of m k = Some v"
  by (simp add: gomap_ok_def)

section \<open>Sorting with a comparator\<close>

text \<open>
  \<^verbatim>\<open>sort.Slice\<close> orders a slice by a \<open>less\<close> function. The order of elements neither of
  which is less than the other is unspecified in Go; here it is the insertion order.
\<close>

fun go_insert :: "('a \<Rightarrow> 'a \<Rightarrow> bool) \<Rightarrow> 'a \<Rightarrow> 'a list \<Rightarrow> 'a list" where
  "go_insert lt x [] = [x]"
| "go_insert lt x (y # ys) = (if lt y x then y # go_insert lt x ys else x # y # ys)"

fun go_sort :: "('a \<Rightarrow> 'a \<Rightarrow> bool) \<Rightarrow> 'a list \<Rightarrow> 'a list" where
  "go_sort lt [] = []"
| "go_sort lt (x # xs) = go_insert lt x (go_sort lt xs)"

lemma mset_go_insert [simp]: "mset (go_insert lt x ys) = add_mset x (mset ys)"
  by (induction ys) auto

lemma mset_go_sort [simp]: "mset (go_sort lt xs) = mset xs"
  by (induction xs) auto

lemma set_go_sort [simp]: "set (go_sort lt xs) = set xs"
  using mset_go_sort [of lt xs] by (metis set_mset_mset)

lemma set_go_insert [simp]: "set (go_insert lt x ys) = insert x (set ys)"
  by (induction ys) auto

lemma distinct_go_sort [simp]: "distinct (go_sort lt xs) \<longleftrightarrow> distinct xs"
  using mset_go_sort [of lt xs] by (metis mset_eq_imp_distinct_iff)

lemma length_go_sort [simp]: "length (go_sort lt xs) = length xs"
  using mset_go_sort [of lt xs] by (metis size_mset)

lemma go_sort_eq_Nil [simp]: "go_sort lt xs = [] \<longleftrightarrow> xs = []"
  by (metis length_0_conv length_go_sort)

lemma go_insert_sorted:
  assumes "transp lt" and "asymp lt"
    and "\<And>x y z. \<not> lt y x \<Longrightarrow> \<not> lt z y \<Longrightarrow> \<not> lt z x"
    and "sorted_wrt (\<lambda>x y. \<not> lt y x) ys"
  shows "sorted_wrt (\<lambda>x y. \<not> lt y x) (go_insert lt x ys)"
  using assms(4)
proof (induction ys)
  case Nil
  then show ?case by simp
next
  case (Cons y ys)
  then show ?case
    using assms(2,3) by (auto dest: asympD)
qed

lemma go_sort_sorted:
  assumes "transp lt" and "asymp lt"
    and "\<And>x y z. \<not> lt y x \<Longrightarrow> \<not> lt z y \<Longrightarrow> \<not> lt z x"
  shows "sorted_wrt (\<lambda>x y. \<not> lt y x) (go_sort lt xs)"
  by (induction xs) (simp_all add: go_insert_sorted [OF assms])

text \<open>
  When distinct elements are comparable the result does not depend on the order of the
  input, so a loop over a Go map followed by such a sort is deterministic.
\<close>

lemma sorted_wrt_unique:
  assumes "sorted_wrt le xs" and "sorted_wrt le ys" and "mset xs = mset ys"
    and "\<And>x y. x \<in> set xs \<Longrightarrow> y \<in> set xs \<Longrightarrow> le x y \<Longrightarrow> le y x \<Longrightarrow> x = y"
  shows "xs = ys"
  using assms
proof (induction xs arbitrary: ys)
  case Nil
  then show ?case by simp
next
  case (Cons x xs)
  obtain y ys' where ys: "ys = y # ys'"
    using Cons.prems(3) by (cases ys) auto
  have sets: "insert x (set xs) = insert y (set ys')"
    using Cons.prems(3) ys by (metis list.simps(15) set_mset_mset)
  have "x = y"
  proof (rule ccontr)
    assume "x \<noteq> y"
    then have "y \<in> set xs" "x \<in> set ys'" using sets by auto
    then have "le x y" "le y x" using Cons.prems(1,2) ys by auto
    then show False using Cons.prems(4) [of x y] \<open>y \<in> set xs\<close> \<open>x \<noteq> y\<close> by simp
  qed
  moreover have "xs = ys'"
    using Cons.IH [of ys'] Cons.prems ys \<open>x = y\<close> by simp
  ultimately show ?case using ys by simp
qed

lemma go_sort_perm:
  assumes "transp lt" and "asymp lt"
    and "\<And>x y z. \<not> lt y x \<Longrightarrow> \<not> lt z y \<Longrightarrow> \<not> lt z x"
    and "\<And>x y. x \<in> set xs \<Longrightarrow> y \<in> set xs \<Longrightarrow> x \<noteq> y \<Longrightarrow> lt x y \<or> lt y x"
    and "mset xs = mset ys"
  shows "go_sort lt xs = go_sort lt ys"
  by (rule sorted_wrt_unique [OF go_sort_sorted [OF assms(1-3)] go_sort_sorted [OF assms(1-3)]])
    (use assms(4,5) in auto)

lemma go_insert_insort: "go_insert (\<lambda>x y. f x < f y) x ys = insort_key f x ys" for f :: "'a \<Rightarrow> 'b::linorder"
  by (induction ys) (auto simp: not_less)

lemma go_sort_key: "go_sort (\<lambda>x y. f x < f y) xs = sort_key f xs" for f :: "'a \<Rightarrow> 'b::linorder"
  by (induction xs) (simp_all add: go_insert_insort)

lemma go_sort_uuid: "go_sort (\<lambda>a b. uuidCompare a b < 0) xs = sort xs"
  using go_sort_key [of "\<lambda>x. x" xs] by simp

text \<open>Go compares strings byte by byte.\<close>

fun str_less :: "string \<Rightarrow> string \<Rightarrow> bool" where
  "str_less _ [] = False"
| "str_less [] (_ # _) = True"
| "str_less (a # as) (b # bs) =
     (if of_char a < (of_char b :: nat) then True
      else if of_char b < (of_char a :: nat) then False else str_less as bs)"

lemma str_less_irrefl [simp]: "\<not> str_less a a"
  by (induction a) auto

lemma str_less_asym: "str_less a b \<Longrightarrow> \<not> str_less b a"
  by (induction a b rule: str_less.induct) (auto split: if_splits)

lemma str_less_trans: "str_less a b \<Longrightarrow> str_less b c \<Longrightarrow> str_less a c"
proof (induction a b arbitrary: c rule: str_less.induct)
  case (3 a as b bs)
  then show ?case by (cases c) (auto split: if_splits)
qed (auto elim: str_less.elims)

lemma str_less_total: "a \<noteq> b \<Longrightarrow> str_less a b \<or> str_less b a"
proof (induction a b rule: str_less.induct)
  case (3 a as b bs)
  consider "of_char a < (of_char b :: nat)" | "of_char b < (of_char a :: nat)" | "a = b"
    by (metis linorder_neqE_nat of_char_eq_iff)
  then show ?case
    using 3 by cases auto
qed (auto simp: neq_Nil_conv)

section \<open>Latest row wins\<close>

text \<open>
  The scan \<^verbatim>\<open>if !found || row.created_at > best.created_at || (equal && id > best.id)\<close>
  over the rows of a log.
\<close>

fun latest_scan :: "('r \<Rightarrow> time) \<Rightarrow> ('r \<Rightarrow> uuid) \<Rightarrow> 'r option \<Rightarrow> 'r list \<Rightarrow> 'r option" where
  "latest_scan t i best [] = best"
| "latest_scan t i None (r # rs) = latest_scan t i (Some r) rs"
| "latest_scan t i (Some b) (r # rs) =
     latest_scan t i
       (if t r > t b then Some r
        else if t r = t b \<and> uuidCompare (i r) (i b) > 0 then Some r
        else Some b) rs"

definition row_le :: "('r \<Rightarrow> time) \<Rightarrow> ('r \<Rightarrow> uuid) \<Rightarrow> 'r \<Rightarrow> 'r \<Rightarrow> bool" where
  "row_le t i a b \<longleftrightarrow> t a < t b \<or> (t a = t b \<and> i a \<le> i b)"

lemma row_le_refl [simp]: "row_le t i a a"
  by (simp add: row_le_def)

lemma row_le_trans: "row_le t i a b \<Longrightarrow> row_le t i b c \<Longrightarrow> row_le t i a c"
  by (auto simp: row_le_def)

lemma latest_scan_Some:
  "latest_scan t i (Some b) rs = Some r \<Longrightarrow>
     r \<in> insert b (set rs) \<and> (\<forall>r' \<in> insert b (set rs). row_le t i r' r)"
proof (induction rs arbitrary: b)
  case Nil
  then show ?case by simp
next
  case (Cons a rs)
  define b' where "b' = (if t a > t b then a else if t a = t b \<and> uuidCompare (i a) (i b) > 0 then a else b)"
  have "latest_scan t i (Some b') rs = Some r"
    using Cons.prems by (auto simp: b'_def split: if_splits)
  then have IH: "r \<in> insert b' (set rs)" "\<forall>r' \<in> insert b' (set rs). row_le t i r' r"
    using Cons.IH by blast+
  moreover have "row_le t i a b'" "row_le t i b b'" "b' \<in> {a, b}"
    by (auto simp: b'_def row_le_def)
  ultimately show ?case
    by (auto intro: row_le_trans)
qed

lemma latest_scan_total: "\<exists>r. latest_scan t i (Some b) rs = Some r"
  by (induction rs arbitrary: b) auto

lemma latest_scan_None_iff: "latest_scan t i None rs = None \<longleftrightarrow> rs = []"
  using latest_scan_total [of t i "hd rs" "tl rs"] by (cases rs) auto

lemma latest_scan_max:
  assumes "latest_scan t i None rs = Some r"
  shows "r \<in> set rs \<and> (\<forall>r' \<in> set rs. row_le t i r' r)"
  using assms latest_scan_Some by (cases rs) fastforce+

text \<open>The head of a list sorted newest first is what the scan finds.\<close>

definition newer :: "('r \<Rightarrow> time) \<Rightarrow> ('r \<Rightarrow> uuid) \<Rightarrow> 'r \<Rightarrow> 'r \<Rightarrow> bool" where
  "newer t i x y \<longleftrightarrow> t x > t y \<or> t x = t y \<and> uuidCompare (i x) (i y) > 0"

lemma latest_scan_Cons:
  "latest_scan t i (Some b) (r # rs) = latest_scan t i (Some (if newer t i r b then r else b)) rs"
  by (auto simp: newer_def)

lemma latest_scan_join:
  "latest_scan t i (Some b) rs =
     (case latest_scan t i None rs of None \<Rightarrow> Some b | Some y \<Rightarrow> Some (if newer t i y b then y else b))"
proof (induction rs arbitrary: b)
  case (Cons r rs)
  show ?case
    unfolding latest_scan_Cons Cons.IH [of "if newer t i r b then r else b"] latest_scan.simps(2)
      Cons.IH [of r]
    by (auto simp: newer_def split: option.splits)
qed simp

lemma hd_go_sort_newer: "xs \<noteq> [] \<Longrightarrow> latest_scan t i None xs = Some (hd (go_sort (newer t i) xs))"
proof (induction xs)
  case (Cons x xs)
  show ?case
  proof (cases "xs = []")
    case False
    then obtain y ys where ys: "go_sort (newer t i) xs = y # ys"
      by (metis go_sort_eq_Nil list.exhaust)
    then show ?thesis
      using Cons.IH False by (simp add: latest_scan_join)
  qed simp
qed simp

end
