(* ===== verification/Go_Strings.thy ===== *)
theory Go_Strings
  imports Prelude
begin

text \<open>
  The parts of Go's standard library on strings that the sources use. A Go string is a
  sequence of bytes, here a \<^typ>\<open>string\<close> (a list of eight-bit characters); a rune is the
  integer of its code point. Modelled: \<^verbatim>\<open>utf8.DecodeRuneInString\<close> and the rune
  loop \<^verbatim>\<open>for _, r := range s\<close>, \<^verbatim>\<open>strings.Builder.WriteRune\<close>, \<^verbatim>\<open>unicode.IsDigit\<close>,
  \<^verbatim>\<open>unicode.IsSpace\<close> with the emptiness test on \<^verbatim>\<open>strings.TrimSpace\<close>,
  \<^verbatim>\<open>strings.ToUpper\<close> on ASCII letters and \<^verbatim>\<open>strconv.ParseFloat\<close> on decimal literals
  (round to nearest, ties to even, range error at and above \<open>2 ^ 1024\<close>).
\<close>

type_synonym rune = int

abbreviation byte_of :: "char \<Rightarrow> int" where
  "byte_of c \<equiv> of_char c"

abbreviation RuneError :: rune where
  "RuneError \<equiv> 65533"

section \<open>Decoding and encoding\<close>

definition cont_byte :: "int \<Rightarrow> bool" where
  "cont_byte b \<longleftrightarrow> 128 \<le> b \<and> b < 192"

text \<open>The admissible second byte after the first byte of a longer sequence.\<close>

definition second_ok :: "int \<Rightarrow> int \<Rightarrow> bool" where
  "second_ok b0 b1 \<longleftrightarrow>
     (if b0 = 224 then 160 \<le> b1 \<and> b1 < 192
      else if b0 = 237 then 128 \<le> b1 \<and> b1 < 160
      else if b0 = 240 then 144 \<le> b1 \<and> b1 < 192
      else if b0 = 244 then 128 \<le> b1 \<and> b1 < 144
      else cont_byte b1)"

definition byte_at :: "string \<Rightarrow> nat \<Rightarrow> int" where
  "byte_at s i = (if i < length s then byte_of (s ! i) else 0)"

definition decode_rune :: "string \<Rightarrow> rune \<times> nat" where
  "decode_rune s =
     (if s = [] then (RuneError, 0)
      else
        let b0 = byte_at s 0; b1 = byte_at s 1; b2 = byte_at s 2; b3 = byte_at s 3 in
        if b0 < 128 then (b0, 1)
        else if 194 \<le> b0 \<and> b0 < 224 \<and> cont_byte b1
          then ((b0 - 192) * 64 + (b1 - 128), 2)
        else if 224 \<le> b0 \<and> b0 < 240 \<and> second_ok b0 b1 \<and> cont_byte b2
          then ((b0 - 224) * 4096 + (b1 - 128) * 64 + (b2 - 128), 3)
        else if 240 \<le> b0 \<and> b0 < 245 \<and> second_ok b0 b1 \<and> cont_byte b2 \<and> cont_byte b3
          then ((b0 - 240) * 262144 + (b1 - 128) * 4096 + (b2 - 128) * 64 + (b3 - 128), 4)
        else (RuneError, 1))"

definition encode_rune :: "rune \<Rightarrow> string" where
  "encode_rune r =
     map char_of
       (if r < 128 then [r]
        else if r < 2048 then [192 + r div 64, 128 + r mod 64]
        else if 55296 \<le> r \<and> r < 57344 \<or> 1114112 \<le> r then [239, 191, 189]
        else if r < 65536 then [224 + r div 4096, 128 + r div 64 mod 64, 128 + r mod 64]
        else [240 + r div 262144, 128 + r div 4096 mod 64, 128 + r div 64 mod 64, 128 + r mod 64])"

lemma byte_at_0_Cons [simp]: "byte_at (c # s) 0 = byte_of c"
  by (simp add: byte_at_def)

lemma decode_rune_Nil [simp]: "decode_rune [] = (RuneError, 0)"
  by (simp add: decode_rune_def)

lemma decode_rune_ascii [simp]: "byte_of c < 128 \<Longrightarrow> decode_rune (c # s) = (byte_of c, 1)"
  by (simp add: decode_rune_def)

lemma decode_rune_width_pos: "s \<noteq> [] \<Longrightarrow> 0 < snd (decode_rune s)"
  by (auto simp: decode_rune_def Let_def)

lemma cont_byte_at: "cont_byte (byte_at s i) \<Longrightarrow> i < length s"
  by (auto simp: cont_byte_def byte_at_def split: if_splits)

lemma decode_rune_width_le: "snd (decode_rune s) \<le> length s"
  by (auto simp: decode_rune_def Let_def Suc_le_eq dest!: cont_byte_at)

text \<open>A rune below 128 is decoded from exactly its own byte.\<close>

lemma second_ok_bounds:
  "second_ok b0 b1 \<Longrightarrow> 128 \<le> b1 \<and> (b0 = 224 \<longrightarrow> 160 \<le> b1) \<and> (b0 = 240 \<longrightarrow> 144 \<le> b1)"
  by (simp add: second_ok_def cont_byte_def split: if_splits)

lemma decoded_ge_128:
  "194 \<le> b0 \<Longrightarrow> cont_byte b1 \<Longrightarrow> 128 \<le> (b0 - 192) * 64 + (b1 - 128)"
  "224 \<le> b0 \<Longrightarrow> second_ok b0 b1 \<Longrightarrow> cont_byte b2 \<Longrightarrow>
     128 \<le> (b0 - 224) * 4096 + (b1 - 128) * 64 + (b2 - 128)"
  "240 \<le> b0 \<Longrightarrow> second_ok b0 b1 \<Longrightarrow> cont_byte b2 \<Longrightarrow> cont_byte b3 \<Longrightarrow>
     128 \<le> (b0 - 240) * 262144 + (b1 - 128) * 4096 + (b2 - 128) * 64 + (b3 - 128)"
  using second_ok_bounds [of b0 b1] by (simp_all add: cont_byte_def) linarith+

lemma decode_rune_high: "128 \<le> byte_of c \<Longrightarrow> 128 \<le> fst (decode_rune (c # s))"
  using decoded_ge_128 [of "byte_of c" "byte_at (c # s) 1"]
  unfolding decode_rune_def Let_def by simp

lemma decode_rune_small:
  assumes "fst (decode_rune s) < 128" and "s \<noteq> []"
  shows "\<exists>c s'. s = c # s' \<and> byte_of c = fst (decode_rune s) \<and> snd (decode_rune s) = 1"
proof -
  obtain c s' where s: "s = c # s'" using assms(2) by (cases s) auto
  have "byte_of c < 128"
    using decode_rune_high [of c s'] assms(1) s by (cases "128 \<le> byte_of c") auto
  then show ?thesis by (simp add: s)
qed

text \<open>The runes of a string, in order; every byte of an invalid sequence is one \<^term>\<open>RuneError\<close>.\<close>

function runes :: "string \<Rightarrow> rune list" where
  "runes s = (if s = [] then [] else fst (decode_rune s) # runes (drop (snd (decode_rune s)) s))"
  by pat_completeness auto
termination
  by (relation "measure length") (auto simp: decode_rune_width_pos)

declare runes.simps [simp del]

lemma runes_Nil [simp]: "runes [] = []"
  by (simp add: runes.simps)

lemma runes_ascii [simp]: "byte_of c < 128 \<Longrightarrow> runes (c # s) = byte_of c # runes s"
  by (subst runes.simps) simp

lemma runes_eq_Nil [simp]: "runes s = [] \<longleftrightarrow> s = []"
  by (subst runes.simps) simp

lemma encode_ascii [simp]: "r < 128 \<Longrightarrow> encode_rune r = [char_of r]"
  by (simp add: encode_rune_def)

section \<open>Character classes\<close>

text \<open>The decimal digits of Unicode (category Nd): ranges of ten, and one of fifty.\<close>

definition Nd_starts :: "rune list" where
  "Nd_starts =
     [48, 1632, 1776, 1984, 2406, 2534, 2662, 2790, 2918, 3046, 3174, 3302, 3430, 3558, 3664,
      3792, 3872, 4160, 4240, 6112, 6160, 6470, 6608, 6784, 6800, 6992, 7088, 7232, 7248, 42528,
      43216, 43264, 43472, 43504, 43600, 44016, 65296, 66720, 68912, 69734, 69872, 69942, 70096,
      70384, 70736, 70864, 71248, 71360, 71472, 71904, 72016, 72784, 73040, 73120, 73552, 92768,
      92864, 93008, 120782, 120792, 120802, 120812, 120822, 123200, 123632, 124144, 125264,
      130032]"

definition IsDigit :: "rune \<Rightarrow> bool" where
  "IsDigit r \<longleftrightarrow> list_ex (\<lambda>a. a \<le> r \<and> r < a + 10) Nd_starts"

lemma IsDigit_ascii: "r < 128 \<Longrightarrow> IsDigit r \<longleftrightarrow> 48 \<le> r \<and> r < 58"
  by (auto simp: IsDigit_def Nd_starts_def)

definition IsSpace :: "rune \<Rightarrow> bool" where
  "IsSpace r \<longleftrightarrow>
     9 \<le> r \<and> r \<le> 13 \<or> r = 32 \<or> r = 133 \<or> r = 160 \<or> r = 5760 \<or> 8192 \<le> r \<and> r \<le> 8202
     \<or> r = 8232 \<or> r = 8233 \<or> r = 8239 \<or> r = 8287 \<or> r = 12288"

text \<open>\<^verbatim>\<open>strings.TrimSpace\<close> as the runes it keeps; the sources only ask whether none is left.\<close>

definition TrimSpace :: "string \<Rightarrow> rune list" where
  "TrimSpace s = rev (dropWhile IsSpace (rev (dropWhile IsSpace (runes s))))"

definition blank :: "string \<Rightarrow> bool" where
  "blank s \<longleftrightarrow> TrimSpace s = []"

lemma blank_iff: "blank s \<longleftrightarrow> list_all IsSpace (runes s)"
  by (auto simp: blank_def TrimSpace_def list_all_iff dest!: set_dropWhileD)
    (metis dropWhile_eq_Nil_conv hd_dropWhile hd_in_set)

lemma blank_Nil [simp]: "blank []"
  by (simp add: blank_iff)

definition upper_byte :: "char \<Rightarrow> char" where
  "upper_byte c = (if 97 \<le> byte_of c \<and> byte_of c \<le> 122 then char_of (byte_of c - 32) else c)"

text \<open>\<^verbatim>\<open>strings.ToUpper\<close>, used on identifiers, which are ASCII.\<close>

definition ToUpper :: "string \<Rightarrow> string" where
  "ToUpper s = map upper_byte s"

section \<open>Parsing decimal literals\<close>

function bit_len :: "int \<Rightarrow> int" where
  "bit_len n = (if n \<le> 0 then 0 else 1 + bit_len (n div 2))"
  by pat_completeness auto
termination
  by (relation "measure nat") auto

declare bit_len.simps [simp del]

text \<open>Nearest integer to \<open>a / b\<close>, the even one on a tie.\<close>

definition div_half_even :: "int \<Rightarrow> int \<Rightarrow> int" where
  "div_half_even a b =
     (let q = a div b; r = a mod b in
      if 2 * r < b then q else if 2 * r > b then q + 1 else if even q then q else q + 1)"

definition scaled :: "int \<Rightarrow> int \<Rightarrow> int \<Rightarrow> int \<times> int" where
  "scaled a b e = (if 0 \<le> e then (a, b * 2 ^ nat e) else (a * 2 ^ nat (- e), b))"

text \<open>
  The binary64 value nearest to \<open>a / b\<close>: a significand of at most 53 bits over the exponent
  \<open>e \<ge> -1074\<close>; \<^const>\<open>None\<close> is the range error.
\<close>

definition round_binary64 :: "int \<Rightarrow> int \<Rightarrow> rat option" where
  "round_binary64 a b =
     (if a = 0 then Some 0
      else
        let e0 = max (bit_len a - bit_len b - 53) (-1074);
            e = (case scaled a b e0 of (n, d) \<Rightarrow> if n div d \<ge> 2 ^ 53 then e0 + 1 else e0);
            m = (case scaled a b e of (n, d) \<Rightarrow> div_half_even n d)
        in if 0 \<le> e then
             (if m * 2 ^ nat e \<ge> 2 ^ 1024 then None else Some (of_int (m * 2 ^ nat e)))
           else Some (of_int m / of_int (2 ^ nat (- e))))"

definition is_dec :: "char \<Rightarrow> bool" where
  "is_dec c \<longleftrightarrow> 48 \<le> byte_of c \<and> byte_of c < 58"

definition dec_val :: "string \<Rightarrow> int" where
  "dec_val s = foldl (\<lambda>n c. 10 * n + (byte_of c - 48)) 0 s"

text \<open>
  \<^verbatim>\<open>strconv.ParseFloat\<close> on what the lexer hands it: an optional sign, digits, and optionally a
  point and digits. Anything else, such as a non-ASCII digit, is the syntax error.
\<close>

definition ParseFloat :: "string \<Rightarrow> float64 option" where
  "ParseFloat raw =
     (let neg = (raw \<noteq> [] \<and> hd raw = CHR ''-'');
          body = (if neg then tl raw else raw);
          ip = takeWhile is_dec body;
          more = dropWhile is_dec body;
          fp = (if more \<noteq> [] then tl more else [])
      in if ip = [] \<or> (more \<noteq> [] \<and> hd more \<noteq> CHR ''.'') \<or> \<not> list_all is_dec fp then None
         else case round_binary64 (dec_val (ip @ fp)) (10 ^ length fp) of
             None \<Rightarrow> None
           | Some q \<Rightarrow> Some (Fin (if neg then - q else q)))"

end
