(* ===== verification/Dsl_Ast.thy ===== *)
theory Dsl_Ast
  imports Go_Strings
begin

text \<open>
  The data of the rule language (package \<^verbatim>\<open>policy/dsl\<close>): source positions and structured
  errors, tokens, the nodes of a predicate, threshold rows with their operators, metric
  samples and the closed sets of canonical labels. Message texts of errors are not part of
  the model: an error is its kind, its position and its cause.
\<close>

section \<open>Positions and errors\<close>

record Position =
  Line :: int
  Column :: int

definition mkPos :: "int \<Rightarrow> int \<Rightarrow> Position" where
  "mkPos l c = \<lparr>Line = l, Column = c\<rparr>"

datatype err_kind = ErrLex | ErrParse | ErrSemantic | ErrType | ErrBind

text \<open>What a resolver may answer instead of a row.\<close>

datatype lookup_error = ErrUnknownThreshold | ErrLookup string

text \<open>
  \<open>Error\<close> is the structured error; \<open>Unhandled\<close> the plain error of a node kind or operator
  no case of a switch treats; \<open>OutOfFuel\<close> marks a recursion the parser model cut short,
  which no input reaches.
\<close>

datatype dsl_error =
    Error (Kind: err_kind) (Pos_of: Position) (Cause: "lookup_error option")
  | Unhandled
  | OutOfFuel

definition newError :: "err_kind \<Rightarrow> Position \<Rightarrow> dsl_error" where
  "newError k p = Error k p None"

definition newWrappedError :: "err_kind \<Rightarrow> Position \<Rightarrow> lookup_error \<Rightarrow> dsl_error" where
  "newWrappedError k p c = Error k p (Some c)"

section \<open>Tokens\<close>

datatype tokenKind =
    TokEOF | TokIdent | TokString | TokNumber | TokAnd | TokOr | TokNot | TokTrue | TokFalse
  | TokThreshold | TokLParen | TokRParen | TokComma
  | TokEQ | TokNE | TokGT | TokGE | TokLT | TokLE

record token =
  kind :: tokenKind
  text_of :: string
  tpos :: Position

definition mkTok :: "tokenKind \<Rightarrow> string \<Rightarrow> Position \<Rightarrow> token" where
  "mkTok k t p = \<lparr>kind = k, text_of = t, tpos = p\<rparr>"

section \<open>Samples and canonical labels\<close>

record Sample =
  SampleID :: uuid
  s_RepoID :: uuid
  s_SHA :: sha
  s_ScopeID :: uuid
  s_ScopeKind :: string
  s_MetricKind :: string
  s_MetricVersion :: int
  s_Value :: float64
  HasValue :: bool
  s_Pack :: string
  s_Source :: string
  s_Degraded :: bool
  s_DegradedReason :: string

definition CanonicalMetricKinds :: "string list" where
  "CanonicalMetricKinds =
     [''cyclo'', ''cognitive_complexity'', ''loc'', ''cycle_member'', ''duplication_ratio'',
      ''modification_count_in_window'',
      ''lcom4'', ''fan_in'', ''fan_out'', ''depth_of_inheritance'', ''interface_width'',
      ''coupling_between_objects'', ''lsp_violation'',
      ''xrepo_dep_depth'', ''arch_debt_ratio'', ''velocity_trend'', ''arch_fitness'',
      ''blast_radius'', ''xservice_test_reliability'', ''knowledge_index'',
      ''coverage_line_ratio'', ''coverage_branch_ratio'', ''pass_first_try_ratio'']"

definition CanonicalScopeKinds :: "string list" where
  "CanonicalScopeKinds =
     [''repo'', ''package'', ''file'', ''class'', ''interface'', ''method'', ''block'']"

definition CanonicalPacks :: "string list" where
  "CanonicalPacks = [''base'', ''solid'', ''system'', ''ingested'']"

definition CanonicalSources :: "string list" where
  "CanonicalSources = [''computed'', ''derived'', ''ingested'']"

definition IsCanonicalMetricKind :: "string \<Rightarrow> bool" where
  "IsCanonicalMetricKind s = List.member CanonicalMetricKinds s"

definition IsCanonicalScopeKind :: "string \<Rightarrow> bool" where
  "IsCanonicalScopeKind s = List.member CanonicalScopeKinds s"

definition IsCanonicalPack :: "string \<Rightarrow> bool" where
  "IsCanonicalPack s = List.member CanonicalPacks s"

definition IsCanonicalSource :: "string \<Rightarrow> bool" where
  "IsCanonicalSource s = List.member CanonicalSources s"

section \<open>Thresholds\<close>

text \<open>An operator is its label, since a row can carry a label outside the closed set.\<close>

type_synonym ThresholdOp = string

abbreviation (input) OpGT :: ThresholdOp where "OpGT \<equiv> ''gt''"
abbreviation (input) OpGE :: ThresholdOp where "OpGE \<equiv> ''ge''"
abbreviation (input) OpLT :: ThresholdOp where "OpLT \<equiv> ''lt''"
abbreviation (input) OpLE :: ThresholdOp where "OpLE \<equiv> ''le''"
abbreviation (input) OpEQ :: ThresholdOp where "OpEQ \<equiv> ''eq''"

definition op_IsValid :: "ThresholdOp \<Rightarrow> bool" where
  "op_IsValid op \<longleftrightarrow> op = OpGT \<or> op = OpGE \<or> op = OpLT \<or> op = OpLE \<or> op = OpEQ"

definition op_Compare :: "ThresholdOp \<Rightarrow> float64 \<Rightarrow> float64 \<Rightarrow> bool" where
  "op_Compare op lhs rhs =
     (if op = OpGT then flt_less rhs lhs
      else if op = OpGE then flt_le rhs lhs
      else if op = OpLT then flt_less lhs rhs
      else if op = OpLE then flt_le lhs rhs
      else if op = OpEQ then flt_eq lhs rhs
      else False)"

record Threshold =
  ThresholdID :: uuid
  TMetricKind :: string
  TScopeKind :: string
  Op :: ThresholdOp
  TValue :: float64

datatype threshold_error = NilThresholdID | EmptyMetricKind | BadMetricKind | BadScopeKind | BadOp

text \<open>The errors of \<^verbatim>\<open>Threshold.Validate\<close>, in the order it tests them; \<^const>\<open>None\<close> is acceptance.\<close>

definition Threshold_Validate :: "Threshold \<Rightarrow> threshold_error option" where
  "Threshold_Validate t =
     (if ThresholdID t = uuid_Nil then Some NilThresholdID
      else if TMetricKind t = [] then Some EmptyMetricKind
      else if \<not> IsCanonicalMetricKind (TMetricKind t) then Some BadMetricKind
      else if \<not> IsCanonicalScopeKind (TScopeKind t) then Some BadScopeKind
      else if \<not> op_IsValid (Op t) then Some BadOp
      else None)"

lemma Threshold_Validate_iff:
  "Threshold_Validate t = None \<longleftrightarrow>
     ThresholdID t \<noteq> uuid_Nil \<and> IsCanonicalMetricKind (TMetricKind t)
     \<and> IsCanonicalScopeKind (TScopeKind t) \<and> op_IsValid (Op t)"
  by (auto simp: Threshold_Validate_def IsCanonicalMetricKind_def CanonicalMetricKinds_def)

text \<open>A resolver is a lookup by identifier; the sources also pass a nil one.\<close>

type_synonym ThresholdResolver = "uuid \<Rightarrow> lookup_error + Threshold"
type_synonym MapResolver = "(uuid, Threshold) gomap"

definition MapResolver_Lookup :: "MapResolver \<Rightarrow> ThresholdResolver" where
  "MapResolver_Lookup m tid =
     (case map_of m tid of None \<Rightarrow> Inl ErrUnknownThreshold | Some t \<Rightarrow> Inr t)"

section \<open>Nodes\<close>

datatype Node =
    OrNode Position (or_children: "Node list")
  | AndNode Position (and_children: "Node list")
  | NotNode Position Node
  | CompareNode Position (cmp_Op: tokenKind) (LHS: Node) (RHS: Node) (cmp_Type: string)
  | ThresholdNode Position (IDText: string) (IDPos: Position) (Bound: "Threshold option")
  | FieldNode Position (Field: string) (field_Type: string)
  | StringLitNode Position string
  | NumberLitNode Position float64
  | BoolLitNode Position bool

fun Pos :: "Node \<Rightarrow> Position" where
  "Pos (OrNode p _) = p"
| "Pos (AndNode p _) = p"
| "Pos (NotNode p _) = p"
| "Pos (CompareNode p _ _ _ _) = p"
| "Pos (ThresholdNode p _ _ _) = p"
| "Pos (FieldNode p _ _) = p"
| "Pos (StringLitNode p _) = p"
| "Pos (NumberLitNode p _) = p"
| "Pos (BoolLitNode p _) = p"

end
