(* ===== verification/Dsl_Lexer.thy ===== *)
theory Dsl_Lexer
  imports Dsl_Ast
begin

text \<open>
  The tokenizer of the rule language (\<^verbatim>\<open>policy/dsl/lexer.go\<close>). The state is the unread
  suffix of the source (the code's \<^verbatim>\<open>src[pos:]\<close>) with the line and column of its first
  rune; a slice \<^verbatim>\<open>src[startOff:pos]\<close> is the part of the suffix consumed since. The loops
  of the code are recursive functions that end because every step reads a rune.
\<close>

section \<open>State\<close>

record lexer =
  rest :: string
  line :: int
  col :: int

definition newLexer :: "string \<Rightarrow> lexer" where
  "newLexer src = \<lparr>rest = src, line = 1, col = 1\<rparr>"

definition peek :: "lexer \<Rightarrow> rune" where
  "peek l = (if rest l = [] then 0 else fst (decode_rune (rest l)))"

definition next_rune :: "lexer \<Rightarrow> rune \<times> lexer" where
  "next_rune l =
     (if rest l = [] then (0, l)
      else
        let (r, w) = decode_rune (rest l) in
        (r, if r = 10 then l\<lparr>rest := drop w (rest l), line := line l + 1, col := 1\<rparr>
            else l\<lparr>rest := drop w (rest l), col := col l + 1\<rparr>))"

abbreviation skip :: "lexer \<Rightarrow> lexer" where
  "skip l \<equiv> snd (next_rune l)"

definition currentPos :: "lexer \<Rightarrow> Position" where
  "currentPos l = mkPos (line l) (col l)"

definition consumed :: "lexer \<Rightarrow> lexer \<Rightarrow> string" where
  "consumed l l' = take (length (rest l) - length (rest l')) (rest l)"

lemma rest_skip: "rest l \<noteq> [] \<Longrightarrow> rest (skip l) = drop (snd (decode_rune (rest l))) (rest l)"
  by (auto simp: next_rune_def split: prod.splits)

lemma skip_shorter [simp]: "rest l \<noteq> [] \<Longrightarrow> length (rest (skip l)) < length (rest l)"
  using decode_rune_width_pos [of "rest l"] by (simp add: rest_skip)

lemma skip_le [simp]: "length (rest (skip l)) \<le> length (rest l)"
  by (cases "rest l = []") (simp_all add: next_rune_def less_imp_le split: prod.splits)

lemma peek_nonempty: "peek l \<noteq> 0 \<Longrightarrow> rest l \<noteq> []"
  by (auto simp: peek_def)

section \<open>White space\<close>

text \<open>The loop \<^verbatim>\<open>for l.pos < len(l.src) && p(l.peek()) { l.next() }\<close> of comments, digits and identifiers.\<close>

function skipWhile :: "(rune \<Rightarrow> bool) \<Rightarrow> lexer \<Rightarrow> lexer" where
  "skipWhile p l = (if rest l \<noteq> [] \<and> p (peek l) then skipWhile p (skip l) else l)"
  by pat_completeness auto
termination
  by (relation "measure (\<lambda>(p, l). length (rest l))") auto

declare skipWhile.simps [simp del]

lemma skipWhile_le [simp]: "length (rest (skipWhile p l)) \<le> length (rest l)"
proof (induction p l rule: skipWhile.induct)
  case (1 p l)
  then show ?case
    by (subst skipWhile.simps) (auto intro: le_trans [OF _ skip_le])
qed

lemma skipWhile_stop: "rest (skipWhile p l) = [] \<or> \<not> p (peek (skipWhile p l))"
proof (induction p l rule: skipWhile.induct)
  case (1 p l)
  then show ?case by (subst (1 2) skipWhile.simps) auto
qed

lemma skipWhile_shorter:
  "rest l \<noteq> [] \<Longrightarrow> p (peek l) \<Longrightarrow> length (rest (skipWhile p l)) < length (rest l)"
  by (subst skipWhile.simps) (simp add: le_less_trans [OF skipWhile_le skip_shorter])

abbreviation skipComment :: "lexer \<Rightarrow> lexer" where
  "skipComment \<equiv> skipWhile (\<lambda>r. r \<noteq> 10)"

abbreviation skipDigits :: "lexer \<Rightarrow> lexer" where
  "skipDigits \<equiv> skipWhile IsDigit"

function skipWhitespace :: "lexer \<Rightarrow> lexer" where
  "skipWhitespace l =
     (if rest l = [] then l
      else let r = peek l in
        if r = 32 \<or> r = 9 \<or> r = 13 \<or> r = 10 then skipWhitespace (skip l)
        else if r = 35 then skipWhitespace (skipComment l)
        else l)"
  by pat_completeness auto
termination
  by (relation "measure (\<lambda>l. length (rest l))") (auto simp: skipWhile_shorter)

declare skipWhitespace.simps [simp del]

lemma skipWhitespace_le [simp]: "length (rest (skipWhitespace l)) \<le> length (rest l)"
proof (induction l rule: skipWhitespace.induct)
  case (1 l)
  then show ?case
    by (subst skipWhitespace.simps)
      (auto simp: Let_def intro: le_trans [OF _ skip_le] le_trans [OF _ skipWhile_le])
qed

section \<open>String literals\<close>

definition escape_char :: "rune \<Rightarrow> char option" where
  "escape_char esc =
     (if esc = 92 then Some (CHR 0x5C)
      else if esc = 39 then Some (CHR 0x27)
      else if esc = 110 then Some (CHR 0x0A)
      else if esc = 116 then Some (CHR 0x09)
      else None)"

text \<open>The loop of \<open>readString\<close> after the opening quote; \<open>sb\<close> is the builder.\<close>

function readStringLoop :: "Position \<Rightarrow> lexer \<Rightarrow> string \<Rightarrow> dsl_error + token \<times> lexer" where
  "readStringLoop start l sb =
     (if rest l = [] then Inl (newError ErrLex start)
      else
        let r = peek l; l1 = skip l in
        if r = 39 then Inr (mkTok TokString sb start, l1)
        else if r = 92 then
          (if rest l1 = [] then Inl (newError ErrLex (currentPos l1))
           else
             let l2 = skip l1 in
             case escape_char (peek l1) of
               None \<Rightarrow> Inl (newError ErrLex (currentPos l2))
             | Some c \<Rightarrow> readStringLoop start l2 (sb @ [c]))
        else if r = 10 then Inl (newError ErrLex (currentPos l1))
        else readStringLoop start l1 (sb @ encode_rune r))"
  by pat_completeness auto
termination
  by (relation "measure (\<lambda>(s, l, b). length (rest l))")
    (auto intro: less_trans [OF skip_shorter skip_shorter])

declare readStringLoop.simps [simp del]

definition readString :: "Position \<Rightarrow> lexer \<Rightarrow> dsl_error + token \<times> lexer" where
  "readString start l = readStringLoop start (skip l) []"

lemma readStringLoop_result:
  "readStringLoop start l sb = Inr (t, l') \<Longrightarrow>
     kind t = TokString \<and> tpos t = start \<and> length (rest l') < length (rest l)"
proof (induction start l sb rule: readStringLoop.induct)
  case (1 start l sb)
  from "1.prems" have ne: "rest l \<noteq> []" by (subst (asm) readStringLoop.simps) auto
  note step = "1.prems" [unfolded readStringLoop.simps [of start l sb] Let_def]
  have s1: "length (rest (skip l)) < length (rest l)" using ne by simp
  consider (quote) "peek l = 39" | (esc) "peek l = 92" | (other) "peek l \<noteq> 39" "peek l \<noteq> 92" by blast
  then show ?case
  proof cases
    case quote
    with step ne s1 show ?thesis by (auto simp: mkTok_def)
  next
    case esc
    with step ne obtain c where ne1: "rest (skip l) \<noteq> []" and c: "escape_char (peek (skip l)) = Some c"
      and rec: "readStringLoop start (skip (skip l)) (sb @ [c]) = Inr (t, l')"
      by (auto split: if_splits option.splits)
    have "kind t = TokString \<and> tpos t = start \<and> length (rest l') < length (rest (skip (skip l)))"
      using "1.IH"(1) [OF ne refl refl _ esc ne1 refl c rec] esc by simp
    with s1 skip_shorter [OF ne1] show ?thesis by simp
  next
    case other
    with step ne have nl: "peek l \<noteq> 10"
      and rec: "readStringLoop start (skip l) (sb @ encode_rune (peek l)) = Inr (t, l')"
      by (auto split: if_splits)
    with "1.IH"(2) [OF ne refl refl other nl rec] s1 show ?thesis by simp
  qed
qed

section \<open>Numbers and identifiers\<close>

definition readNumber :: "Position \<Rightarrow> lexer \<Rightarrow> dsl_error + token \<times> lexer" where
  "readNumber start l =
     (let l1 = (if peek l = 45 then skip l else l);
          l2 = skipDigits l1
      in if rest l2 \<noteq> [] \<and> peek l2 = 46 then
           (let l3 = skip l2 in
            if rest l3 = [] \<or> \<not> IsDigit (peek l3) then Inl (newError ErrLex start)
            else let l4 = skipDigits l3 in Inr (mkTok TokNumber (consumed l l4) start, l4))
         else Inr (mkTok TokNumber (consumed l l2) start, l2))"

definition isIdentStart :: "rune \<Rightarrow> bool" where
  "isIdentStart r \<longleftrightarrow> r = 95 \<or> (97 \<le> r \<and> r \<le> 122) \<or> (65 \<le> r \<and> r \<le> 90)"

definition isIdentContinue :: "rune \<Rightarrow> bool" where
  "isIdentContinue r \<longleftrightarrow> isIdentStart r \<or> (48 \<le> r \<and> r \<le> 57)"

abbreviation skipIdent :: "lexer \<Rightarrow> lexer" where
  "skipIdent \<equiv> skipWhile isIdentContinue"

definition keyword_kind :: "string \<Rightarrow> tokenKind" where
  "keyword_kind s =
     (if ToUpper s = ''AND'' then TokAnd
      else if ToUpper s = ''OR'' then TokOr
      else if ToUpper s = ''NOT'' then TokNot
      else if s = ''true'' then TokTrue
      else if s = ''false'' then TokFalse
      else if s = ''threshold'' then TokThreshold
      else TokIdent)"

definition readIdent :: "Position \<Rightarrow> lexer \<Rightarrow> dsl_error + token \<times> lexer" where
  "readIdent start l =
     (let l' = skipIdent l; s = consumed l l' in Inr (mkTok (keyword_kind s) s start, l'))"

section \<open>The next token\<close>

definition nextToken :: "lexer \<Rightarrow> dsl_error + token \<times> lexer" where
  "nextToken l0 =
     (let l = skipWhitespace l0; pos = currentPos l; r = peek l; l1 = skip l in
      if rest l = [] then Inr (mkTok TokEOF [] pos, l)
      else if r = 40 then Inr (mkTok TokLParen ''('' pos, l1)
      else if r = 41 then Inr (mkTok TokRParen '')'' pos, l1)
      else if r = 44 then Inr (mkTok TokComma '','' pos, l1)
      else if r = 61 then
        (if peek l1 \<noteq> 61 then Inl (newError ErrLex pos)
         else Inr (mkTok TokEQ ''=='' pos, skip l1))
      else if r = 33 then
        (if peek l1 \<noteq> 61 then Inl (newError ErrLex pos)
         else Inr (mkTok TokNE ''!='' pos, skip l1))
      else if r = 62 then
        (if peek l1 = 61 then Inr (mkTok TokGE ''>='' pos, skip l1)
         else Inr (mkTok TokGT ''>'' pos, l1))
      else if r = 60 then
        (if peek l1 = 61 then Inr (mkTok TokLE ''<='' pos, skip l1)
         else Inr (mkTok TokLT ''<'' pos, l1))
      else if r = 39 then readString pos l
      else if r = 45 then
        (if 1 < length (rest l) \<and> is_dec (rest l ! 1) then readNumber pos l
         else Inl (newError ErrLex pos))
      else if 48 \<le> r \<and> r \<le> 57 then readNumber pos l
      else if isIdentStart r then readIdent pos l
      else Inl (newError ErrLex pos))"

section \<open>Progress and error kinds\<close>

lemma keyword_kind_cases:
  "keyword_kind s \<in> {TokAnd, TokOr, TokNot, TokTrue, TokFalse, TokThreshold, TokIdent}"
  by (simp add: keyword_kind_def)

lemma readNumber_result:
  assumes "readNumber start l = Inr (t, l')" and "rest l \<noteq> []" and "peek l = 45 \<or> IsDigit (peek l)"
  shows "kind t = TokNumber \<and> tpos t = start \<and> length (rest l') < length (rest l)"
proof -
  define l1 where "l1 = (if peek l = 45 then skip l else l)"
  have "length (rest (skipDigits l1)) < length (rest l)"
  proof (cases "peek l = 45")
    case True
    then show ?thesis
      using le_less_trans [OF skipWhile_le skip_shorter [OF assms(2)]] by (simp add: l1_def)
  next
    case False
    then show ?thesis
      using assms(2,3) by (simp add: l1_def skipWhile_shorter)
  qed
  moreover have "length (rest (skipDigits (skip (skipDigits l1)))) \<le> length (rest (skipDigits l1))"
    by (meson le_trans skipWhile_le skip_le)
  ultimately show ?thesis
    using assms(1)
    by (auto simp: readNumber_def l1_def [symmetric] Let_def mkTok_def split: if_splits)
qed

lemma readIdent_result:
  assumes "readIdent start l = Inr (t, l')" and "rest l \<noteq> []" and "isIdentStart (peek l)"
  shows "kind t \<noteq> TokEOF \<and> tpos t = start \<and> length (rest l') < length (rest l)"
  using assms keyword_kind_cases [of "consumed l (skipIdent l)"]
  by (auto simp: readIdent_def Let_def mkTok_def isIdentContinue_def intro!: skipWhile_shorter)

lemma readString_result:
  assumes "readString start l = Inr (t, l')"
  shows "kind t = TokString \<and> tpos t = start \<and> length (rest l') < length (rest l)"
  using readStringLoop_result [OF assms [unfolded readString_def]] less_le_trans [OF _ skip_le] by blast

text \<open>Every token other than the end of input uses up source text.\<close>

lemma nextToken_progress:
  assumes "nextToken l0 = Inr (t, l')"
  shows "length (rest l') \<le> length (rest l0)"
    and "kind t \<noteq> TokEOF \<Longrightarrow> length (rest l') < length (rest l0)"
proof -
  let ?l = "skipWhitespace l0"
  have le: "length (rest ?l) \<le> length (rest l0)" by simp
  have two: "rest ?l \<noteq> [] \<Longrightarrow> length (rest (skip (skip ?l))) < length (rest ?l)"
    by (meson le_less_trans skip_le skip_shorter)
  have "(kind t = TokEOF \<and> l' = ?l) \<or> length (rest l') < length (rest ?l)"
  proof (cases "rest ?l = []")
    case True
    then show ?thesis using assms by (auto simp: nextToken_def mkTok_def Let_def)
  next
    case False
    have dig: "48 \<le> peek ?l \<Longrightarrow> peek ?l \<le> 57 \<Longrightarrow> IsDigit (peek ?l)"
      by (simp add: IsDigit_ascii)
    from assms False two [OF False] show ?thesis
      by (auto simp: nextToken_def Let_def split: if_splits dest: readString_result
          readIdent_result [OF _ False] readNumber_result [OF _ False] dig)
  qed
  then have cases: "kind t = TokEOF \<and> length (rest l') = length (rest ?l)
      \<or> length (rest l') < length (rest ?l)" by auto
  then show "length (rest l') \<le> length (rest l0)" using le by linarith
  show "length (rest l') < length (rest l0)" if "kind t \<noteq> TokEOF"
    using cases le that by linarith
qed

text \<open>Positions are 1-indexed: the line and column of a lexer, of its tokens and of its errors.\<close>

definition pos_ok :: "Position \<Rightarrow> bool" where
  "pos_ok p \<longleftrightarrow> 1 \<le> Line p \<and> 1 \<le> Column p"

definition lexer_ok :: "lexer \<Rightarrow> bool" where
  "lexer_ok l \<longleftrightarrow> 1 \<le> line l \<and> 1 \<le> col l"

definition lex_error :: "dsl_error \<Rightarrow> bool" where
  "lex_error e \<longleftrightarrow> (\<exists>p. e = newError ErrLex p \<and> pos_ok p)"

lemma lex_errorI [simp]: "pos_ok p \<Longrightarrow> lex_error (newError ErrLex p)"
  by (auto simp: lex_error_def)

lemma newLexer_ok [simp]: "lexer_ok (newLexer src)"
  by (simp add: lexer_ok_def newLexer_def)

lemma skip_ok [simp]: "lexer_ok l \<Longrightarrow> lexer_ok (skip l)"
  by (auto simp: lexer_ok_def next_rune_def split: prod.splits)

lemma currentPos_ok [simp]: "lexer_ok l \<Longrightarrow> pos_ok (currentPos l)"
  by (simp add: lexer_ok_def pos_ok_def currentPos_def mkPos_def)

lemma skipWhile_ok [simp]: "lexer_ok l \<Longrightarrow> lexer_ok (skipWhile p l)"
proof (induction p l rule: skipWhile.induct)
  case (1 p l)
  then show ?case by (subst skipWhile.simps) auto
qed

lemma skipWhitespace_ok [simp]: "lexer_ok l \<Longrightarrow> lexer_ok (skipWhitespace l)"
proof (induction l rule: skipWhitespace.induct)
  case (1 l)
  then show ?case by (subst skipWhitespace.simps) (auto simp: Let_def)
qed

lemma readStringLoop_ok:
  assumes "lexer_ok l" and "pos_ok start"
  shows "case readStringLoop start l sb of Inl e \<Rightarrow> lex_error e | Inr (t, l') \<Rightarrow> lexer_ok l'"
  using assms
proof (induction start l sb rule: readStringLoop.induct)
  case (1 start l sb)
  show ?case
  proof (cases "rest l = [] \<or> peek l = 39 \<or> peek l = 10")
    case True
    then show ?thesis
      using "1.prems" by (subst readStringLoop.simps) (auto simp: Let_def lex_error_def)
  next
    case False
    then show ?thesis
      using "1.prems" "1.IH"
      by (subst readStringLoop.simps) (auto simp: Let_def lex_error_def split: option.splits)
  qed
qed

lemma nextToken_cases:
  fixes l0
  defines "l \<equiv> skipWhitespace l0"
  shows "nextToken l0 = Inl (newError ErrLex (currentPos l))
    \<or> nextToken l0 = readString (currentPos l) l \<or> nextToken l0 = readNumber (currentPos l) l
    \<or> (\<exists>t l'. nextToken l0 = Inr (t, l') \<and> tpos t = currentPos l
         \<and> l' \<in> {l, skip l, skip (skip l), skipIdent l})"
  unfolding nextToken_def l_def [symmetric] Let_def
  by (auto simp: mkTok_def readIdent_def Let_def)

lemma nextToken_ok:
  assumes "lexer_ok l0"
  shows "case nextToken l0 of Inl e \<Rightarrow> lex_error e | Inr (t, l') \<Rightarrow> lexer_ok l' \<and> pos_ok (tpos t)"
proof -
  let ?l = "skipWhitespace l0"
  have ok: "lexer_ok ?l" "pos_ok (currentPos ?l)" using assms by simp_all
  have str: "case readString (currentPos ?l) ?l of Inl e \<Rightarrow> lex_error e
      | Inr (t, l') \<Rightarrow> lexer_ok l' \<and> pos_ok (tpos t)"
    using readStringLoop_ok [of "skip ?l" "currentPos ?l" "[]"] ok readStringLoop_result
    by (fastforce simp: readString_def split: sum.splits)
  have num: "case readNumber (currentPos ?l) ?l of Inl e \<Rightarrow> lex_error e
      | Inr (t, l') \<Rightarrow> lexer_ok l' \<and> pos_ok (tpos t)"
    using ok by (auto simp: readNumber_def Let_def lex_error_def mkTok_def)
  from nextToken_cases [of l0] show ?thesis
    using str num ok by auto
qed

end
