(* ===== verification/Dsl_Parser.thy ===== *)
theory Dsl_Parser
  imports Dsl_Lexer
begin

text \<open>
  The recursive-descent parser of the rule language (\<^verbatim>\<open>policy/dsl/parser.go\<close>), with one
  token of lookahead, the type check of comparisons and the check of string literals
  against the closed label sets. The mutually recursive productions take a fuel argument;
  \<open>Parse\<close> supplies \<open>5 * length src + 9\<close>, which is always enough: a production spends at
  most five units between two tokens.
\<close>

section \<open>Types of operands and closed sets\<close>

definition fieldType :: "string \<Rightarrow> string option" where
  "fieldType name =
     (if name = ''metric_kind'' \<or> name = ''scope_kind'' \<or> name = ''pack'' \<or> name = ''source''
      then Some ''string''
      else if name = ''value'' then Some ''number''
      else if name = ''degraded'' then Some ''bool''
      else None)"

definition isComparisonOp :: "tokenKind \<Rightarrow> bool" where
  "isComparisonOp k \<longleftrightarrow>
     k = TokEQ \<or> k = TokNE \<or> k = TokGT \<or> k = TokGE \<or> k = TokLT \<or> k = TokLE"

fun operandType :: "Node \<Rightarrow> string" where
  "operandType (FieldNode _ _ t) = t"
| "operandType (StringLitNode _ _) = ''string''"
| "operandType (NumberLitNode _ _) = ''number''"
| "operandType (BoolLitNode _ _) = ''bool''"
| "operandType _ = []"

definition unifyOperandTypes :: "Node \<Rightarrow> Node \<Rightarrow> tokenKind \<Rightarrow> Position \<Rightarrow> dsl_error + string" where
  "unifyOperandTypes lhs rhs op opPos =
     (let lt = operandType lhs; rt = operandType rhs in
      if lt = [] \<or> rt = [] then Inl (newError ErrType opPos)
      else if lt \<noteq> rt then Inl (newError ErrType opPos)
      else if op \<noteq> TokEQ \<and> op \<noteq> TokNE \<and> lt \<noteq> ''number'' then Inl (newError ErrType opPos)
      else Inr lt)"

definition canonGuard :: "Node \<Rightarrow> Node \<Rightarrow> dsl_error option" where
  "canonGuard field lit =
     (case field of
        FieldNode _ name _ \<Rightarrow>
          (case lit of
             StringLitNode p v \<Rightarrow>
               (if name = ''metric_kind'' \<and> \<not> IsCanonicalMetricKind v
                  \<or> name = ''scope_kind'' \<and> \<not> IsCanonicalScopeKind v
                  \<or> name = ''pack'' \<and> \<not> IsCanonicalPack v
                  \<or> name = ''source'' \<and> \<not> IsCanonicalSource v
                then Some (newError ErrSemantic p) else None)
           | _ \<Rightarrow> None)
      | _ \<Rightarrow> None)"

section \<open>Parser state\<close>

record parser =
  lex :: lexer
  current :: token

abbreviation cur :: "parser \<Rightarrow> tokenKind" where
  "cur p \<equiv> kind (current p)"

abbreviation cur_pos :: "parser \<Rightarrow> Position" where
  "cur_pos p \<equiv> tpos (current p)"

definition advance :: "parser \<Rightarrow> dsl_error + parser" where
  "advance p = bindE (nextToken (lex p)) (\<lambda>(t, l). Inr \<lparr>lex = l, current = t\<rparr>)"

definition newParser :: "string \<Rightarrow> dsl_error + parser" where
  "newParser src = advance \<lparr>lex = newLexer src, current = mkTok TokEOF [] (mkPos 0 0)\<rparr>"

definition expect :: "tokenKind \<Rightarrow> parser \<Rightarrow> dsl_error + token \<times> parser" where
  "expect k p =
     (if cur p \<noteq> k then Inl (newError ErrParse (cur_pos p))
      else bindE (advance p) (\<lambda>p'. Inr (current p, p')))"

section \<open>Atoms\<close>

definition parseOperand :: "parser \<Rightarrow> dsl_error + Node \<times> parser" where
  "parseOperand p =
     (case cur p of
        TokIdent \<Rightarrow>
          (case fieldType (text_of (current p)) of
             None \<Rightarrow> Inl (newError ErrSemantic (cur_pos p))
           | Some ft \<Rightarrow>
               bindE (advance p) (\<lambda>p'. Inr (FieldNode (cur_pos p) (text_of (current p)) ft, p')))
      | TokString \<Rightarrow>
          bindE (advance p) (\<lambda>p'. Inr (StringLitNode (cur_pos p) (text_of (current p)), p'))
      | TokNumber \<Rightarrow>
          (case ParseFloat (text_of (current p)) of
             None \<Rightarrow> Inl (newError ErrParse (cur_pos p))
           | Some v \<Rightarrow> bindE (advance p) (\<lambda>p'. Inr (NumberLitNode (cur_pos p) v, p')))
      | TokTrue \<Rightarrow> bindE (advance p) (\<lambda>p'. Inr (BoolLitNode (cur_pos p) True, p'))
      | TokFalse \<Rightarrow> bindE (advance p) (\<lambda>p'. Inr (BoolLitNode (cur_pos p) False, p'))
      | _ \<Rightarrow> Inl (newError ErrParse (cur_pos p)))"

definition parseThresholdCall :: "parser \<Rightarrow> dsl_error + Node \<times> parser" where
  "parseThresholdCall p =
     bindE (advance p) (\<lambda>p1.
     bindE (expect TokLParen p1) (\<lambda>(_, p2).
       if cur p2 \<noteq> TokString then Inl (newError ErrParse (cur_pos p2))
       else
         bindE (advance p2) (\<lambda>p3.
         bindE (expect TokRParen p3) (\<lambda>(_, p4).
           Inr (ThresholdNode (cur_pos p) (text_of (current p2)) (cur_pos p2) None, p4)))))"

definition parseComparisonTail :: "Node \<Rightarrow> parser \<Rightarrow> dsl_error + Node \<times> parser" where
  "parseComparisonTail lhs p =
     bindE (advance p) (\<lambda>p1.
     bindE (parseOperand p1) (\<lambda>(rhs, p2).
     bindE (unifyOperandTypes lhs rhs (cur p) (cur_pos p)) (\<lambda>t.
       case canonGuard lhs rhs of
         Some e \<Rightarrow> Inl e
       | None \<Rightarrow>
           (case canonGuard rhs lhs of
              Some e \<Rightarrow> Inl e
            | None \<Rightarrow> Inr (CompareNode (Pos lhs) (cur p) lhs rhs t, p2)))))"

definition parseOperandAtom :: "parser \<Rightarrow> dsl_error + Node \<times> parser" where
  "parseOperandAtom p =
     bindE (parseOperand p) (\<lambda>(lhs, p1).
       if isComparisonOp (cur p1) then parseComparisonTail lhs p1
       else case lhs of
           BoolLitNode _ _ \<Rightarrow> Inr (lhs, p1)
         | _ \<Rightarrow> Inl (newError ErrParse (cur_pos p1)))"

section \<open>Productions\<close>

fun parseOr :: "nat \<Rightarrow> parser \<Rightarrow> dsl_error + Node \<times> parser"
  and parseOrLoop :: "nat \<Rightarrow> Node list \<Rightarrow> parser \<Rightarrow> dsl_error + Node list \<times> parser"
  and parseAnd :: "nat \<Rightarrow> parser \<Rightarrow> dsl_error + Node \<times> parser"
  and parseAndLoop :: "nat \<Rightarrow> Node list \<Rightarrow> parser \<Rightarrow> dsl_error + Node list \<times> parser"
  and parseNot :: "nat \<Rightarrow> parser \<Rightarrow> dsl_error + Node \<times> parser"
  and parseAtom :: "nat \<Rightarrow> parser \<Rightarrow> dsl_error + Node \<times> parser"
where
  "parseOr 0 p = Inl OutOfFuel"
| "parseOr (Suc n) p =
     bindE (parseAnd n p) (\<lambda>(first, p1).
       if cur p1 \<noteq> TokOr then Inr (first, p1)
       else bindE (parseOrLoop n [first] p1) (\<lambda>(children, p2).
              Inr (OrNode (Pos first) children, p2)))"
| "parseOrLoop 0 children p = Inl OutOfFuel"
| "parseOrLoop (Suc n) children p =
     (if cur p = TokOr then
        bindE (advance p) (\<lambda>p1.
        bindE (parseAnd n p1) (\<lambda>(rhs, p2). parseOrLoop n (children @ [rhs]) p2))
      else Inr (children, p))"
| "parseAnd 0 p = Inl OutOfFuel"
| "parseAnd (Suc n) p =
     bindE (parseNot n p) (\<lambda>(first, p1).
       if cur p1 \<noteq> TokAnd then Inr (first, p1)
       else bindE (parseAndLoop n [first] p1) (\<lambda>(children, p2).
              Inr (AndNode (Pos first) children, p2)))"
| "parseAndLoop 0 children p = Inl OutOfFuel"
| "parseAndLoop (Suc n) children p =
     (if cur p = TokAnd then
        bindE (advance p) (\<lambda>p1.
        bindE (parseNot n p1) (\<lambda>(rhs, p2). parseAndLoop n (children @ [rhs]) p2))
      else Inr (children, p))"
| "parseNot 0 p = Inl OutOfFuel"
| "parseNot (Suc n) p =
     (if cur p = TokNot then
        bindE (advance p) (\<lambda>p1.
        bindE (parseNot n p1) (\<lambda>(child, p2). Inr (NotNode (cur_pos p) child, p2)))
      else parseAtom n p)"
| "parseAtom 0 p = Inl OutOfFuel"
| "parseAtom (Suc n) p =
     (if cur p = TokLParen then
        bindE (advance p) (\<lambda>p1.
        bindE (parseOr n p1) (\<lambda>(inner, p2).
        bindE (expect TokRParen p2) (\<lambda>(_, p3). Inr (inner, p3))))
      else if cur p = TokThreshold then parseThresholdCall p
      else parseOperandAtom p)"

definition Parse :: "string \<Rightarrow> dsl_error + Node" where
  "Parse src =
     bindE (newParser src) (\<lambda>p.
     bindE (parseOr (5 * length src + 9) p) (\<lambda>(node, p').
       if cur p' \<noteq> TokEOF then Inl (newError ErrParse (cur_pos p')) else Inr node))"

section \<open>Well-formed predicates\<close>

text \<open>
  What the grammar and the parse-time checks promise of a tree: chains have at least two
  members, comparisons are between operands of one type that the operator accepts, string
  literals compared with a closed-set field are in its set, and only comparisons,
  thresholds and Boolean literals are atoms. The argument says what is known of the row a
  threshold atom carries.
\<close>

fun wf_operand :: "Node \<Rightarrow> bool" where
  "wf_operand (FieldNode p f t) \<longleftrightarrow> pos_ok p \<and> fieldType f = Some t"
| "wf_operand (StringLitNode p _) \<longleftrightarrow> pos_ok p"
| "wf_operand (NumberLitNode p _) \<longleftrightarrow> pos_ok p"
| "wf_operand (BoolLitNode p _) \<longleftrightarrow> pos_ok p"
| "wf_operand _ \<longleftrightarrow> False"

definition wf_compare :: "tokenKind \<Rightarrow> Node \<Rightarrow> Node \<Rightarrow> string \<Rightarrow> bool" where
  "wf_compare op l r t \<longleftrightarrow>
     isComparisonOp op \<and> wf_operand l \<and> wf_operand r \<and> operandType l = t \<and> operandType r = t
     \<and> (op = TokEQ \<or> op = TokNE \<or> t = ''number'') \<and> canonGuard l r = None \<and> canonGuard r l = None"

fun wf_node :: "(string \<Rightarrow> Threshold option \<Rightarrow> bool) \<Rightarrow> Node \<Rightarrow> bool" where
  "wf_node B (OrNode p cs) \<longleftrightarrow> pos_ok p \<and> 2 \<le> length cs \<and> (\<forall>c \<in> set cs. wf_node B c)"
| "wf_node B (AndNode p cs) \<longleftrightarrow> pos_ok p \<and> 2 \<le> length cs \<and> (\<forall>c \<in> set cs. wf_node B c)"
| "wf_node B (NotNode p c) \<longleftrightarrow> pos_ok p \<and> wf_node B c"
| "wf_node B (CompareNode p op l r t) \<longleftrightarrow> pos_ok p \<and> wf_compare op l r t"
| "wf_node B (ThresholdNode p i q b) \<longleftrightarrow> pos_ok p \<and> pos_ok q \<and> B i b"
| "wf_node B (BoolLitNode p _) \<longleftrightarrow> pos_ok p"
| "wf_node B _ \<longleftrightarrow> False"

abbreviation unbound :: "string \<Rightarrow> Threshold option \<Rightarrow> bool" where
  "unbound i b \<equiv> b = None"

lemma wf_node_pos [simp]: "wf_node B n \<Longrightarrow> pos_ok (Pos n)"
  by (cases n) auto

lemma wf_operand_pos [simp]: "wf_operand n \<Longrightarrow> pos_ok (Pos n)"
  by (cases n) auto

lemma wf_operand_type: "wf_operand n \<Longrightarrow> operandType n \<in> {''string'', ''number'', ''bool''}"
  by (cases n) (auto simp: fieldType_def split: if_splits)

section \<open>Total correctness of the productions\<close>

definition parse_error :: "dsl_error \<Rightarrow> bool" where
  "parse_error e \<longleftrightarrow>
     (\<exists>k p. e = Error k p None \<and> k \<in> {ErrLex, ErrParse, ErrSemantic, ErrType} \<and> pos_ok p)"

definition parser_ok :: "parser \<Rightarrow> bool" where
  "parser_ok p \<longleftrightarrow> lexer_ok (lex p) \<and> pos_ok (cur_pos p)"

text \<open>Unread text plus the token in hand: every token read makes it smaller.\<close>

definition pm :: "parser \<Rightarrow> nat" where
  "pm p = length (rest (lex p)) + (if cur p = TokEOF then 0 else 1)"

definition post :: "nat \<Rightarrow> ('a \<Rightarrow> bool) \<Rightarrow> dsl_error + 'a \<times> parser \<Rightarrow> bool" where
  "post m Q r \<longleftrightarrow>
     (case r of Inl e \<Rightarrow> parse_error e | Inr (x, p') \<Rightarrow> Q x \<and> parser_ok p' \<and> pm p' < m)"

lemma parse_errorI [simp]:
  "k \<in> {ErrLex, ErrParse, ErrSemantic, ErrType} \<Longrightarrow> pos_ok p \<Longrightarrow> parse_error (newError k p)"
  by (auto simp: parse_error_def newError_def)

lemma lex_error_parse_error: "lex_error e \<Longrightarrow> parse_error e"
  by (auto simp: lex_error_def)

lemma post_Inl [simp]: "post m Q (Inl e) \<longleftrightarrow> parse_error e"
  and post_Inr [simp]: "post m Q (Inr (x, p)) \<longleftrightarrow> Q x \<and> parser_ok p \<and> pm p < m"
  by (simp_all add: post_def)

lemma post_mono: "post m' Q r \<Longrightarrow> m' \<le> m \<Longrightarrow> post m Q r"
  by (auto simp: post_def split: sum.splits)

lemma post_bind:
  assumes "post m Q r" and "\<And>x p. Q x \<Longrightarrow> parser_ok p \<Longrightarrow> pm p < m \<Longrightarrow> post m' R (f (x, p))"
  shows "post m' R (bindE r f)"
  using assms by (cases r) (auto simp: post_def)

lemma advance_spec:
  assumes "parser_ok p"
  shows "case advance p of Inl e \<Rightarrow> parse_error e
    | Inr p' \<Rightarrow> parser_ok p' \<and> pm p' \<le> length (rest (lex p))"
proof (cases "nextToken (lex p)")
  case (Inl e)
  then show ?thesis
    using nextToken_ok [of "lex p"] assms by (simp add: advance_def parser_ok_def lex_error_parse_error)
next
  case (Inr tl)
  obtain t l where tl: "tl = (t, l)" by (cases tl)
  with Inr have "lexer_ok l" "pos_ok (tpos t)"
    using nextToken_ok [of "lex p"] assms by (simp_all add: parser_ok_def)
  moreover have "length (rest l) + (if kind t = TokEOF then 0 else 1) \<le> length (rest (lex p))"
    using nextToken_progress [of "lex p" t l] Inr tl by (cases "kind t = TokEOF") auto
  ultimately show ?thesis
    by (simp add: advance_def Inr tl parser_ok_def pm_def)
qed

lemma advance_bind:
  assumes "parser_ok p" and "cur p \<noteq> TokEOF"
    and "\<And>p'. parser_ok p' \<Longrightarrow> pm p' < pm p \<Longrightarrow> post m R (f p')"
  shows "post m R (bindE (advance p) f)"
  using advance_spec [OF assms(1)] assms(2,3)
  by (cases "advance p") (auto simp: pm_def less_Suc_eq_le)

lemma expect_spec: "parser_ok p \<Longrightarrow> k \<noteq> TokEOF \<Longrightarrow> post (pm p) (\<lambda>_. True) (expect k p)"
  by (auto simp: expect_def parser_ok_def [of p] intro: advance_bind)

lemma parseOperand_spec:
  assumes "parser_ok p"
  shows "post (pm p) wf_operand (parseOperand p)"
proof -
  have pos: "pos_ok (cur_pos p)" using assms by (simp add: parser_ok_def)
  show ?thesis
    unfolding parseOperand_def
    by (cases "cur p") (auto simp: pos split: option.splits intro!: advance_bind [OF assms])
qed

lemma parseThresholdCall_spec:
  assumes "parser_ok p" and "cur p = TokThreshold"
  shows "post (pm p) (wf_node unbound) (parseThresholdCall p)"
  unfolding parseThresholdCall_def
proof (rule advance_bind [OF assms(1)])
  fix p1 assume p1: "parser_ok p1" "pm p1 < pm p"
  show "post (pm p) (wf_node unbound) (bindE (expect TokLParen p1) (\<lambda>(_, p2).
       if cur p2 \<noteq> TokString then Inl (newError ErrParse (cur_pos p2))
       else bindE (advance p2) (\<lambda>p3. bindE (expect TokRParen p3) (\<lambda>(_, p4).
           Inr (ThresholdNode (cur_pos p) (text_of (current p2)) (cur_pos p2) None, p4)))))"
    using assms p1
    by (intro post_bind [OF expect_spec])
      (auto simp: parser_ok_def [of p] intro!: advance_bind post_bind [OF expect_spec],
        auto simp: parser_ok_def)
qed (use assms in simp)

lemma parseComparisonTail_spec:
  assumes "parser_ok p" and "isComparisonOp (cur p)" and "wf_operand lhs"
  shows "post (pm p) (wf_node unbound) (parseComparisonTail lhs p)"
  unfolding parseComparisonTail_def
proof (rule advance_bind [OF assms(1)], goal_cases)
  case 1
  then show ?case using assms(2) by (auto simp: isComparisonOp_def)
next
  case (2 p1)
  have canon: "parse_error e" if "canonGuard a b = Some e" "wf_operand b" for a b e
    using that by (auto simp: canonGuard_def split: Node.splits if_splits)
  show ?case
  proof (rule post_bind [OF parseOperand_spec [OF 2(1)]], simp only: prod.case)
    fix rhs p2 assume rhs: "wf_operand rhs" and p2: "parser_ok p2" "pm p2 < pm p1"
    have pos: "pos_ok (cur_pos p)" using assms(1) by (simp add: parser_ok_def)
    show "post (pm p) (wf_node unbound)
       (bindE (unifyOperandTypes lhs rhs (cur p) (cur_pos p)) (\<lambda>t.
         case canonGuard lhs rhs of Some e \<Rightarrow> Inl e
         | None \<Rightarrow> (case canonGuard rhs lhs of Some e \<Rightarrow> Inl e
            | None \<Rightarrow> Inr (CompareNode (Pos lhs) (cur p) lhs rhs t, p2))))"
      using 2 rhs p2 pos assms canon
      by (auto simp: unifyOperandTypes_def Let_def wf_compare_def split: option.splits)
  qed
qed

lemma parseOperandAtom_spec:
  assumes "parser_ok p"
  shows "post (pm p) (wf_node unbound) (parseOperandAtom p)"
  unfolding parseOperandAtom_def
proof (rule post_bind [OF parseOperand_spec [OF assms]], simp only: prod.case)
  fix lhs p1 assume p1: "wf_operand lhs" "parser_ok p1" "pm p1 < pm p"
  then have "pos_ok (cur_pos p1)" by (simp add: parser_ok_def)
  with p1 show "post (pm p) (wf_node unbound)
      (if isComparisonOp (cur p1) then parseComparisonTail lhs p1
       else case lhs of BoolLitNode _ _ \<Rightarrow> Inr (lhs, p1) | _ \<Rightarrow> Inl (newError ErrParse (cur_pos p1)))"
    by (auto split: Node.splits intro: post_mono [OF parseComparisonTail_spec])
qed

text \<open>
  One lemma per production: if the productions it calls are correct with one unit of fuel
  less, so is the production. \<open>W\<close> abbreviates well-formedness of an unbound tree.
\<close>

abbreviation W :: "Node \<Rightarrow> bool" where
  "W \<equiv> wf_node unbound"

definition prod_ok :: "(nat \<Rightarrow> parser \<Rightarrow> dsl_error + Node \<times> parser) \<Rightarrow> nat \<Rightarrow> nat \<Rightarrow> bool" where
  "prod_ok f k n \<longleftrightarrow> (\<forall>p. parser_ok p \<longrightarrow> 5 * pm p + k \<le> n \<longrightarrow> post (pm p) W (f n p))"

definition loop_ok ::
  "(nat \<Rightarrow> Node list \<Rightarrow> parser \<Rightarrow> dsl_error + Node list \<times> parser) \<Rightarrow> tokenKind \<Rightarrow> nat \<Rightarrow> bool" where
  "loop_ok f t n \<longleftrightarrow>
     (\<forall>cs p. parser_ok p \<longrightarrow> list_all W cs \<longrightarrow> 5 * pm p + 1 \<le> n \<longrightarrow>
        post (Suc (pm p)) (\<lambda>cs'. list_all W cs' \<and> length cs + (if cur p = t then 1 else 0) \<le> length cs')
          (f n cs p))"

lemma prod_okD: "prod_ok f k n \<Longrightarrow> parser_ok p \<Longrightarrow> 5 * pm p + k \<le> n \<Longrightarrow> post (pm p) W (f n p)"
  by (simp add: prod_ok_def)

lemma loop_okD:
  "loop_ok f t n \<Longrightarrow> parser_ok p \<Longrightarrow> list_all W cs \<Longrightarrow> 5 * pm p + 1 \<le> n \<Longrightarrow>
     post (Suc (pm p)) (\<lambda>cs'. list_all W cs' \<and> length cs + (if cur p = t then 1 else 0) \<le> length cs')
       (f n cs p)"
  by (simp add: loop_ok_def)

lemma chain_step:
  assumes sub: "post (pm p) W r"
    and loop: "loop_ok loop t n" and n: "5 * pm p + 1 \<le> n"
    and mk: "\<And>q cs. pos_ok q \<Longrightarrow> 2 \<le> length cs \<Longrightarrow> list_all W cs \<Longrightarrow> W (mk q cs)"
  shows "post (pm p) W (bindE r (\<lambda>(first, p1).
           if cur p1 \<noteq> t then Inr (first, p1)
           else bindE (loop n [first] p1) (\<lambda>(children, p2). Inr (mk (Pos first) children, p2))))"
proof (rule post_bind [OF sub], simp only: prod.case)
  fix first p1 assume first: "W first" and p1: "parser_ok p1" "pm p1 < pm p"
  show "post (pm p) W (if cur p1 \<noteq> t then Inr (first, p1)
     else bindE (loop n [first] p1) (\<lambda>(children, p2). Inr (mk (Pos first) children, p2)))"
  proof (cases "cur p1 = t")
    case True
    have "post (Suc (pm p1)) (\<lambda>cs'. list_all W cs' \<and> 2 \<le> length cs') (loop n [first] p1)"
      using loop_okD [OF loop p1(1), of "[first]"] first p1 n True by (simp add: numeral_2_eq_2)
    with True first p1 show ?thesis
      by (auto intro!: post_bind mk)
  next
    case False
    with first p1 show ?thesis by simp
  qed
qed

lemma loop_step:
  assumes sub: "prod_ok f k n" and loop: "loop_ok loop t n" and k: "k \<le> 5" and t: "t \<noteq> TokEOF"
    and p: "parser_ok p" and cs: "list_all W cs" and n: "5 * pm p + 1 \<le> Suc n"
  shows "post (Suc (pm p)) (\<lambda>cs'. list_all W cs' \<and> length cs + (if cur p = t then 1 else 0) \<le> length cs')
     (if cur p = t then
        bindE (advance p) (\<lambda>p1. bindE (f n p1) (\<lambda>(rhs, p2). loop n (cs @ [rhs]) p2))
      else Inr (cs, p))"
proof (cases "cur p = t")
  case True
  let ?Q = "\<lambda>cs'. list_all W cs' \<and> Suc (length cs) \<le> length cs'"
  have "post (Suc (pm p)) ?Q (bindE (advance p) (\<lambda>p1. bindE (f n p1) (\<lambda>(rhs, p2). loop n (cs @ [rhs]) p2)))"
  proof (rule advance_bind [OF p])
    show "cur p \<noteq> TokEOF" using True t by simp
    fix p1 assume p1: "parser_ok p1" "pm p1 < pm p"
    have "post (pm p1) W (f n p1)"
      using p1 n k by (intro prod_okD [OF sub]) simp_all
    then show "post (Suc (pm p)) ?Q (bindE (f n p1) (\<lambda>(rhs, p2). loop n (cs @ [rhs]) p2))"
    proof (rule post_bind, simp only: prod.case)
      fix rhs p2 assume p2: "W rhs" "parser_ok p2" "pm p2 < pm p1"
      then have "post (Suc (pm p2)) (\<lambda>cs'. list_all W cs' \<and>
          length (cs @ [rhs]) + (if cur p2 = t then 1 else 0) \<le> length cs') (loop n (cs @ [rhs]) p2)"
        using cs n p1 by (intro loop_okD [OF loop]) simp_all
      then show "post (Suc (pm p)) ?Q (loop n (cs @ [rhs]) p2)"
        using p1 p2 by (auto simp: post_def split: sum.splits if_splits)
    qed
  qed
  with True show ?thesis by simp
next
  case False
  with p cs show ?thesis by simp
qed

lemma parseNot_step:
  assumes "prod_ok parseNot 2 n" and "prod_ok parseAtom 1 n"
  shows "prod_ok parseNot 2 (Suc n)"
proof -
  have "post (pm p) W (parseNot (Suc n) p)" if p: "parser_ok p" "5 * pm p + 2 \<le> Suc n" for p
  proof (cases "cur p = TokNot")
    case True
    have "post (pm p) W (bindE (advance p) (\<lambda>p1.
        bindE (parseNot n p1) (\<lambda>(child, p2). Inr (NotNode (cur_pos p) child, p2))))"
      using p True
      by (intro advance_bind post_bind [OF prod_okD [OF assms(1)]])
        (auto simp: parser_ok_def [of p])
    with True show ?thesis by simp
  next
    case False
    with p show ?thesis using prod_okD [OF assms(2), of p] by simp
  qed
  then show ?thesis by (simp add: prod_ok_def)
qed

lemma parseAtom_step:
  assumes "prod_ok parseOr 4 n"
  shows "prod_ok parseAtom 1 (Suc n)"
proof -
  have "post (pm p) W (parseAtom (Suc n) p)" if p: "parser_ok p" "5 * pm p + 1 \<le> Suc n" for p
  proof (cases "cur p = TokLParen")
    case True
    have "post (pm p) W (bindE (advance p) (\<lambda>p1.
        bindE (parseOr n p1) (\<lambda>(inner, p2). bindE (expect TokRParen p2) (\<lambda>(_, p3). Inr (inner, p3)))))"
      using p True
      by (intro advance_bind post_bind [OF prod_okD [OF assms]])
        (auto intro!: post_bind [OF expect_spec])
    with True show ?thesis by simp
  next
    case False
    with p show ?thesis
      by (simp add: parseThresholdCall_spec parseOperandAtom_spec)
  qed
  then show ?thesis by (simp add: prod_ok_def)
qed

lemma productions_ok:
  "prod_ok parseOr 4 n \<and> loop_ok parseOrLoop TokOr n \<and> prod_ok parseAnd 3 n
   \<and> loop_ok parseAndLoop TokAnd n \<and> prod_ok parseNot 2 n \<and> prod_ok parseAtom 1 n"
proof (induction n)
  case 0
  show ?case by (simp add: prod_ok_def loop_ok_def)
next
  case (Suc n)
  then have IH: "prod_ok parseOr 4 n" "loop_ok parseOrLoop TokOr n" "prod_ok parseAnd 3 n"
    "loop_ok parseAndLoop TokAnd n" "prod_ok parseNot 2 n" "prod_ok parseAtom 1 n" by simp_all
  have mk_or: "W (OrNode q cs)" and mk_and: "W (AndNode q cs)"
    if "pos_ok q" "2 \<le> length cs" "list_all W cs" for q cs
    using that by (simp_all add: list_all_iff)
  have "prod_ok parseOr 4 (Suc n)"
    unfolding prod_ok_def parseOr.simps
    by (intro allI impI chain_step [OF prod_okD [OF IH(3)] IH(2) _ mk_or]) auto
  moreover have "prod_ok parseAnd 3 (Suc n)"
    unfolding prod_ok_def parseAnd.simps
    by (intro allI impI chain_step [OF prod_okD [OF IH(5)] IH(4) _ mk_and]) auto
  moreover have "loop_ok parseOrLoop TokOr (Suc n)"
    unfolding loop_ok_def parseOrLoop.simps
    by (intro allI impI loop_step [OF IH(3) IH(2)]) auto
  moreover have "loop_ok parseAndLoop TokAnd (Suc n)"
    unfolding loop_ok_def parseAndLoop.simps
    by (intro allI impI loop_step [OF IH(5) IH(4)]) auto
  ultimately show ?case
    using parseNot_step [OF IH(5,6)] parseAtom_step [OF IH(1)] by simp
qed

lemma Parse_outcome: "case Parse src of Inl e \<Rightarrow> parse_error e | Inr n \<Rightarrow> W n"
proof -
  have np: "newParser src = bindE (nextToken (newLexer src)) (\<lambda>(t, l). Inr \<lparr>lex = l, current = t\<rparr>)"
    by (simp add: newParser_def advance_def)
  show ?thesis
  proof (cases "nextToken (newLexer src)")
    case (Inl e)
    then show ?thesis
      using nextToken_ok [of "newLexer src"] by (simp add: Parse_def np lex_error_parse_error)
  next
    case (Inr tl)
    obtain t l where tl: "tl = (t, l)" by (cases tl)
    let ?p = "\<lparr>lex = l, current = t\<rparr>"
    have ok: "parser_ok ?p"
      using nextToken_ok [of "newLexer src"] Inr tl by (simp add: parser_ok_def)
    have "length (rest l) \<le> length src"
      using nextToken_progress(1) [of "newLexer src" t l] Inr tl by (simp add: newLexer_def)
    then have "5 * pm ?p + 4 \<le> 5 * length src + 9" by (simp add: pm_def)
    then have "post (pm ?p) W (parseOr (5 * length src + 9) ?p)"
      using ok productions_ok prod_okD by blast
    then show ?thesis
      by (auto simp: Parse_def np Inr tl post_def bindE_def parser_ok_def split: sum.splits)
  qed
qed

text \<open>
  C20. On every text the parser returns: either a structured lexical, syntactic, semantic or
  type error with a position whose line and column are at least one, or a well-formed tree
  whose thresholds are not bound yet.
\<close>
theorem Parse_total:
  "case Parse src of Inl e \<Rightarrow> parse_error e | Inr n \<Rightarrow> wf_node unbound n"
  by (rule Parse_outcome)

end
