(* ===== verification/Dsl_Eval.thy ===== *)
theory Dsl_Eval
  imports Dsl_Parser
begin

text \<open>
  Binding and evaluation of predicates (\<^verbatim>\<open>policy/dsl/evaluator.go\<close> and
  \<^verbatim>\<open>policy/dsl/scope_eval.go\<close>): \<open>Bind\<close> resolves the threshold atoms, \<open>Eval\<close> applies a
  predicate to one sample, \<open>EvalAtScope\<close> to all samples of a scope with the identifiers of
  the samples that made it match. Parsing a threshold's identifier text
  (\<^verbatim>\<open>uuid.FromString\<close> of a third-party package) is the parameter \<open>from_string\<close>.
\<close>

section \<open>Binding\<close>

record Predicate =
  root :: Node
  source :: string

fun bindNode :: "(string \<Rightarrow> uuid option) \<Rightarrow> ThresholdResolver option \<Rightarrow> Node \<Rightarrow> dsl_error + Node" where
  "bindNode from_string resolver (OrNode p cs) =
     bindE (mapE (bindNode from_string resolver) cs) (\<lambda>cs'. Inr (OrNode p cs'))"
| "bindNode from_string resolver (AndNode p cs) =
     bindE (mapE (bindNode from_string resolver) cs) (\<lambda>cs'. Inr (AndNode p cs'))"
| "bindNode from_string resolver (NotNode p c) =
     bindE (bindNode from_string resolver c) (\<lambda>c'. Inr (NotNode p c'))"
| "bindNode from_string resolver (ThresholdNode p i q b) =
     (case resolver of
        None \<Rightarrow> Inl (newError ErrBind q)
      | Some look \<Rightarrow>
          (case from_string i of
             None \<Rightarrow> Inl (newError ErrBind q)
           | Some tid \<Rightarrow>
               (case look tid of
                  Inl e \<Rightarrow> Inl (newWrappedError ErrBind q e)
                | Inr t \<Rightarrow>
                    if ThresholdID t \<noteq> tid then Inl (newError ErrBind q)
                    else if Threshold_Validate t \<noteq> None then Inl (newError ErrBind q)
                    else Inr (ThresholdNode p i q (Some t)))))"
| "bindNode from_string resolver n = Inr n"

definition Bind :: "(string \<Rightarrow> uuid option) \<Rightarrow> Node \<Rightarrow> string \<Rightarrow> ThresholdResolver option \<Rightarrow> dsl_error + Predicate" where
  "Bind from_string node src resolver =
     bindE (bindNode from_string resolver node) (\<lambda>b. Inr \<lparr>root = b, source = src\<rparr>)"

definition Compile :: "(string \<Rightarrow> uuid option) \<Rightarrow> string \<Rightarrow> ThresholdResolver option \<Rightarrow> dsl_error + Predicate" where
  "Compile from_string src resolver =
     bindE (Parse src) (\<lambda>node. Bind from_string node src resolver)"

section \<open>Evaluation against one sample\<close>

fun stringOperand :: "Node \<Rightarrow> Sample \<Rightarrow> string option" where
  "stringOperand (StringLitNode _ v) s = Some v"
| "stringOperand (FieldNode _ f _) s =
     (let present = (\<lambda>v. if v \<noteq> [] then Some v else None) in
      if f = ''metric_kind'' then present (s_MetricKind s)
      else if f = ''scope_kind'' then present (s_ScopeKind s)
      else if f = ''pack'' then present (s_Pack s)
      else if f = ''source'' then present (s_Source s)
      else None)"
| "stringOperand _ s = None"

fun numberOperand :: "Node \<Rightarrow> Sample \<Rightarrow> float64 option" where
  "numberOperand (NumberLitNode _ v) s = Some v"
| "numberOperand (FieldNode _ f _) s =
     (if f = ''value'' then (if HasValue s then Some (s_Value s) else None) else None)"
| "numberOperand _ s = None"

fun boolOperand :: "Node \<Rightarrow> Sample \<Rightarrow> bool option" where
  "boolOperand (BoolLitNode _ v) s = Some v"
| "boolOperand (FieldNode _ f _) s = (if f = ''degraded'' then Some (s_Degraded s) else None)"
| "boolOperand _ s = None"

definition evalCompare :: "tokenKind \<Rightarrow> Node \<Rightarrow> Node \<Rightarrow> string \<Rightarrow> Sample \<Rightarrow> dsl_error + bool" where
  "evalCompare op lhs rhs t s =
     (if t = ''string'' then
        (case (stringOperand lhs s, stringOperand rhs s) of
           (Some l, Some r) \<Rightarrow>
             (if op = TokEQ then Inr (l = r) else if op = TokNE then Inr (l \<noteq> r) else Inl Unhandled)
         | _ \<Rightarrow> Inr False)
      else if t = ''number'' then
        (case (numberOperand lhs s, numberOperand rhs s) of
           (Some l, Some r) \<Rightarrow>
             (if op = TokEQ then Inr (flt_eq l r)
              else if op = TokNE then Inr (\<not> flt_eq l r)
              else if op = TokGT then Inr (flt_less r l)
              else if op = TokGE then Inr (flt_le r l)
              else if op = TokLT then Inr (flt_less l r)
              else if op = TokLE then Inr (flt_le l r)
              else Inl Unhandled)
         | _ \<Rightarrow> Inr False)
      else if t = ''bool'' then
        (case (boolOperand lhs s, boolOperand rhs s) of
           (Some l, Some r) \<Rightarrow>
             (if op = TokEQ then Inr (l = r) else if op = TokNE then Inr (l \<noteq> r) else Inl Unhandled)
         | _ \<Rightarrow> Inr False)
      else Inl Unhandled)"

definition evalThreshold :: "Threshold \<Rightarrow> Sample \<Rightarrow> bool" where
  "evalThreshold t s =
     (if s_MetricKind s \<noteq> TMetricKind t then False
      else if s_ScopeKind s \<noteq> TScopeKind t then False
      else if \<not> HasValue s then False
      else op_Compare (Op t) (s_Value s) (TValue t))"

text \<open>The short-circuit loops of the two chains.\<close>

fun any_child :: "('a \<Rightarrow> 'e + bool) \<Rightarrow> 'a list \<Rightarrow> 'e + bool" where
  "any_child f [] = Inr False"
| "any_child f (c # cs) = bindE (f c) (\<lambda>b. if b then Inr True else any_child f cs)"

fun all_children :: "('a \<Rightarrow> 'e + bool) \<Rightarrow> 'a list \<Rightarrow> 'e + bool" where
  "all_children f [] = Inr True"
| "all_children f (c # cs) = bindE (f c) (\<lambda>b. if \<not> b then Inr False else all_children f cs)"

lemma any_child_cong [fundef_cong]:
  "xs = ys \<Longrightarrow> (\<And>x. x \<in> set ys \<Longrightarrow> f x = g x) \<Longrightarrow> any_child f xs = any_child g ys"
  by (induction ys arbitrary: xs) (auto intro!: bindE_cong)

lemma all_children_cong [fundef_cong]:
  "xs = ys \<Longrightarrow> (\<And>x. x \<in> set ys \<Longrightarrow> f x = g x) \<Longrightarrow> all_children f xs = all_children g ys"
  by (induction ys arbitrary: xs) (auto intro!: bindE_cong)

fun evalNode :: "Node \<Rightarrow> Sample \<Rightarrow> dsl_error + bool" where
  "evalNode (OrNode _ cs) s = any_child (\<lambda>c. evalNode c s) cs"
| "evalNode (AndNode _ cs) s = all_children (\<lambda>c. evalNode c s) cs"
| "evalNode (NotNode _ c) s = bindE (evalNode c s) (\<lambda>b. Inr (\<not> b))"
| "evalNode (BoolLitNode _ v) s = Inr v"
| "evalNode (CompareNode _ op l r t) s = evalCompare op l r t s"
| "evalNode (ThresholdNode _ _ q b) s =
     (case b of None \<Rightarrow> Inl (newError ErrBind q) | Some t \<Rightarrow> Inr (evalThreshold t s))"
| "evalNode _ s = Inl Unhandled"

definition Eval :: "Predicate \<Rightarrow> Sample \<Rightarrow> dsl_error + bool" where
  "Eval p s = evalNode (root p) s"

section \<open>Evaluation at a scope\<close>

type_synonym ScopeContext = "Sample list"

definition is_threshold :: "Node \<Rightarrow> bool" where
  "is_threshold n = (case n of ThresholdNode _ _ _ _ \<Rightarrow> True | _ \<Rightarrow> False)"

definition allChildrenAreThresholds :: "Node list \<Rightarrow> bool" where
  "allChildrenAreThresholds cs \<longleftrightarrow> list_all is_threshold cs \<and> 0 < length cs"

text \<open>Phase 1 of a conjunction: the first sample that satisfies every child.\<close>

fun evalAnd_phase1 :: "Node list \<Rightarrow> Sample list \<Rightarrow> dsl_error + uuid option" where
  "evalAnd_phase1 cs [] = Inr None"
| "evalAnd_phase1 cs (s # ss) =
     bindE (all_children (\<lambda>c. evalNode c s) cs) (\<lambda>b.
       if b then Inr (Some (SampleID s)) else evalAnd_phase1 cs ss)"

text \<open>Phase 2: every child matches somewhere in the scope; the witnesses are put together.\<close>

fun evalAnd_phase2 :: "(Node \<Rightarrow> dsl_error + bool \<times> uuid list) \<Rightarrow> uuid list \<Rightarrow> Node list \<Rightarrow> dsl_error + bool \<times> uuid list" where
  "evalAnd_phase2 f ws [] = Inr (True, ws)"
| "evalAnd_phase2 f ws (c # cs) =
     bindE (f c) (\<lambda>(ok, w). if \<not> ok then Inr (False, []) else evalAnd_phase2 f (ws @ w) cs)"

fun evalOr_children :: "(Node \<Rightarrow> dsl_error + bool \<times> uuid list) \<Rightarrow> bool \<Rightarrow> uuid list \<Rightarrow> Node list \<Rightarrow> dsl_error + bool \<times> uuid list" where
  "evalOr_children f matched ws [] = Inr (matched, ws)"
| "evalOr_children f matched ws (c # cs) =
     bindE (f c) (\<lambda>(ok, w).
       if ok then evalOr_children f True (ws @ w) cs else evalOr_children f matched ws cs)"

lemma evalAnd_phase2_cong [fundef_cong]:
  "ws = ws' \<Longrightarrow> xs = ys \<Longrightarrow> (\<And>x. x \<in> set ys \<Longrightarrow> f x = g x) \<Longrightarrow>
     evalAnd_phase2 f ws xs = evalAnd_phase2 g ws' ys"
  by (induction ys arbitrary: xs ws ws') (auto intro!: bindE_cong)

lemma evalOr_children_cong [fundef_cong]:
  "m = m' \<Longrightarrow> ws = ws' \<Longrightarrow> xs = ys \<Longrightarrow> (\<And>x. x \<in> set ys \<Longrightarrow> f x = g x) \<Longrightarrow>
     evalOr_children f m ws xs = evalOr_children g m' ws' ys"
  by (induction ys arbitrary: xs m m' ws ws') (auto intro!: bindE_cong)

fun matching_samples :: "(Sample \<Rightarrow> dsl_error + bool) \<Rightarrow> Sample list \<Rightarrow> dsl_error + uuid list" where
  "matching_samples f [] = Inr []"
| "matching_samples f (s # ss) =
     bindE (f s) (\<lambda>b. bindE (matching_samples f ss) (\<lambda>ws. Inr (if b then SampleID s # ws else ws)))"

fun evalNodeAtScope :: "Node \<Rightarrow> ScopeContext \<Rightarrow> dsl_error + bool \<times> uuid list" where
  "evalNodeAtScope (OrNode _ cs) ctx = evalOr_children (\<lambda>c. evalNodeAtScope c ctx) False [] cs"
| "evalNodeAtScope (AndNode _ cs) ctx =
     bindE (evalAnd_phase1 cs ctx) (\<lambda>hit.
       case hit of
         Some w \<Rightarrow> Inr (True, [w])
       | None \<Rightarrow>
           if \<not> allChildrenAreThresholds cs then Inr (False, [])
           else evalAnd_phase2 (\<lambda>c. evalNodeAtScope c ctx) [] cs)"
| "evalNodeAtScope (NotNode _ c) ctx = bindE (evalNodeAtScope c ctx) (\<lambda>(ok, _). Inr (\<not> ok, []))"
| "evalNodeAtScope (BoolLitNode _ v) ctx = Inr (v, [])"
| "evalNodeAtScope (CompareNode p op l r t) ctx =
     bindE (matching_samples (evalNode (CompareNode p op l r t)) ctx) (\<lambda>ws. Inr (0 < length ws, ws))"
| "evalNodeAtScope (ThresholdNode p i q b) ctx =
     (case b of
        None \<Rightarrow> Inl (newError ErrBind q)
      | Some t \<Rightarrow>
          (let ws = map SampleID (filter (evalThreshold t) ctx) in Inr (0 < length ws, ws)))"
| "evalNodeAtScope _ ctx = Inl Unhandled"

fun dedup :: "uuid list \<Rightarrow> uuid list \<Rightarrow> uuid list" where
  "dedup seen [] = []"
| "dedup seen (i # is) = (if i \<in> set seen then dedup seen is else i # dedup (i # seen) is)"

definition dedupSortUUIDs :: "uuid list \<Rightarrow> uuid list" where
  "dedupSortUUIDs ids = go_sort (\<lambda>a b. uuidCompare a b < 0) (dedup [] ids)"

definition EvalAtScope :: "Predicate \<Rightarrow> ScopeContext \<Rightarrow> dsl_error + bool \<times> uuid list" where
  "EvalAtScope p ctx =
     bindE (evalNodeAtScope (root p) ctx) (\<lambda>(m, ws). Inr (m, dedupSortUUIDs ws))"

section \<open>Meaning of predicates\<close>

text \<open>
  The specification the evaluators are compared with: an operand has a value or none, a
  comparison with an absent operand is false under every operator, and the connectives are
  the Boolean ones.
\<close>

datatype opvalue = VString string | VNumber float64 | VBool bool

fun operand_value :: "Node \<Rightarrow> Sample \<Rightarrow> opvalue option" where
  "operand_value (FieldNode _ f _) s =
     (if f = ''metric_kind'' then (if s_MetricKind s = [] then None else Some (VString (s_MetricKind s)))
      else if f = ''scope_kind'' then (if s_ScopeKind s = [] then None else Some (VString (s_ScopeKind s)))
      else if f = ''pack'' then (if s_Pack s = [] then None else Some (VString (s_Pack s)))
      else if f = ''source'' then (if s_Source s = [] then None else Some (VString (s_Source s)))
      else if f = ''value'' then (if HasValue s then Some (VNumber (s_Value s)) else None)
      else Some (VBool (s_Degraded s)))"
| "operand_value (StringLitNode _ v) s = Some (VString v)"
| "operand_value (NumberLitNode _ v) s = Some (VNumber v)"
| "operand_value (BoolLitNode _ v) s = Some (VBool v)"
| "operand_value _ s = None"

fun value_eq :: "opvalue \<Rightarrow> opvalue \<Rightarrow> bool" where
  "value_eq (VNumber a) (VNumber b) = flt_eq a b"
| "value_eq v w = (v = w)"

fun value_less :: "opvalue \<Rightarrow> opvalue \<Rightarrow> bool" where
  "value_less (VNumber a) (VNumber b) = flt_less a b"
| "value_less _ _ = False"

definition compare_values :: "tokenKind \<Rightarrow> opvalue \<Rightarrow> opvalue \<Rightarrow> bool" where
  "compare_values op v w =
     (case op of TokEQ \<Rightarrow> value_eq v w | TokNE \<Rightarrow> \<not> value_eq v w
      | TokLT \<Rightarrow> value_less v w | TokLE \<Rightarrow> value_less v w \<or> value_eq v w
      | TokGT \<Rightarrow> value_less w v | TokGE \<Rightarrow> value_less w v \<or> value_eq w v
      | _ \<Rightarrow> False)"

fun holds :: "Node \<Rightarrow> Sample \<Rightarrow> bool" where
  "holds (OrNode _ cs) s = (\<exists>c \<in> set cs. holds c s)"
| "holds (AndNode _ cs) s = (\<forall>c \<in> set cs. holds c s)"
| "holds (NotNode _ c) s = (\<not> holds c s)"
| "holds (BoolLitNode _ v) s = v"
| "holds (CompareNode _ op l r _) s =
     (case (operand_value l s, operand_value r s) of
        (Some v, Some w) \<Rightarrow> compare_values op v w | _ \<Rightarrow> False)"
| "holds (ThresholdNode _ _ _ b) s =
     (case b of None \<Rightarrow> False
      | Some t \<Rightarrow> s_MetricKind s = TMetricKind t \<and> s_ScopeKind s = TScopeKind t \<and> HasValue s
          \<and> op_Compare (Op t) (s_Value s) (TValue t))"
| "holds _ s = False"

text \<open>
  At a scope an atom holds when some sample satisfies it. A conjunction holds when one
  sample satisfies all members, or when all members are thresholds and each is crossed by
  some sample.
\<close>

fun scope_holds :: "Node \<Rightarrow> Sample list \<Rightarrow> bool" where
  "scope_holds (OrNode _ cs) ctx = (\<exists>c \<in> set cs. scope_holds c ctx)"
| "scope_holds (AndNode _ cs) ctx =
     ((\<exists>s \<in> set ctx. \<forall>c \<in> set cs. holds c s)
      \<or> (cs \<noteq> [] \<and> (\<forall>c \<in> set cs. is_threshold c \<and> (\<exists>s \<in> set ctx. holds c s))))"
| "scope_holds (NotNode _ c) ctx = (\<not> scope_holds c ctx)"
| "scope_holds (BoolLitNode _ v) ctx = v"
| "scope_holds n ctx = (\<exists>s \<in> set ctx. holds n s)"

text \<open>Which samples may stand as witnesses of a match.\<close>

fun supports :: "Node \<Rightarrow> Sample \<Rightarrow> bool" where
  "supports (OrNode _ cs) s = (\<exists>c \<in> set cs. supports c s)"
| "supports (AndNode _ cs) s = ((\<forall>c \<in> set cs. holds c s) \<or> (\<exists>c \<in> set cs. is_threshold c \<and> holds c s))"
| "supports (NotNode _ c) s = False"
| "supports (BoolLitNode _ v) s = False"
| "supports n s = holds n s"

section \<open>Binding keeps well-formedness\<close>

text \<open>The row of a bound atom is the valid row the resolver has under the identifier.\<close>

definition bound_by :: "(string \<Rightarrow> uuid option) \<Rightarrow> ThresholdResolver option \<Rightarrow> string \<Rightarrow> Threshold option \<Rightarrow> bool" where
  "bound_by from_string resolver i b \<longleftrightarrow>
     (\<exists>look tid t. resolver = Some look \<and> b = Some t \<and> from_string i = Some tid
        \<and> look tid = Inr t \<and> ThresholdID t = tid \<and> Threshold_Validate t = None)"

lemma list_all2_set_right: "list_all2 P xs ys \<Longrightarrow> y \<in> set ys \<Longrightarrow> \<exists>x \<in> set xs. P x y"
  by (metis in_set_conv_nth list_all2_conv_all_nth)

lemma bindNode_children:
  assumes "mapE f cs = Inr cs'" and "\<And>c c'. c \<in> set cs \<Longrightarrow> f c = Inr c' \<Longrightarrow> P c'"
  shows "length cs' = length cs" "c' \<in> set cs' \<Longrightarrow> P c'"
proof -
  have all: "list_all2 (\<lambda>c c'. f c = Inr c') cs cs'"
    using assms(1) by (simp add: mapE_Inr_iff)
  then show "length cs' = length cs"
    by (simp add: list_all2_lengthD)
  show "P c'" if "c' \<in> set cs'"
    using list_all2_set_right [OF all that] assms(2) by blast
qed

lemma bindNode_wf:
  assumes "wf_node unbound n" and "bindNode fs r n = Inr n'"
  shows "wf_node (bound_by fs r) n'"
  using assms
proof (induction fs r n arbitrary: n' rule: bindNode.induct)
  case (1 fs r p cs)
  then obtain cs' where cs': "mapE (bindNode fs r) cs = Inr cs'" and n': "n' = OrNode p cs'"
    by (auto simp: bindE_Inr)
  have "length cs' = length cs" and "c' \<in> set cs' \<Longrightarrow> wf_node (bound_by fs r) c'" for c'
    using bindNode_children [OF cs', of "wf_node (bound_by fs r)"] 1 by simp_all
  with 1 show ?case by (simp add: n')
next
  case (2 fs r p cs)
  then obtain cs' where cs': "mapE (bindNode fs r) cs = Inr cs'" and n': "n' = AndNode p cs'"
    by (auto simp: bindE_Inr)
  have "length cs' = length cs" and "c' \<in> set cs' \<Longrightarrow> wf_node (bound_by fs r) c'" for c'
    using bindNode_children [OF cs', of "wf_node (bound_by fs r)"] 2 by simp_all
  with 2 show ?case by (simp add: n')
qed (auto simp: bindE_Inr bound_by_def split: option.splits sum.splits if_splits)

lemma Compile_wf:
  assumes "Compile fs src r = Inr p"
  shows "source p = src \<and> wf_node (bound_by fs r) (root p)"
proof -
  obtain n n' where n: "Parse src = Inr n" "bindNode fs r n = Inr n'" "p = \<lparr>root = n', source = src\<rparr>"
    using assms by (auto simp: Compile_def Bind_def bindE_Inr)
  then show ?thesis
    using Parse_outcome [of src] bindNode_wf by auto
qed

definition bound :: "string \<Rightarrow> Threshold option \<Rightarrow> bool" where
  "bound i b \<longleftrightarrow> b \<noteq> None"

lemma wf_node_mono:
  "wf_node B n \<Longrightarrow> (\<And>i b. B i b \<Longrightarrow> B' i b) \<Longrightarrow> wf_node B' n"
  by (induction B n rule: wf_node.induct) auto

lemma Compile_bound: "Compile fs src r = Inr p \<Longrightarrow> wf_node bound (root p)"
  using Compile_wf [of fs src r p] wf_node_mono [of "bound_by fs r" "root p" bound]
  by (auto simp: bound_def bound_by_def)

section \<open>Evaluation computes the meaning\<close>

lemma any_child_Inr:
  "(\<And>c. c \<in> set cs \<Longrightarrow> f c = Inr (P c)) \<Longrightarrow> any_child f cs = Inr (\<exists>c \<in> set cs. P c)"
  by (induction cs) auto

lemma all_children_Inr:
  "(\<And>c. c \<in> set cs \<Longrightarrow> f c = Inr (P c)) \<Longrightarrow> all_children f cs = Inr (\<forall>c \<in> set cs. P c)"
  by (induction cs) auto

lemma string_operand_value:
  "wf_operand n \<Longrightarrow> operandType n = ''string'' \<Longrightarrow>
     operand_value n s = map_option VString (stringOperand n s)"
  by (cases n) (auto simp: fieldType_def split: if_splits)

lemma number_operand_value:
  "wf_operand n \<Longrightarrow> operandType n = ''number'' \<Longrightarrow>
     operand_value n s = map_option VNumber (numberOperand n s)"
  by (cases n) (auto simp: fieldType_def split: if_splits)

lemma bool_operand_value:
  "wf_operand n \<Longrightarrow> operandType n = ''bool'' \<Longrightarrow>
     operand_value n s = map_option VBool (boolOperand n s)"
  by (cases n) (auto simp: fieldType_def split: if_splits)

lemmas operand_values = string_operand_value number_operand_value bool_operand_value

lemma evalCompare_holds:
  assumes "wf_compare op l r t"
  shows "evalCompare op l r t s = Inr (holds (CompareNode p op l r t) s)"
proof -
  have wf: "wf_operand l" "wf_operand r" "operandType l = t" "operandType r = t"
    and op: "isComparisonOp op" "op = TokEQ \<or> op = TokNE \<or> t = ''number''"
    using assms by (auto simp: wf_compare_def)
  consider "t = ''string''" | "t = ''number''" | "t = ''bool''"
    using wf_operand_type [OF wf(1)] wf(3) by auto
  then show ?thesis
  proof cases
    case 1
    with op wf show ?thesis
      by (auto simp: evalCompare_def compare_values_def operand_values split: option.splits)
  next
    case 2
    with op wf show ?thesis
      by (auto simp: evalCompare_def compare_values_def operand_values isComparisonOp_def flt_le_def
          split: option.splits)
  next
    case 3
    with op wf show ?thesis
      by (auto simp: evalCompare_def compare_values_def operand_values split: option.splits)
  qed
qed

lemma evalThreshold_holds: "evalThreshold t s = holds (ThresholdNode p i q (Some t)) s"
  by (simp add: evalThreshold_def)

lemma evalNode_holds: "wf_node bound n \<Longrightarrow> evalNode n s = Inr (holds n s)"
proof (induction n s rule: evalNode.induct)
  case (1 p cs s)
  then show ?case by (simp add: any_child_Inr [where P = "\<lambda>c. holds c s"])
next
  case (2 p cs s)
  then show ?case by (simp add: all_children_Inr [where P = "\<lambda>c. holds c s"])
next
  case (5 p op l r t s)
  then show ?case using evalCompare_holds [of op l r t s p] by simp
next
  case (6 p i q b s)
  then show ?case by (auto simp: bound_def evalThreshold_def)
qed auto

section \<open>Scope evaluation computes the meaning and collects witnesses\<close>

lemma evalAnd_phase1_holds:
  assumes "\<And>c. c \<in> set cs \<Longrightarrow> wf_node bound c"
  shows "evalAnd_phase1 cs ss =
    Inr (map_option SampleID (find (\<lambda>s. \<forall>c \<in> set cs. holds c s) ss))"
proof (induction ss)
  case (Cons s ss)
  have "all_children (\<lambda>c. evalNode c s) cs = Inr (\<forall>c \<in> set cs. holds c s)"
    using assms by (intro all_children_Inr evalNode_holds)
  with Cons show ?case by simp
qed simp

lemma evalOr_children_Inr:
  "(\<And>c. c \<in> set cs \<Longrightarrow> f c = Inr (M c, V c)) \<Longrightarrow>
     evalOr_children f m ws cs = Inr (m \<or> (\<exists>c \<in> set cs. M c), ws @ concat (map V (filter M cs)))"
  by (induction cs arbitrary: m ws) auto

lemma evalAnd_phase2_Inr:
  "(\<And>c. c \<in> set cs \<Longrightarrow> f c = Inr (M c, V c)) \<Longrightarrow>
     evalAnd_phase2 f ws cs =
       Inr (if \<forall>c \<in> set cs. M c then (True, ws @ concat (map V cs)) else (False, []))"
  by (induction cs arbitrary: ws) auto

lemma matching_samples_Inr:
  "(\<And>s. s \<in> set ss \<Longrightarrow> f s = Inr (P s)) \<Longrightarrow>
     matching_samples f ss = Inr (map SampleID (filter P ss))"
  by (induction ss) auto

text \<open>The witnesses of a match, in the order the evaluator collects them.\<close>

fun scope_witnesses :: "Node \<Rightarrow> Sample list \<Rightarrow> uuid list" where
  "scope_witnesses (OrNode _ cs) ctx =
     concat (map (\<lambda>c. scope_witnesses c ctx) (filter (\<lambda>c. scope_holds c ctx) cs))"
| "scope_witnesses (AndNode p cs) ctx =
     (case find (\<lambda>s. \<forall>c \<in> set cs. holds c s) ctx of
        Some s \<Rightarrow> [SampleID s]
      | None \<Rightarrow> if scope_holds (AndNode p cs) ctx
                then concat (map (\<lambda>c. scope_witnesses c ctx) cs) else [])"
| "scope_witnesses (NotNode _ _) ctx = []"
| "scope_witnesses (BoolLitNode _ _) ctx = []"
| "scope_witnesses n ctx = map SampleID (filter (holds n) ctx)"

lemma threshold_scope_holds:
  "is_threshold c \<Longrightarrow> scope_holds c ctx = (\<exists>s \<in> set ctx. holds c s)"
  by (cases c) (auto simp: is_threshold_def)

lemma evalNodeAtScope_spec:
  "wf_node bound n \<Longrightarrow> evalNodeAtScope n ctx = Inr (scope_holds n ctx, scope_witnesses n ctx)"
proof (induction n ctx rule: evalNodeAtScope.induct)
  case (1 p cs ctx)
  then show ?case
    by (simp add: evalOr_children_Inr [where M = "\<lambda>c. scope_holds c ctx" and V = "\<lambda>c. scope_witnesses c ctx"])
next
  case (2 p cs ctx)
  let ?hit = "find (\<lambda>s. \<forall>c \<in> set cs. holds c s) ctx"
  have phase1: "evalAnd_phase1 cs ctx = Inr (map_option SampleID ?hit)"
    using 2 by (simp add: evalAnd_phase1_holds)
  show ?case
  proof (cases ?hit)
    case None
    then have none: "\<not> (\<exists>s \<in> set ctx. \<forall>c \<in> set cs. holds c s)"
      by (simp add: find_None_iff)
    show ?thesis
    proof (cases "allChildrenAreThresholds cs")
      case True
      then have th: "\<forall>c \<in> set cs. is_threshold c" and ne: "cs \<noteq> []"
        by (auto simp: allChildrenAreThresholds_def list_all_iff)
      have "evalAnd_phase2 (\<lambda>c. evalNodeAtScope c ctx) [] cs =
          Inr (if \<forall>c \<in> set cs. scope_holds c ctx
               then (True, [] @ concat (map (\<lambda>c. scope_witnesses c ctx) cs)) else (False, []))"
        using 2 phase1 None True by (intro evalAnd_phase2_Inr) simp
      moreover have "scope_holds (AndNode p cs) ctx \<longleftrightarrow> (\<forall>c \<in> set cs. scope_holds c ctx)"
        using th ne none by (auto simp: threshold_scope_holds)
      ultimately show ?thesis
        using phase1 None True by (simp del: scope_holds.simps)
    next
      case False
      then have "\<not> scope_holds (AndNode p cs) ctx"
        using none by (auto simp: allChildrenAreThresholds_def list_all_iff)
      then show ?thesis
        using phase1 None False by (simp del: scope_holds.simps)
    qed
  next
    case (Some s)
    then have "s \<in> set ctx \<and> (\<forall>c \<in> set cs. holds c s)"
      by (auto simp: find_Some_iff)
    then show ?thesis using phase1 Some by auto
  qed
next
  case (5 p op l r t ctx)
  then have "matching_samples (evalNode (CompareNode p op l r t)) ctx =
      Inr (map SampleID (filter (holds (CompareNode p op l r t)) ctx))"
    by (intro matching_samples_Inr evalNode_holds)
  then show ?case by (simp add: filter_empty_conv del: evalNode.simps holds.simps)
next
  case (6 p i q b ctx)
  then obtain t where b: "b = Some t" by (auto simp: bound_def)
  have "evalThreshold t = holds (ThresholdNode p i q b)"
    by (rule ext) (simp add: b evalThreshold_def)
  then show ?case by (simp add: b filter_empty_conv del: holds.simps)
qed auto

lemma scope_witnesses_support:
  "wf_node bound n \<Longrightarrow> w \<in> set (scope_witnesses n ctx) \<Longrightarrow>
     scope_holds n ctx \<and> (\<exists>s \<in> set ctx. SampleID s = w \<and> supports n s)"
proof (induction n ctx rule: scope_witnesses.induct)
  case (2 p cs ctx)
  let ?hit = "find (\<lambda>s. \<forall>c \<in> set cs. holds c s) ctx"
  show ?case
  proof (cases ?hit)
    case (Some s)
    then have "s \<in> set ctx \<and> (\<forall>c \<in> set cs. holds c s)"
      by (auto simp: find_Some_iff)
    with Some 2 show ?thesis by auto
  next
    case None
    with "2.prems" have sh: "scope_holds (AndNode p cs) ctx" and
      w: "\<exists>c \<in> set cs. w \<in> set (scope_witnesses c ctx)"
      by (auto split: if_splits)
    then obtain c where c: "c \<in> set cs" "w \<in> set (scope_witnesses c ctx)" by blast
    have "\<not> (\<exists>s \<in> set ctx. \<forall>c \<in> set cs. holds c s)"
      using None by (simp add: find_None_iff)
    with sh c have "is_threshold c" by auto
    then have "\<exists>s \<in> set ctx. SampleID s = w \<and> holds c s"
      using c(2) by (cases c) (auto simp: is_threshold_def)
    with c sh \<open>is_threshold c\<close> show ?thesis by auto
  qed
next
  case (1 p cs ctx)
  from "1.prems" obtain c where c: "c \<in> set cs" "scope_holds c ctx" "w \<in> set (scope_witnesses c ctx)"
    by auto
  with 1 have "\<exists>s \<in> set ctx. SampleID s = w \<and> supports c s" by simp
  with c show ?case by auto
qed auto

lemma dedup_set [simp]: "set (dedup seen xs) = set xs - set seen"
  by (induction seen xs rule: dedup.induct) auto

lemma dedup_distinct [simp]: "distinct (dedup seen xs)"
  by (induction seen xs rule: dedup.induct) auto

lemma dedupSortUUIDs_set [simp]: "set (dedupSortUUIDs ids) = set ids"
  by (simp add: dedupSortUUIDs_def)

lemma dedupSortUUIDs_strict [simp]: "sorted_wrt (<) (dedupSortUUIDs ids)"
  using go_sort_uuid [of "dedup [] ids"] by (simp add: dedupSortUUIDs_def strict_sorted_iff)

lemma EvalAtScope_spec:
  "Compile fs src r = Inr p \<Longrightarrow>
     EvalAtScope p ctx = Inr (scope_holds (root p) ctx, dedupSortUUIDs (scope_witnesses (root p) ctx))"
  by (simp add: EvalAtScope_def evalNodeAtScope_spec [OF Compile_bound])

lemma scope_holds_singleton: "wf_node bound n \<Longrightarrow> scope_holds n [s] = holds n s"
  by (induction n "[s]" rule: scope_holds.induct) auto

lemma bindNode_error:
  "wf_node unbound n \<Longrightarrow> bindNode fs r n = Inl e \<Longrightarrow> \<exists>q c. e = Error ErrBind q c \<and> pos_ok q"
proof (induction fs r n rule: bindNode.induct)
  case (1 fs r p cs)
  then have "\<exists>c \<in> set cs. bindNode fs r c = Inl e" by (auto simp: bindE_Inl dest: mapE_Inl)
  with 1 show ?case by auto
next
  case (2 fs r p cs)
  then have "\<exists>c \<in> set cs. bindNode fs r c = Inl e" by (auto simp: bindE_Inl dest: mapE_Inl)
  with 2 show ?case by auto
qed (auto simp: bindE_Inl newError_def newWrappedError_def split: option.splits sum.splits if_splits)

section \<open>Properties\<close>

text \<open>Rows, samples and the identifier syntax of the concrete instances below.\<close>

definition ex_from_string :: "string \<Rightarrow> uuid option" where
  "ex_from_string i = (if i = ''7'' then Some 7 else if i = ''8'' then Some 8 else None)"

definition ex_rows :: MapResolver where
  "ex_rows =
     [(7, \<lparr>ThresholdID = 7, TMetricKind = ''cyclo'', TScopeKind = ''file'', Op = OpGT, TValue = Fin 10\<rparr>),
      (8, \<lparr>ThresholdID = 8, TMetricKind = ''loc'', TScopeKind = ''file'', Op = OpGE, TValue = Fin 100\<rparr>)]"

definition ex_sample :: "uuid \<Rightarrow> string \<Rightarrow> rat \<Rightarrow> Sample" where
  "ex_sample i m v =
     \<lparr>SampleID = i, s_RepoID = 1, s_SHA = ''a1'', s_ScopeID = 2, s_ScopeKind = ''file'', s_MetricKind = m,
      s_MetricVersion = 1, s_Value = Fin v, HasValue = True, s_Pack = ''base'', s_Source = ''computed'',
      s_Degraded = False, s_DegradedReason = []\<rparr>"

definition ex_compiled :: "dsl_error + Predicate" where
  "ex_compiled = Compile ex_from_string ''threshold('7') AND threshold('8')'' (Some (MapResolver_Lookup ex_rows))"

definition ex_predicate :: Predicate where
  "ex_predicate = (case ex_compiled of Inr p \<Rightarrow> p | Inl _ \<Rightarrow> \<lparr>root = BoolLitNode (mkPos 1 1) False, source = []\<rparr>)"

lemma ex_compiles:
  "Compile ex_from_string ''threshold('7') AND threshold('8')'' (Some (MapResolver_Lookup ex_rows)) = Inr ex_predicate"
proof -
  have "\<not> isl ex_compiled" by code_simp
  then obtain p where p: "ex_compiled = Inr p" by (metis sum.collapse(2))
  then have "ex_predicate = p" unfolding ex_predicate_def p by simp
  with p show ?thesis by (simp only: ex_compiled_def)
qed

text \<open>
  C19. Compiling a predicate succeeds only with a tree that keeps the source text, is
  well-formed (chains of at least two members, well-typed comparisons, canonical literals)
  and in which every threshold atom carries the row the resolver has under the atom's
  identifier, with that identifier and accepted by \<^const>\<open>Threshold_Validate\<close>.
\<close>
theorem Compile_binds_valid_rows:
  assumes "Compile from_string src resolver = Inr p"
  shows "source p = src \<and> wf_node (bound_by from_string resolver) (root p)"
  using assms by (rule Compile_wf)

theorem Compile_binds_valid_rows_witness:
  "source ex_predicate = ''threshold('7') AND threshold('8')''
   \<and> wf_node (bound_by ex_from_string (Some (MapResolver_Lookup ex_rows))) (root ex_predicate)"
  by (rule Compile_binds_valid_rows [OF ex_compiles])

text \<open>
  A compile error is a structured error with a real position: one of the four parse
  kinds without cause, or a bind error; the fall-through errors and the fuel bound of the
  model are never reached.
\<close>
theorem Compile_error_structured:
  assumes "Compile from_string src resolver = Inl e"
  shows "\<exists>k q c. e = Error k q c \<and> pos_ok q \<and> (k = ErrBind \<or> c = None \<and> k \<in> {ErrLex, ErrParse, ErrSemantic, ErrType})"
proof -
  consider "Parse src = Inl e" | n where "Parse src = Inr n" "bindNode from_string resolver n = Inl e"
    using assms by (auto simp: Compile_def Bind_def bindE_Inl)
  then show ?thesis
  proof cases
    case 1
    then show ?thesis using Parse_outcome [of src] by (auto simp: parse_error_def)
  next
    case 2
    then show ?thesis using Parse_outcome [of src] bindNode_error by fastforce
  qed
qed

theorem Compile_error_structured_witness:
  "\<exists>k q c. newError ErrType (mkPos 1 7) = Error k q c \<and> pos_ok q
     \<and> (k = ErrBind \<or> c = None \<and> k \<in> {ErrLex, ErrParse, ErrSemantic, ErrType})"
proof (rule Compile_error_structured)
  show "Compile ex_from_string ''value == true'' None = Inl (newError ErrType (mkPos 1 7))"
    by code_simp
qed

text \<open>
  C17. A compiled predicate evaluates on every sample without error, to its Boolean meaning:
  comparisons with an absent field are false, chains and negation are the Boolean
  connectives, a threshold atom matches samples of its metric and scope kind whose value
  crosses its bound.
\<close>
theorem Eval_is_meaning:
  assumes "Compile from_string src resolver = Inr p"
  shows "Eval p s = Inr (holds (root p) s)"
  using assms by (simp add: Eval_def evalNode_holds Compile_bound)

theorem Eval_is_meaning_witness:
  "Eval ex_predicate (ex_sample 5 ''cyclo'' 12) = Inr (holds (root ex_predicate) (ex_sample 5 ''cyclo'' 12))"
  by (rule Eval_is_meaning [OF ex_compiles])

text \<open>
  C18. A compiled predicate evaluates at every scope without error, to its meaning at the
  scope. The witnesses are strictly increasing by identifier (not in the order of the
  samples, which the comment of \<^verbatim>\<open>ScopeContext\<close> announces), none are given when the predicate
  does not match, and each is the identifier of a sample of the scope that supports the match.
\<close>
theorem EvalAtScope_is_meaning:
  assumes "Compile from_string src resolver = Inr p"
  shows "\<exists>ws. EvalAtScope p ss = Inr (scope_holds (root p) ss, ws)
    \<and> sorted_wrt (<) ws \<and> (\<not> scope_holds (root p) ss \<longrightarrow> ws = [])
    \<and> (\<forall>w \<in> set ws. \<exists>s \<in> set ss. SampleID s = w \<and> supports (root p) s)"
proof -
  let ?w = "scope_witnesses (root p) ss"
  have support: "scope_holds (root p) ss \<and> (\<exists>s \<in> set ss. SampleID s = w \<and> supports (root p) s)"
    if "w \<in> set ?w" for w
    using scope_witnesses_support [OF Compile_bound [OF assms] that] .
  then have "dedupSortUUIDs ?w = []" if "\<not> scope_holds (root p) ss"
    using that by (metis dedupSortUUIDs_set list.set_intros(1) neq_Nil_conv)
  with support show ?thesis
    using EvalAtScope_spec [OF assms, of ss] by auto
qed

theorem EvalAtScope_is_meaning_witness:
  "\<exists>ws. EvalAtScope ex_predicate [ex_sample 9 ''loc'' 100, ex_sample 5 ''cyclo'' 12]
      = Inr (scope_holds (root ex_predicate) [ex_sample 9 ''loc'' 100, ex_sample 5 ''cyclo'' 12], ws)
    \<and> sorted_wrt (<) ws"
  using EvalAtScope_is_meaning [OF ex_compiles] by blast

text \<open>
  At a scope with one sample the two evaluators agree: the scope evaluator matches
  exactly when the sample evaluator does.
\<close>
theorem EvalAtScope_single_sample:
  assumes "Compile from_string src resolver = Inr p"
  shows "map_sum (\<lambda>e. e) fst (EvalAtScope p [s]) = Eval p s"
  using assms
  by (simp add: EvalAtScope_spec scope_holds_singleton Eval_def evalNode_holds Compile_bound)

theorem EvalAtScope_single_sample_witness:
  "map_sum (\<lambda>e. e) fst (EvalAtScope ex_predicate [ex_sample 5 ''cyclo'' 12])
     = Eval ex_predicate (ex_sample 5 ''cyclo'' 12)"
  by (rule EvalAtScope_single_sample [OF ex_compiles])

end
