(* ===== verification/Dsl_Cache.thy ===== *)
theory Dsl_Cache
  imports Dsl_Eval
begin

text \<open>
  The cache of compiled predicates (\<^verbatim>\<open>policy/dsl/cache.go\<close>) under concurrent callers. A
  state holds the two-level map from policy version and source text to the address of an
  entry, the entries, and the program counter of each goroutine inside \<open>GetOrCompile\<close>. A
  step is one critical section of the mutex, the end of a compilation outside it (by
  returning or by a panic of the resolver), or a receive on an entry's closed channel.
\<close>

section \<open>State\<close>

datatype call = Call (c_pv: uuid) (c_src: string) (c_res: "ThresholdResolver option")

datatype cache_err = CompileErr dsl_error | CompilePanicked

type_synonym cresult = "cache_err + Predicate"

text \<open>
  An entry: its \<^verbatim>\<open>ready\<close> channel is open while the result is \<^const>\<open>None\<close>. The call that
  installed it is recorded for the statements below and is never read by a step.
\<close>

record cacheEntry =
  e_call :: call
  e_result :: "cresult option"

type_synonym cache_entries = "(uuid, (string, nat) gomap) gomap"

text \<open>
  \<open>Reading\<close> is before the read-locked lookup, \<open>Missed\<close> between the two locks, \<open>Compiling\<close>
  owns an entry, \<open>Waiting\<close> receives on one; \<open>Returned\<close> keeps the entry the result came from.
\<close>

datatype pc =
    Idle | Reading call | Missed call | Compiling call nat | Waiting call nat
  | Returned call nat cresult | Raised call nat

record cache =
  entries :: cache_entries
  heap :: "cacheEntry list"
  pcs :: "nat \<Rightarrow> pc"

definition NewCache :: cache where
  "NewCache = \<lparr>entries = [], heap = [], pcs = (\<lambda>_. Idle)\<rparr>"

section \<open>Operations\<close>

definition entry_of :: "cache_entries \<Rightarrow> uuid \<Rightarrow> string \<Rightarrow> nat option" where
  "entry_of es pv src = (case map_of es pv of None \<Rightarrow> None | Some perPolicy \<Rightarrow> map_of perPolicy src)"

definition set_pc :: "nat \<Rightarrow> pc \<Rightarrow> cache \<Rightarrow> cache" where
  "set_pc t p c = c\<lparr>pcs := (pcs c)(t := p)\<rparr>"

text \<open>The read-locked section: hit and wait, or go on to the write lock.\<close>

definition read_section :: "nat \<Rightarrow> call \<Rightarrow> cache \<Rightarrow> cache" where
  "read_section t k c =
     (case entry_of (entries c) (c_pv k) (c_src k) of
        Some a \<Rightarrow> set_pc t (Waiting k a) c
      | None \<Rightarrow> set_pc t (Missed k) c)"

text \<open>The write-locked section: create the inner map, double-check, or install an entry.\<close>

definition write_section :: "nat \<Rightarrow> call \<Rightarrow> cache \<Rightarrow> cache" where
  "write_section t k c =
     (let perPolicy = (case map_of (entries c) (c_pv k) of None \<Rightarrow> [] | Some m \<Rightarrow> m);
          c1 = (case map_of (entries c) (c_pv k) of
                  None \<Rightarrow> c\<lparr>entries := gomap_put (c_pv k) [] (entries c)\<rparr>
                | Some _ \<Rightarrow> c)
      in case map_of perPolicy (c_src k) of
           Some a \<Rightarrow> set_pc t (Waiting k a) c1
         | None \<Rightarrow>
             (let a = length (heap c1) in
              set_pc t (Compiling k a)
                (c1\<lparr>heap := heap c1 @ [\<lparr>e_call = k, e_result = None\<rparr>],
                    entries := gomap_put (c_pv k) (gomap_put (c_src k) a perPolicy) (entries c1)\<rparr>)))"

definition compile_result :: "(string \<Rightarrow> uuid option) \<Rightarrow> call \<Rightarrow> cresult" where
  "compile_result from_string k = map_sum CompileErr (\<lambda>p. p) (Compile from_string (c_src k) (c_res k))"

definition finish :: "nat \<Rightarrow> cresult \<Rightarrow> cache \<Rightarrow> cache" where
  "finish a r c = c\<lparr>heap := (heap c)[a := (heap c ! a)\<lparr>e_result := Some r\<rparr>]\<rparr>"

definition compile_returns :: "(string \<Rightarrow> uuid option) \<Rightarrow> nat \<Rightarrow> call \<Rightarrow> nat \<Rightarrow> cache \<Rightarrow> cache" where
  "compile_returns from_string t k a c =
     (let r = compile_result from_string k in set_pc t (Returned k a r) (finish a r c))"

definition compile_panics :: "nat \<Rightarrow> call \<Rightarrow> nat \<Rightarrow> cache \<Rightarrow> cache" where
  "compile_panics t k a c = set_pc t (Raised k a) (finish a (Inl CompilePanicked) c)"

text \<open>A receive on the channel of an entry: \<^const>\<open>None\<close> while the channel is open.\<close>

definition waitEntry :: "nat \<Rightarrow> cache \<Rightarrow> cresult option" where
  "waitEntry a c = e_result (heap c ! a)"

definition Invalidate :: "uuid \<Rightarrow> cache \<Rightarrow> cache" where
  "Invalidate pv c = c\<lparr>entries := gomap_delete pv (entries c)\<rparr>"

definition Len :: "cache \<Rightarrow> nat" where
  "Len c = (\<Sum>(pv, m) \<leftarrow> entries c. length m)"

definition LenForPolicy :: "uuid \<Rightarrow> cache \<Rightarrow> nat" where
  "LenForPolicy pv c = (case map_of (entries c) pv of None \<Rightarrow> 0 | Some m \<Rightarrow> length m)"

section \<open>Runs\<close>

datatype cevent =
    EvStart nat call | EvRead nat | EvWrite nat call bool | EvCompile nat call nat | EvPanic nat call nat
  | EvWait nat | EvInvalidate uuid

definition at_rest :: "pc \<Rightarrow> bool" where
  "at_rest p = (case p of Idle \<Rightarrow> True | Returned _ _ _ \<Rightarrow> True | Raised _ _ \<Rightarrow> True | _ \<Rightarrow> False)"

inductive cstep :: "(string \<Rightarrow> uuid option) \<Rightarrow> cache \<Rightarrow> cevent \<Rightarrow> cache \<Rightarrow> bool" for fs where
  c_start: "at_rest (pcs c t) \<Longrightarrow> cstep fs c (EvStart t k) (set_pc t (Reading k) c)"
| c_read: "pcs c t = Reading k \<Longrightarrow> cstep fs c (EvRead t) (read_section t k c)"
| c_write: "pcs c t = Missed k \<Longrightarrow>
    cstep fs c (EvWrite t k (entry_of (entries c) (c_pv k) (c_src k) = None)) (write_section t k c)"
| c_compile: "pcs c t = Compiling k a \<Longrightarrow> cstep fs c (EvCompile t k a) (compile_returns fs t k a c)"
| c_panic: "pcs c t = Compiling k a \<Longrightarrow> cstep fs c (EvPanic t k a) (compile_panics t k a c)"
| c_wait: "pcs c t = Waiting k a \<Longrightarrow> waitEntry a c = Some r \<Longrightarrow>
    cstep fs c (EvWait t) (set_pc t (Returned k a r) c)"
| c_invalidate: "cstep fs c (EvInvalidate pv) (Invalidate pv c)"

text \<open>Runs carry their events, the latest first.\<close>

inductive crun :: "(string \<Rightarrow> uuid option) \<Rightarrow> cevent list \<Rightarrow> cache \<Rightarrow> bool" for fs where
  c_init: "crun fs [] NewCache"
| c_step: "crun fs tr c \<Longrightarrow> cstep fs c e c' \<Longrightarrow> crun fs (e # tr) c'"

definition compiles :: "uuid \<Rightarrow> string \<Rightarrow> cevent list \<Rightarrow> nat" where
  "compiles pv src tr = length (filter (\<lambda>e. case e of
      EvCompile _ k _ \<Rightarrow> c_pv k = pv \<and> c_src k = src
    | EvPanic _ k _ \<Rightarrow> c_pv k = pv \<and> c_src k = src | _ \<Rightarrow> False) tr)"

text \<open>The compilations of the entry at one address.\<close>

definition compilations :: "nat \<Rightarrow> cevent list \<Rightarrow> nat" where
  "compilations a tr = length (filter (\<lambda>e. case e of
      EvCompile _ _ b \<Rightarrow> b = a | EvPanic _ _ b \<Rightarrow> b = a | _ \<Rightarrow> False) tr)"

definition installs :: "uuid \<Rightarrow> string \<Rightarrow> cevent list \<Rightarrow> nat" where
  "installs pv src tr = length (filter (\<lambda>e. case e of
      EvWrite _ k fresh \<Rightarrow> fresh \<and> c_pv k = pv \<and> c_src k = src | _ \<Rightarrow> False) tr)"

definition invalidations :: "uuid \<Rightarrow> cevent list \<Rightarrow> nat" where
  "invalidations pv tr = length (filter (\<lambda>e. e = EvInvalidate pv) tr)"

section \<open>Invariant\<close>

abbreviation same_key :: "call \<Rightarrow> call \<Rightarrow> bool" where
  "same_key k k' \<equiv> c_pv k = c_pv k' \<and> c_src k = c_src k'"

definition entry_ok :: "(string \<Rightarrow> uuid option) \<Rightarrow> cacheEntry \<Rightarrow> bool" where
  "entry_ok fs e \<longleftrightarrow>
     (case e_result e of None \<Rightarrow> True
      | Some r \<Rightarrow> r = compile_result fs (e_call e) \<or> r = Inl CompilePanicked)"

definition pc_ok :: "cacheEntry list \<Rightarrow> pc \<Rightarrow> bool" where
  "pc_ok h p =
     (case p of
        Compiling k a \<Rightarrow> a < length h \<and> e_call (h ! a) = k \<and> e_result (h ! a) = None
      | Waiting k a \<Rightarrow> a < length h \<and> same_key (e_call (h ! a)) k
      | Returned k a r \<Rightarrow> a < length h \<and> same_key (e_call (h ! a)) k \<and> e_result (h ! a) = Some r
      | Raised k a \<Rightarrow> a < length h \<and> e_result (h ! a) = Some (Inl CompilePanicked)
      | _ \<Rightarrow> True)"

definition cache_inv :: "(string \<Rightarrow> uuid option) \<Rightarrow> cache \<Rightarrow> bool" where
  "cache_inv fs c \<longleftrightarrow>
     (\<forall>pv src a. entry_of (entries c) pv src = Some a \<longrightarrow>
        a < length (heap c) \<and> c_pv (e_call (heap c ! a)) = pv \<and> c_src (e_call (heap c ! a)) = src)
     \<and> (\<forall>a < length (heap c). entry_ok fs (heap c ! a))
     \<and> (\<forall>t. pc_ok (heap c) (pcs c t))
     \<and> (\<forall>a < length (heap c). e_result (heap c ! a) = None \<longrightarrow>
          (\<exists>t. pcs c t = Compiling (e_call (heap c ! a)) a))
     \<and> (\<forall>t t' k k' a. pcs c t = Compiling k a \<longrightarrow> pcs c t' = Compiling k' a \<longrightarrow> t = t')"

lemma cache_inv_entry:
  "cache_inv fs c \<Longrightarrow> entry_of (entries c) pv src = Some a \<Longrightarrow>
     a < length (heap c) \<and> c_pv (e_call (heap c ! a)) = pv \<and> c_src (e_call (heap c ! a)) = src"
  and cache_inv_ok: "cache_inv fs c \<Longrightarrow> a < length (heap c) \<Longrightarrow> entry_ok fs (heap c ! a)"
  and cache_inv_pc: "cache_inv fs c \<Longrightarrow> pc_ok (heap c) (pcs c t)"
  and cache_inv_owner: "cache_inv fs c \<Longrightarrow> a < length (heap c) \<Longrightarrow> e_result (heap c ! a) = None \<Longrightarrow>
     \<exists>t. pcs c t = Compiling (e_call (heap c ! a)) a"
  and cache_inv_unique: "cache_inv fs c \<Longrightarrow> pcs c t = Compiling k a \<Longrightarrow> pcs c t' = Compiling k' a \<Longrightarrow> t = t'"
  by (auto simp: cache_inv_def)

lemma cache_invI:
  assumes "\<And>pv src a. entry_of (entries c) pv src = Some a \<Longrightarrow>
      a < length (heap c) \<and> c_pv (e_call (heap c ! a)) = pv \<and> c_src (e_call (heap c ! a)) = src"
    and "\<And>a. a < length (heap c) \<Longrightarrow> entry_ok fs (heap c ! a)"
    and "\<And>t. pc_ok (heap c) (pcs c t)"
    and "\<And>a. a < length (heap c) \<Longrightarrow> e_result (heap c ! a) = None \<Longrightarrow>
      \<exists>t. pcs c t = Compiling (e_call (heap c ! a)) a"
    and "\<And>t t' k k' a. pcs c t = Compiling k a \<Longrightarrow> pcs c t' = Compiling k' a \<Longrightarrow> t = t'"
  shows "cache_inv fs c"
  unfolding cache_inv_def using assms by blast

lemma set_pc_simps [simp]:
  "entries (set_pc t p c) = entries c" "heap (set_pc t p c) = heap c"
  "pcs (set_pc t p c) = (pcs c)(t := p)"
  by (simp_all add: set_pc_def)

lemma inv_set_pc:
  assumes "cache_inv fs c" and "pc_ok (heap c) p"
    and "\<And>k a. p \<noteq> Compiling k a" and "\<And>k a. pcs c t \<noteq> Compiling k a"
  shows "cache_inv fs (set_pc t p c)"
proof (rule cache_invI, goal_cases)
  case (1 pv src a)
  then show ?case using cache_inv_entry [OF assms(1)] by simp
next
  case (2 a)
  then show ?case using cache_inv_ok [OF assms(1)] by simp
next
  case (3 t)
  then show ?case using cache_inv_pc [OF assms(1)] assms(2) by simp
next
  case (4 a)
  then obtain t' where "pcs c t' = Compiling (e_call (heap c ! a)) a"
    using cache_inv_owner [OF assms(1)] by auto
  moreover from this have "t' \<noteq> t" using assms(4) by auto
  ultimately show ?case by auto
next
  case (5 t1 t2 k k' a)
  then show ?case using assms(3) cache_inv_unique [OF assms(1)] by (auto split: if_splits)
qed

lemma pc_ok_append [simp]: "pc_ok h p \<Longrightarrow> pc_ok (h @ [e]) p"
  by (auto simp: pc_ok_def nth_append split: pc.splits)

lemma entry_of_put:
  "entry_of (gomap_put pv (gomap_put src a (case map_of es pv of None \<Rightarrow> [] | Some m \<Rightarrow> m)) es) pv' src' =
     (if pv' = pv \<and> src' = src then Some a else entry_of es pv' src')"
  by (auto simp: entry_of_def split: option.splits)

lemma entry_of_put_empty:
  "map_of es pv = None \<Longrightarrow> entry_of (gomap_put pv [] es) pv' src' = entry_of es pv' src'"
  by (auto simp: entry_of_def)

lemma entry_of_delete:
  "entry_of (gomap_delete pv es) pv' src' = (if pv' = pv then None else entry_of es pv' src')"
  by (auto simp: entry_of_def)

lemma gomap_put_put [simp]: "gomap_put k v (gomap_put k w m) = gomap_put k v m"
  by (simp add: gomap_put_def)

lemma write_section_join:
  "entry_of (entries c) (c_pv k) (c_src k) = Some a \<Longrightarrow> write_section t k c = set_pc t (Waiting k a) c"
  by (auto simp: write_section_def entry_of_def Let_def split: option.splits)

definition install :: "nat \<Rightarrow> call \<Rightarrow> cache \<Rightarrow> cache" where
  "install t k c =
     set_pc t (Compiling k (length (heap c)))
       (c\<lparr>heap := heap c @ [\<lparr>e_call = k, e_result = None\<rparr>],
          entries := gomap_put (c_pv k) (gomap_put (c_src k) (length (heap c))
            (case map_of (entries c) (c_pv k) of None \<Rightarrow> [] | Some m \<Rightarrow> m)) (entries c)\<rparr>)"

lemma write_section_install:
  "entry_of (entries c) (c_pv k) (c_src k) = None \<Longrightarrow> write_section t k c = install t k c"
  by (auto simp: write_section_def install_def entry_of_def Let_def split: option.splits)

lemma inv_install:
  assumes inv: "cache_inv fs c" and pc: "\<And>k a. pcs c t \<noteq> Compiling k a"
  shows "cache_inv fs (install t k c)"
proof -
  let ?h = "heap c @ [\<lparr>e_call = k, e_result = None\<rparr>]" and ?p = "(pcs c)(t := Compiling k (length (heap c)))"
  have pcs: "a < length (heap c)" if "pcs c t' = Compiling k' a" for t' k' a
    using cache_inv_pc [OF inv, of t'] that by (simp add: pc_ok_def)
  have 1: "\<exists>t'. ?p t' = Compiling (e_call (?h ! a)) a"
    if "a < Suc (length (heap c))" "e_result (?h ! a) = None" for a
  proof (cases "a < length (heap c)")
    case True
    with that obtain t' where t': "pcs c t' = Compiling (e_call (?h ! a)) a"
      using cache_inv_owner [OF inv True] by (auto simp: nth_append)
    with pc have "t' \<noteq> t" by auto
    with t' show ?thesis by auto
  next
    case False
    with that have "a = length (heap c)" by simp
    then show ?thesis by (intro exI [of _ t]) simp
  qed
  have 2: "t1 = t2" if "?p t1 = Compiling k1 a" "?p t2 = Compiling k2 a" for t1 t2 k1 k2 a
    using that cache_inv_unique [OF inv] pcs by (fastforce split: if_splits)
  have 3: "pc_ok ?h (?p t')" for t'
    using cache_inv_pc [OF inv, of t'] by (auto simp: pc_ok_def [of _ "Compiling k _"])
  have 4: "entry_ok fs (?h ! a)" if "a < Suc (length (heap c))" for a
    using that cache_inv_ok [OF inv, of a] by (auto simp: nth_append entry_ok_def [of _ "\<lparr>e_call = _, e_result = _\<rparr>"])
  have 5: "a < Suc (length (heap c)) \<and> c_pv (e_call (?h ! a)) = pv \<and> c_src (e_call (?h ! a)) = src"
    if "(if pv = c_pv k \<and> src = c_src k then Some (length (heap c)) else entry_of (entries c) pv src) = Some a"
    for pv src a
    using that cache_inv_entry [OF inv, of pv src a] by (auto simp: nth_append split: if_splits)
  show ?thesis
  proof (rule cache_invI)
    fix pv src a assume "entry_of (entries (install t k c)) pv src = Some a"
    then show "a < length (heap (install t k c)) \<and> c_pv (e_call (heap (install t k c) ! a)) = pv
        \<and> c_src (e_call (heap (install t k c) ! a)) = src"
      using 5 by (simp add: install_def entry_of_put)
  next
    show "entry_ok fs (heap (install t k c) ! a)" if "a < length (heap (install t k c))" for a
      using that 4 [of a] by (simp add: install_def)
    show "pc_ok (heap (install t k c)) (pcs (install t k c) t')" for t'
      using 3 [of t'] by (simp add: install_def)
    show "\<exists>t'. pcs (install t k c) t' = Compiling (e_call (heap (install t k c) ! a)) a"
      if "a < length (heap (install t k c))" "e_result (heap (install t k c) ! a) = None" for a
      using that 1 [of a] by (simp add: install_def del: fun_upd_apply)
    show "t1 = t2" if "pcs (install t k c) t1 = Compiling k1 a" "pcs (install t k c) t2 = Compiling k2 a"
      for t1 t2 k1 k2 a
      using that 2 [of t1 k1 a t2 k2] by (simp add: install_def del: fun_upd_apply)
  qed
qed

lemma inv_finish:
  assumes inv: "cache_inv fs c" and t: "pcs c t = Compiling k a"
    and r: "r = compile_result fs k \<or> r = Inl CompilePanicked"
    and p: "p = Returned k a r \<or> (p = Raised k a \<and> r = Inl CompilePanicked)"
  shows "cache_inv fs (set_pc t p (finish a r c))"
proof -
  let ?h = "(heap c)[a := (heap c ! a)\<lparr>e_result := Some r\<rparr>]" and ?p = "(pcs c)(t := p)"
  have a: "a < length (heap c)" "e_call (heap c ! a) = k"
    using cache_inv_pc [OF inv, of t] t by (simp_all add: pc_ok_def)
  have call: "e_call (?h ! b) = e_call (heap c ! b)" for b
    by (cases "b = a") (use a in \<open>auto simp: nth_list_update\<close>)
  have res: "e_result (?h ! b) = (if b = a then Some r else e_result (heap c ! b))" for b
    by (cases "b = a") (use a in \<open>auto simp: nth_list_update\<close>)
  have open_a: "e_result (heap c ! a) = None"
    using cache_inv_pc [OF inv, of t] t by (simp add: pc_ok_def)
  have other: "pcs c t' \<noteq> Compiling k' a" if "t' \<noteq> t" for t' k'
    using cache_inv_unique [OF inv t] that by blast
  have 1: "\<exists>t'. ?p t' = Compiling (e_call (?h ! b)) b" if b: "b < length (heap c)" "e_result (?h ! b) = None" for b
  proof -
    from b have ba: "b \<noteq> a" "e_result (heap c ! b) = None" by (simp_all add: res split: if_splits)
    then obtain t' where t': "pcs c t' = Compiling (e_call (heap c ! b)) b"
      using cache_inv_owner [OF inv b(1)] by blast
    with t ba have "t' \<noteq> t" by auto
    with t' show ?thesis by (auto simp: call)
  qed
  have 2: "t1 = t2" if "?p t1 = Compiling k1 b" "?p t2 = Compiling k2 b" for t1 t2 k1 k2 b
    using that cache_inv_unique [OF inv] p by (auto split: if_splits)
  have 3: "pc_ok ?h (?p t')" for t'
    using cache_inv_pc [OF inv, of t'] other [of t'] p a open_a
    by (auto simp: pc_ok_def call res split: pc.splits)
  have 4: "entry_ok fs (?h ! b)" if "b < length (heap c)" for b
    by (cases "b = a") (use cache_inv_ok [OF inv that] r a in \<open>auto simp: entry_ok_def\<close>)
  have h: "heap (set_pc t p (finish a r c)) = ?h" "pcs (set_pc t p (finish a r c)) = ?p"
    "entries (set_pc t p (finish a r c)) = entries c" "length ?h = length (heap c)"
    by (simp_all add: finish_def)
  show ?thesis
    by (rule cache_invI; unfold h call)
      (fact cache_inv_entry [OF inv] 4 3 1 [unfolded call] 2)+
qed

lemma cstep_inv:
  assumes "cstep fs c e c'" and inv: "cache_inv fs c"
  shows "cache_inv fs c'"
  using assms
proof cases
  case (c_start t k)
  then have "pcs c t \<noteq> Compiling k' a" for k' a by (auto simp: at_rest_def)
  with c_start show ?thesis
    by (auto simp: pc_ok_def intro!: inv_set_pc [OF inv])
next
  case (c_read t k)
  then show ?thesis
    using cache_inv_entry [OF inv]
    by (auto simp: read_section_def pc_ok_def split: option.splits intro!: inv_set_pc [OF inv])
next
  case (c_write t k)
  show ?thesis
  proof (cases "entry_of (entries c) (c_pv k) (c_src k)")
    case None
    with c_write inv show ?thesis by (simp add: write_section_install inv_install)
  next
    case (Some a)
    with c_write cache_inv_entry [OF inv Some] show ?thesis
      by (auto simp: write_section_join pc_ok_def intro!: inv_set_pc [OF inv])
  qed
next
  case (c_compile t k a)
  then show ?thesis
    unfolding compile_returns_def Let_def using inv by (auto intro!: inv_finish)
next
  case (c_panic t k a)
  then show ?thesis
    unfolding compile_panics_def using inv by (auto intro!: inv_finish)
next
  case (c_wait t k a r)
  then show ?thesis
    using cache_inv_pc [OF inv, of t]
    by (auto simp: waitEntry_def pc_ok_def intro!: inv_set_pc [OF inv])
next
  case (c_invalidate pv)
  with inv show ?thesis
    by (auto simp: Invalidate_def cache_inv_def entry_of_delete)
qed

lemma crun_inv: "crun fs tr c \<Longrightarrow> cache_inv fs c"
proof (induction rule: crun.induct)
  case c_init
  show ?case by (simp add: NewCache_def cache_inv_def entry_of_def pc_ok_def)
qed (rule cstep_inv)

section \<open>Counting compilations\<close>

definition key_of :: "uuid \<Rightarrow> string \<Rightarrow> cacheEntry \<Rightarrow> bool" where
  "key_of pv src e \<longleftrightarrow> c_pv (e_call e) = pv \<and> c_src (e_call e) = src"

lemma count_update:
  "a < length xs \<Longrightarrow>
     length (filter P (xs[a := y])) + (if P (xs ! a) then 1 else 0) = length (filter P xs) + (if P y then 1 else 0)"
proof (induction xs arbitrary: a)
  case (Cons x xs)
  then show ?case by (cases a) auto
qed simp

lemma count_filter_le: "length (filter (\<lambda>x. P x \<and> Q x) xs) \<le> length (filter P xs)"
  by (induction xs) auto

lemma heap_frame:
  "heap (read_section t k c) = heap c"
  "heap (Invalidate pv c) = heap c"
  "heap (finish a r c) = (heap c)[a := (heap c ! a)\<lparr>e_result := Some r\<rparr>]"
  "heap (install t k c) = heap c @ [\<lparr>e_call = k, e_result = None\<rparr>]"
  by (simp_all add: read_section_def Invalidate_def finish_def install_def split: option.splits)

lemma entries_frame:
  "entries (read_section t k c) = entries c"
  "entries (finish a r c) = entries c"
  by (simp_all add: read_section_def finish_def split: option.splits)

lemma finish_counts:
  assumes inv: "cache_inv fs c" and t: "pcs c t = Compiling k a"
  shows "length (filter (\<lambda>e. key_of pv src e \<and> e_result e \<noteq> None) (heap (finish a r c)))
      = length (filter (\<lambda>e. key_of pv src e \<and> e_result e \<noteq> None) (heap c))
        + (if c_pv k = pv \<and> c_src k = src then 1 else 0)"
    and "length (filter (key_of pv src) (heap (finish a r c))) = length (filter (key_of pv src) (heap c))"
proof -
  have a: "a < length (heap c)" "e_call (heap c ! a) = k" "e_result (heap c ! a) = None"
    using cache_inv_pc [OF inv, of t] t by (simp_all add: pc_ok_def)
  let ?e = "(heap c ! a)\<lparr>e_result := Some r\<rparr>"
  show "length (filter (\<lambda>e. key_of pv src e \<and> e_result e \<noteq> None) (heap (finish a r c)))
      = length (filter (\<lambda>e. key_of pv src e \<and> e_result e \<noteq> None) (heap c))
        + (if c_pv k = pv \<and> c_src k = src then 1 else 0)"
    using count_update [OF a(1), of "\<lambda>e. key_of pv src e \<and> e_result e \<noteq> None" ?e] a
    by (simp add: heap_frame key_of_def)
  show "length (filter (key_of pv src) (heap (finish a r c))) = length (filter (key_of pv src) (heap c))"
    using count_update [OF a(1), of "key_of pv src" ?e] a
    by (simp add: heap_frame key_of_def split: if_splits)
qed

text \<open>Entries are installs, finished entries are compilations.\<close>

lemma crun_counts:
  assumes "crun fs tr c"
  shows "installs pv src tr = length (filter (key_of pv src) (heap c))
    \<and> compiles pv src tr = length (filter (\<lambda>e. key_of pv src e \<and> e_result e \<noteq> None) (heap c))"
  using assms
proof (induction rule: crun.induct)
  case c_init
  show ?case by (simp add: installs_def compiles_def NewCache_def)
next
  case (c_step tr c e c')
  note IH = c_step.IH [unfolded installs_def compiles_def]
  note inv = crun_inv [OF c_step.hyps(1)]
  from c_step.hyps(2) show ?case
  proof cases
    case (c_write t k)
    then show ?thesis
      using IH by (cases "entry_of (entries c) (c_pv k) (c_src k)")
        (auto simp: write_section_join write_section_install heap_frame installs_def compiles_def key_of_def)
  next
    case (c_compile t k a)
    then show ?thesis
      using IH finish_counts [OF inv c_compile(3)]
      by (auto simp: compile_returns_def Let_def installs_def compiles_def)
  next
    case (c_panic t k a)
    then show ?thesis
      using IH finish_counts [OF inv c_panic(3)]
      by (auto simp: compile_panics_def installs_def compiles_def)
  qed (use IH in \<open>auto simp: heap_frame installs_def compiles_def\<close>)
qed

lemma crun_installs:
  assumes "crun fs tr c"
  shows "installs pv src tr \<le> invalidations pv tr + (if entry_of (entries c) pv src = None then 0 else 1)"
  using assms
proof (induction rule: crun.induct)
  case c_init
  show ?case by (simp add: installs_def)
next
  case (c_step tr c e c')
  from c_step.hyps(2) c_step.IH show ?case
  proof cases
    case (c_write t k)
    then show ?thesis
      using c_step.IH by (cases "entry_of (entries c) (c_pv k) (c_src k)")
        (auto simp: write_section_join write_section_install install_def entry_of_put
          installs_def invalidations_def split: if_splits)
  next
    case (c_compile t k a)
    then show ?thesis using c_step.IH
      by (auto simp: compile_returns_def Let_def entries_frame installs_def invalidations_def)
  next
    case (c_panic t k a)
    then show ?thesis using c_step.IH
      by (auto simp: compile_panics_def entries_frame installs_def invalidations_def)
  next
    case (c_invalidate pv')
    then show ?thesis using c_step.IH
      by (auto simp: Invalidate_def entry_of_delete installs_def invalidations_def split: if_splits)
  qed (auto simp: entries_frame installs_def invalidations_def)
qed

text \<open>An entry is compiled once when it is finished, and not before.\<close>

lemma finish_done:
  assumes inv: "cache_inv fs c" and t: "pcs c t = Compiling k b"
  shows "(a < length (heap (finish b r c)) \<and> e_result (heap (finish b r c) ! a) \<noteq> None)
      \<longleftrightarrow> a = b \<or> (a < length (heap c) \<and> e_result (heap c ! a) \<noteq> None)"
    and "\<not> (b < length (heap c) \<and> e_result (heap c ! b) \<noteq> None)"
  using cache_inv_pc [OF inv, of t] t by (auto simp: pc_ok_def heap_frame nth_list_update)

lemma crun_compilations:
  assumes "crun fs tr c"
  shows "compilations a tr = (if a < length (heap c) \<and> e_result (heap c ! a) \<noteq> None then 1 else 0)"
  using assms
proof (induction rule: crun.induct)
  case c_init
  show ?case by (simp add: compilations_def NewCache_def)
next
  case (c_step tr c e c')
  note IH = c_step.IH [unfolded compilations_def]
  note inv = crun_inv [OF c_step.hyps(1)]
  from c_step.hyps(2) show ?case
  proof cases
    case (c_write t k)
    then show ?thesis
      using IH by (cases "entry_of (entries c) (c_pv k) (c_src k)")
        (auto simp: write_section_join write_section_install heap_frame compilations_def nth_append)
  next
    case (c_compile t k b)
    then show ?thesis
      using IH finish_done [OF inv c_compile(3)] by (auto simp: compile_returns_def Let_def compilations_def)
  next
    case (c_panic t k b)
    then show ?thesis
      using IH finish_done [OF inv c_panic(3)] by (auto simp: compile_panics_def compilations_def)
  qed (use IH in \<open>auto simp: heap_frame compilations_def\<close>)
qed

text \<open>An entry stays in the map until its version is invalidated.\<close>

lemma cstep_keeps_entry:
  assumes "cstep fs c e c'" and "entry_of (entries c) pv src \<noteq> None" and "e \<noteq> EvInvalidate pv"
  shows "entry_of (entries c') pv src \<noteq> None"
  using assms
proof cases
  case (c_write t k)
  then show ?thesis
    using assms(2) by (cases "entry_of (entries c) (c_pv k) (c_src k)")
      (auto simp: write_section_join write_section_install install_def entry_of_put split: if_splits)
qed (use assms(2,3) in \<open>auto simp: entries_frame compile_returns_def compile_panics_def Let_def Invalidate_def
  entry_of_delete split: if_splits\<close>)

lemma install_entry:
  assumes "cstep fs c (EvWrite t k True) c'"
  shows "entry_of (entries c) (c_pv k) (c_src k) = None" and "entry_of (entries c') (c_pv k) (c_src k) \<noteq> None"
  using assms
  by (cases; cases "entry_of (entries c) (c_pv k) (c_src k)";
      auto simp: write_section_install install_def entry_of_put)+

lemma entry_since_install:
  assumes "crun fs tr c" and "tr = zs @ EvWrite t k True # xs" and "EvInvalidate (c_pv k) \<notin> set zs"
  shows "entry_of (entries c) (c_pv k) (c_src k) \<noteq> None"
  using assms
proof (induction arbitrary: zs rule: crun.induct)
  case c_init
  then show ?case by simp
next
  case (c_step tr c e c')
  show ?case
  proof (cases zs)
    case Nil
    with c_step.hyps(2) c_step.prems(1) show ?thesis using install_entry(2) by auto
  next
    case (Cons z zs')
    with c_step.prems have "tr = zs' @ EvWrite t k True # xs" "e = z" "EvInvalidate (c_pv k) \<notin> set zs'"
      "e \<noteq> EvInvalidate (c_pv k)" by auto
    with c_step.IH show ?thesis using cstep_keeps_entry [OF c_step.hyps(2)] by blast
  qed
qed

lemma crun_suffix: "crun fs tr c \<Longrightarrow> tr = ys @ xs \<Longrightarrow> \<exists>c'. crun fs xs c'"
proof (induction arbitrary: ys rule: crun.induct)
  case c_init
  then show ?case using crun.c_init by auto
next
  case (c_step tr c e c')
  then show ?case using crun.c_step [OF c_step.hyps] by (cases ys) auto
qed

text \<open>Between two installs of one key its version was invalidated.\<close>

lemma installs_separated:
  assumes "crun fs tr c" and "tr = ys @ EvWrite t k True # zs @ EvWrite t' k' True # xs" and "same_key k k'"
  shows "EvInvalidate (c_pv k) \<in> set zs"
proof (rule ccontr)
  assume no: "EvInvalidate (c_pv k) \<notin> set zs"
  obtain c1 where "crun fs (EvWrite t k True # zs @ EvWrite t' k' True # xs) c1"
    using crun_suffix [OF assms(1,2)] by blast
  then obtain c0 where c0: "crun fs (zs @ EvWrite t' k' True # xs) c0" "cstep fs c0 (EvWrite t k True) c1"
    by (auto elim: crun.cases)
  have "entry_of (entries c0) (c_pv k) (c_src k) \<noteq> None"
    using entry_since_install [OF c0(1) refl] no assms(3) by simp
  with install_entry(1) [OF c0(2)] show False by simp
qed

text \<open>While a version is never invalidated its entries stay reachable.\<close>

lemma crun_live_entries:
  assumes "crun fs tr c" and "invalidations pv tr = 0"
    and "a < length (heap c)" and "key_of pv src (heap c ! a)"
  shows "entry_of (entries c) pv src = Some a"
proof -
  have "installs pv src tr \<le> 1" and some: "entry_of (entries c) pv src \<noteq> None \<or> installs pv src tr = 0"
    using crun_installs [OF assms(1), of pv src] assms(2) by (auto split: if_splits)
  then have le1: "length (filter (key_of pv src) (heap c)) \<le> 1"
    using crun_counts [OF assms(1), of pv src] by simp
  have "0 < length (filter (key_of pv src) (heap c))"
    using assms(3,4) by (auto simp: filter_empty_conv)
  with some obtain b where b: "entry_of (entries c) pv src = Some b"
    using crun_counts [OF assms(1), of pv src] by auto
  have kb: "b < length (heap c)" "key_of pv src (heap c ! b)"
    using cache_inv_entry [OF crun_inv [OF assms(1)] b] by (auto simp: key_of_def)
  have "a = b"
  proof (rule ccontr)
    assume "a \<noteq> b"
    then have "card {a, b} = 2" by simp
    moreover have "card {a, b} \<le> card {i. i < length (heap c) \<and> key_of pv src (heap c ! i)}"
      using assms(3,4) kb by (intro card_mono) auto
    ultimately show False using le1 by (simp add: length_filter_conv_card)
  qed
  with b show ?thesis by simp
qed

section \<open>Where results come from\<close>

definition pc_started :: "cevent list \<Rightarrow> pc \<Rightarrow> bool" where
  "pc_started tr p =
     (case p of Reading k \<Rightarrow> \<exists>t. EvStart t k \<in> set tr | Missed k \<Rightarrow> \<exists>t. EvStart t k \<in> set tr | _ \<Rightarrow> True)"

definition entry_started :: "cevent list \<Rightarrow> cacheEntry \<Rightarrow> bool" where
  "entry_started tr e \<longleftrightarrow>
     (\<exists>t. EvStart t (e_call e) \<in> set tr)
     \<and> (e_result e = Some (Inl CompilePanicked) \<longrightarrow> (\<exists>t a. EvPanic t (e_call e) a \<in> set tr))"

lemma compile_result_not_panic [simp]: "compile_result fs k \<noteq> Inl CompilePanicked"
  by (cases "Compile fs (c_src k) (c_res k)") (auto simp: compile_result_def)

lemma started_mono:
  "pc_started tr p \<Longrightarrow> pc_started (e # tr) p"
  "entry_started tr x \<Longrightarrow> entry_started (e # tr) x"
  by (auto simp: pc_started_def entry_started_def split: pc.splits)

lemma crun_started:
  assumes "crun fs tr c"
  shows "(\<forall>t. pc_started tr (pcs c t)) \<and> (\<forall>x \<in> set (heap c). entry_started tr x)"
  using assms
proof (induction rule: crun.induct)
  case c_init
  show ?case by (simp add: NewCache_def pc_started_def)
next
  case (c_step tr c e c')
  have pcs0: "pc_started (e # tr) (pcs c t)" for t
    using c_step.IH started_mono by blast
  have heap0: "entry_started (e # tr) x" if "x \<in> set (heap c)" for x
    using c_step.IH started_mono that by blast
  note inv = crun_inv [OF c_step.hyps(1)]
  have fin: "\<forall>x \<in> set (heap (finish a r c)). entry_started (e # tr) x"
    if "pcs c t = Compiling k a" and "r = Inl CompilePanicked \<longrightarrow> (\<exists>t a. EvPanic t k a \<in> set (e # tr))" for t k a r
  proof -
    have a: "a < length (heap c)" "e_call (heap c ! a) = k"
      using cache_inv_pc [OF inv, of t] that by (simp_all add: pc_ok_def)
    with that(2) heap0 [of "heap c ! a"] have "entry_started (e # tr) ((heap c ! a)\<lparr>e_result := Some r\<rparr>)"
      by (simp add: entry_started_def)
    then show ?thesis
      using heap0 set_update_subset_insert [of "heap c" a] by (fastforce simp: heap_frame)
  qed
  from c_step.hyps(2) show ?case
  proof cases
    case (c_start t k)
    then show ?thesis using pcs0 heap0 by (auto simp: pc_started_def)
  next
    case (c_read t k)
    then show ?thesis using pcs0 [of t] pcs0 heap0
      by (auto simp: read_section_def pc_started_def split: option.splits)
  next
    case (c_write t k)
    have k: "entry_started (e # tr) \<lparr>e_call = k, e_result = None\<rparr>"
      using pcs0 [of t] c_write(3) by (auto simp: entry_started_def pc_started_def)
    show ?thesis
    proof (cases "entry_of (entries c) (c_pv k) (c_src k)")
      case None
      with c_write k pcs0 heap0 show ?thesis
        by (auto simp: write_section_install install_def pc_started_def [of _ "Compiling _ _"])
    next
      case (Some a)
      with c_write pcs0 heap0 show ?thesis
        by (auto simp: write_section_join pc_started_def [of _ "Waiting _ _"])
    qed
  next
    case (c_compile t k a)
    then show ?thesis
      using fin [of t k a "compile_result fs k"] pcs0
      by (auto simp: compile_returns_def Let_def finish_def pc_started_def [of _ "Returned _ _ _"])
  next
    case (c_panic t k a)
    then show ?thesis
      using fin [of t k a "Inl CompilePanicked"] pcs0
      by (auto simp: compile_panics_def finish_def pc_started_def [of _ "Raised _ _"])
  next
    case (c_wait t k a r)
    then show ?thesis using pcs0 heap0 by (auto simp: pc_started_def [of _ "Returned _ _ _"])
  next
    case (c_invalidate pv)
    then show ?thesis using pcs0 heap0 by (simp add: Invalidate_def)
  qed
qed

section \<open>Properties\<close>

text \<open>
  The concrete run: two goroutines miss the same key, one installs the entry and compiles,
  the other joins and waits.
\<close>

definition ex_call :: call where
  "ex_call = Call 3 ''threshold('7') AND threshold('8')'' (Some (MapResolver_Lookup ex_rows))"

definition ex_trace :: "cevent list" where
  "ex_trace =
     [EvWait 1, EvCompile 0 ex_call 0, EvWrite 1 ex_call False, EvWrite 0 ex_call True, EvRead 1, EvRead 0,
      EvStart 1 ex_call, EvStart 0 ex_call]"

definition ex_final :: cache where
  "ex_final =
     (let r = compile_result ex_from_string ex_call in
      \<lparr>entries = [(3, [(c_src ex_call, 0)])], heap = [\<lparr>e_call = ex_call, e_result = Some r\<rparr>],
       pcs = (\<lambda>_. Idle)(0 := Returned ex_call 0 r, 1 := Returned ex_call 0 r)\<rparr>)"

lemma crun_stepI: "crun fs tr c \<Longrightarrow> cstep fs c e c' \<Longrightarrow> c' = c'' \<Longrightarrow> crun fs (e # tr) c''"
  using c_step by blast

lemma c_write_event:
  "pcs c t = Missed k \<Longrightarrow> b = (entry_of (entries c) (c_pv k) (c_src k) = None) \<Longrightarrow>
     cstep fs c (EvWrite t k b) (write_section t k c)"
  using c_write by blast

definition ex_waiting :: cache where
  "ex_waiting =
     \<lparr>entries = [(3, [(c_src ex_call, 0)])], heap = [\<lparr>e_call = ex_call, e_result = None\<rparr>],
      pcs = (\<lambda>_. Idle)(0 := Compiling ex_call 0, 1 := Waiting ex_call 0)\<rparr>"

lemma ex_run_waiting: "crun ex_from_string (drop 2 ex_trace) ex_waiting"
proof -
  let ?c = "\<lambda>es h p q. \<lparr>entries = es, heap = h, pcs = (\<lambda>_. Idle)(0 := p, 1 := q)\<rparr> :: cache"
  have 1: "crun ex_from_string [EvStart 1 ex_call, EvStart 0 ex_call] (?c [] [] (Reading ex_call) (Reading ex_call))"
    by (rule crun_stepI [OF crun_stepI [OF c_init c_start refl] c_start])
      (simp_all add: NewCache_def at_rest_def set_pc_def fun_upd_twist)
  have 2: "crun ex_from_string [EvRead 1, EvRead 0, EvStart 1 ex_call, EvStart 0 ex_call]
      (?c [] [] (Missed ex_call) (Missed ex_call))"
    by (rule crun_stepI [OF crun_stepI [OF 1 c_read refl] c_read])
      (simp_all add: read_section_def entry_of_def set_pc_def fun_upd_twist)
  have tr: "drop 2 ex_trace = EvWrite 1 ex_call False # EvWrite 0 ex_call True #
        [EvRead 1, EvRead 0, EvStart 1 ex_call, EvStart 0 ex_call]"
    by (simp add: ex_trace_def)
  show ?thesis
    unfolding tr
    by (rule crun_stepI [OF crun_stepI [OF 2 c_write_event refl] c_write_event])
      (simp_all add: write_section_def entry_of_def set_pc_def fun_upd_twist ex_call_def gomap_put_def ex_waiting_def)
qed

lemma ex_run: "crun ex_from_string ex_trace ex_final"
proof -
  let ?r = "compile_result ex_from_string ex_call"
  have tr: "ex_trace = EvWait 1 # EvCompile 0 ex_call 0 # drop 2 ex_trace"
    by (simp add: ex_trace_def)
  show ?thesis
    by (subst tr, rule crun_stepI [OF crun_stepI [OF ex_run_waiting c_compile refl] c_wait [where r = ?r]])
      (auto simp: compile_returns_def finish_def waitEntry_def ex_final_def ex_waiting_def Let_def set_pc_def
        fun_upd_def fun_eq_iff)
qed

text \<open>
  C26. Singleflight: in every interleaving of concurrent callers, invalidations and panics,
  an entry is compiled at most once, and exactly once when it has a result; the compilations
  of a pair of policy version and source text are at most its entries, one per install; and
  an entry of the pair is installed a second time only after an invalidation of the version
  since the first. So the compiler runs for the pair at most once more often than its
  version was invalidated.
\<close>
theorem GetOrCompile_singleflight:
  assumes "crun from_string tr c"
  shows "compilations a tr = (if a < length (heap c) \<and> e_result (heap c ! a) \<noteq> None then 1 else 0)
    \<and> compiles pv src tr \<le> installs pv src tr
    \<and> installs pv src tr = length (filter (key_of pv src) (heap c))
    \<and> (\<forall>ys t k zs t' k' xs. tr = ys @ EvWrite t k True # zs @ EvWrite t' k' True # xs \<longrightarrow> same_key k k'
         \<longrightarrow> EvInvalidate (c_pv k) \<in> set zs)
    \<and> compiles pv src tr \<le> Suc (invalidations pv tr)"
proof (intro conjI)
  show le: "compiles pv src tr \<le> installs pv src tr"
    using crun_counts [OF assms, of pv src] count_filter_le [of "key_of pv src" "\<lambda>e. e_result e \<noteq> None" "heap c"]
    by simp
  show "installs pv src tr = length (filter (key_of pv src) (heap c))"
    using crun_counts [OF assms, of pv src] by simp
  show "\<forall>ys t k zs t' k' xs. tr = ys @ EvWrite t k True # zs @ EvWrite t' k' True # xs \<longrightarrow> same_key k k'
         \<longrightarrow> EvInvalidate (c_pv k) \<in> set zs"
    using installs_separated [OF assms] by blast
  show "compiles pv src tr \<le> Suc (invalidations pv tr)"
    using le crun_installs [OF assms, of pv src] by (simp split: if_splits)
qed (rule crun_compilations [OF assms])

theorem GetOrCompile_singleflight_witness:
  "compilations 0 ex_trace = 1 \<and> compiles 3 (c_src ex_call) ex_trace \<le> installs 3 (c_src ex_call) ex_trace
   \<and> compiles 3 (c_src ex_call) ex_trace \<le> Suc (invalidations 3 ex_trace)"
  using GetOrCompile_singleflight [OF ex_run, of 0 3 "c_src ex_call"] by (simp add: ex_final_def Let_def)

text \<open>
  Two callers of the same policy version and source text that both returned got the
  same result from the same entry, when the version was never invalidated.
\<close>
theorem GetOrCompile_same_result:
  assumes "crun from_string tr c" and "invalidations (c_pv k) tr = 0"
    and "pcs c t = Returned k a r" and "pcs c t' = Returned k' a' r'" and "same_key k' k"
  shows "a = a' \<and> r = r'"
proof -
  have "entry_of (entries c) (c_pv k) (c_src k) = Some b"
    if "pcs c u = Returned l b s" and "same_key l k" for u l b s
    using crun_live_entries [OF assms(1,2), of b "c_src k"] cache_inv_pc [OF crun_inv [OF assms(1)], of u] that
    by (simp add: pc_ok_def key_of_def)
  then have "a = a'" using assms by (metis option.inject)
  with assms(3,4) show ?thesis
    using cache_inv_pc [OF crun_inv [OF assms(1)], of t] cache_inv_pc [OF crun_inv [OF assms(1)], of t']
    by (simp add: pc_ok_def)
qed

theorem GetOrCompile_same_result_witness:
  "\<exists>a r a' r'. pcs ex_final 0 = Returned ex_call a r \<and> pcs ex_final 1 = Returned ex_call a' r' \<and> a = a' \<and> r = r'"
proof -
  have "invalidations (c_pv ex_call) ex_trace = 0"
    by (simp add: invalidations_def ex_trace_def)
  moreover obtain a r a' r' where "pcs ex_final 0 = Returned ex_call a r" "pcs ex_final 1 = Returned ex_call a' r'"
    by (simp add: ex_final_def Let_def)
  ultimately show ?thesis
    using GetOrCompile_same_result [OF ex_run, of ex_call 0 a r 1 ex_call a' r'] by simp
qed

text \<open>
  When all callers of a policy version pass the same resolver and no resolver
  panicked, a caller that returned has the result of compiling its own source text with
  that resolver, whether it compiled, joined a compilation or hit a finished entry.
\<close>
theorem GetOrCompile_returns_Compile:
  assumes "crun from_string tr c" and "pcs c t = Returned k a r"
    and "\<And>t k. EvStart t k \<in> set tr \<Longrightarrow> c_res k = resolver (c_pv k)"
    and "\<And>t k a. EvPanic t k a \<notin> set tr"
  shows "r = map_sum CompileErr (\<lambda>p. p) (Compile from_string (c_src k) (resolver (c_pv k)))"
proof -
  let ?e = "heap c ! a"
  have e: "a < length (heap c)" "same_key (e_call ?e) k" "e_result ?e = Some r"
    using cache_inv_pc [OF crun_inv [OF assms(1)], of t] assms(2) by (simp_all add: pc_ok_def)
  have "entry_started tr ?e"
    using crun_started [OF assms(1)] e(1) by simp
  then have "r \<noteq> Inl CompilePanicked" "c_res (e_call ?e) = resolver (c_pv k)"
    using assms(3,4) e by (auto simp: entry_started_def)
  moreover have "entry_ok from_string ?e"
    using cache_inv_ok [OF crun_inv [OF assms(1)] e(1)] .
  ultimately show ?thesis
    using e by (simp add: entry_ok_def compile_result_def)
qed

theorem GetOrCompile_returns_Compile_witness:
  "compile_result ex_from_string ex_call =
     map_sum CompileErr (\<lambda>p. p) (Compile ex_from_string (c_src ex_call) ((\<lambda>_. c_res ex_call) (c_pv ex_call)))"
  by (rule GetOrCompile_returns_Compile [OF ex_run, where t = 1 and a = 0])
    (auto simp: ex_final_def Let_def ex_trace_def)

text \<open>
  C39. No caller is stuck waiting: from every reachable state a waiting caller returns
  within two further steps, at most one of them the end of the compilation it waits for.
\<close>
theorem waiting_caller_returns:
  assumes "crun from_string tr c" and "pcs c t = Waiting k a"
  shows "\<exists>tr' c' r. length tr' \<le> 2 \<and> crun from_string (tr' @ tr) c' \<and> pcs c' t = Returned k a r"
proof (cases "waitEntry a c")
  case (Some r)
  then have "crun from_string ([EvWait t] @ tr) (set_pc t (Returned k a r) c)"
    using assms by (simp add: crun.c_step cstep.c_wait)
  then show ?thesis by (intro exI [of _ "[EvWait t]"]) fastforce
next
  case None
  have a: "a < length (heap c)"
    using cache_inv_pc [OF crun_inv [OF assms(1)], of t] assms(2) by (simp add: pc_ok_def)
  then obtain u where u: "pcs c u = Compiling (e_call (heap c ! a)) a"
    using None cache_inv_owner [OF crun_inv [OF assms(1)] a] by (auto simp: waitEntry_def)
  let ?k = "e_call (heap c ! a)" and ?r = "compile_result from_string (e_call (heap c ! a))"
  let ?c1 = "compile_returns from_string u ?k a c"
  have 1: "crun from_string (EvCompile u ?k a # tr) ?c1"
    using assms(1) u by (simp add: crun.c_step cstep.c_compile)
  have "t \<noteq> u" using u assms(2) by auto
  then have "pcs ?c1 t = Waiting k a" "waitEntry a ?c1 = Some ?r"
    using assms(2) a by (simp_all add: compile_returns_def Let_def finish_def waitEntry_def)
  with 1 have "crun from_string ([EvWait t, EvCompile u ?k a] @ tr) (set_pc t (Returned k a ?r) ?c1)"
    by (simp add: crun.c_step cstep.c_wait)
  then show ?thesis by (intro exI [of _ "[EvWait t, EvCompile u ?k a]"]) fastforce
qed

theorem waiting_caller_returns_witness:
  "\<exists>tr' c' r. length tr' \<le> 2 \<and> crun ex_from_string (tr' @ drop 2 ex_trace) c' \<and> pcs c' 1 = Returned ex_call 0 r"
  by (rule waiting_caller_returns [OF ex_run_waiting]) (simp add: ex_waiting_def)

end
