(* ===== verification/Steward_Types.thy ===== *)
theory Steward_Types
  imports Dsl_Ast
begin

text \<open>
  The rows, requests and errors of the policy steward (\<^verbatim>\<open>policy/steward/types.go\<close>). Fields
  carry a prefix of their record where two records of the sources share a field name.
\<close>

section \<open>Severities and scope kinds\<close>

type_synonym Severity = string

abbreviation (input) SeverityInfo :: Severity where "SeverityInfo \<equiv> ''info''"
abbreviation (input) SeverityWarn :: Severity where "SeverityWarn \<equiv> ''warn''"
abbreviation (input) SeverityBlock :: Severity where "SeverityBlock \<equiv> ''block''"

definition Severity_IsValid :: "Severity \<Rightarrow> bool" where
  "Severity_IsValid s \<longleftrightarrow> s = SeverityInfo \<or> s = SeverityWarn \<or> s = SeverityBlock"

type_synonym ScopeKind = string

definition ScopeKind_IsValid :: "ScopeKind \<Rightarrow> bool" where
  "ScopeKind_IsValid k \<longleftrightarrow>
     k = ''repo'' \<or> k = ''package'' \<or> k = ''file'' \<or> k = ''class'' \<or> k = ''interface''
     \<or> k = ''method'' \<or> k = ''block''"

section \<open>Rows\<close>

record RuleRef =
  rr_RuleID :: string
  rr_Version :: int

record ThresholdRef =
  tr_ThresholdID :: uuid

record RefactorWeights =
  Alpha :: float64
  Beta :: float64
  Gamma :: float64
  Delta :: float64
  EffortModelVersion :: string
  WindowDays :: int
  FreshnessWindowSeconds :: "int option"
  TopN :: int

record PolicyVersion =
  PolicyVersionID :: uuid
  pv_Name :: string
  RuleRefs :: "RuleRef list"
  ThresholdRefs :: "ThresholdRef list"
  pv_RefactorWeights :: RefactorWeights
  Signature :: string
  pv_CreatedAt :: time

record PolicyActivation =
  ActivationID :: uuid
  pa_PolicyVersionID :: uuid
  ActivatedBy :: string
  pa_CreatedAt :: time

record RulePack =
  rp_PackID :: string
  rp_Version :: int
  DisplayName :: string
  rp_DescriptionMD :: string
  rp_CreatedAt :: time

record Rule =
  RuleID :: string
  Version :: int
  PackID :: string
  PredicateDSL :: string
  SeverityDefault :: Severity
  DescriptionMD :: string
  rule_CreatedAt :: time

text \<open>A persisted threshold is the row of the rule language with its creation time.\<close>

record ThresholdRow =
  th_row :: Threshold
  th_CreatedAt :: time

section \<open>Overrides\<close>

record ScopeFilter =
  sf_RepoID :: string
  sf_ScopeKind :: ScopeKind
  ScopeSignatureGlob :: string

definition ScopeFilter_IsZero :: "ScopeFilter \<Rightarrow> bool" where
  "ScopeFilter_IsZero f \<longleftrightarrow> sf_RepoID f = [] \<and> sf_ScopeKind f = [] \<and> ScopeSignatureGlob f = []"

record CandidateScope =
  cs_RepoID :: string
  cs_ScopeKind :: ScopeKind
  cs_Signature :: string

definition CandidateScope_IsValid :: "CandidateScope \<Rightarrow> bool" where
  "CandidateScope_IsValid c \<longleftrightarrow>
     \<not> blank (cs_RepoID c) \<and> ScopeKind_IsValid (cs_ScopeKind c) \<and> \<not> blank (cs_Signature c)"

record Override =
  OverrideID :: uuid
  o_RuleID :: string
  o_ScopeFilter :: ScopeFilter
  Mute :: bool
  Reason :: string
  ActorID :: string
  o_CreatedAt :: time

section \<open>Requests\<close>

record PublishRequest =
  p_Name :: string
  p_RuleRefs :: "RuleRef list"
  p_ThresholdRefs :: "ThresholdRef list"
  p_RefactorWeights :: RefactorWeights

record ActivateRequest =
  a_PolicyVersionID :: uuid
  a_ActivatedBy :: string

record RuleSpec =
  rs_RuleID :: string
  rs_Version :: int
  rs_PredicateDSL :: string
  rs_SeverityDefault :: Severity
  rs_DescriptionMD :: string

record PublishRulepackRequest =
  k_PackID :: string
  k_Version :: int
  k_DisplayName :: string
  k_DescriptionMD :: string
  Rules :: "RuleSpec list"

record OverrideRequest =
  q_RuleID :: string
  q_ScopeFilter :: ScopeFilter
  q_Mute :: bool
  q_Reason :: string
  q_ActorID :: string

section \<open>Errors\<close>

text \<open>
  The sentinels of the package, the cancelled context, and the errors without a sentinel:
  a repeated or zero identifier, a failed encoding, signature or identifier generation.
\<close>

datatype steward_error =
    ErrNoActiveSigningKey | ErrInvalidRequest | ErrUnknownPolicyVersion | ErrUnknownRuleRef
  | ErrUnknownThresholdRef | ErrDuplicateRulePack | ErrDuplicateRule | ErrUnimplementedVerb
  | ErrInvalidOverride | ErrUnknownRule | ErrInvalidCandidateScope
  | ErrContext | ErrDuplicateID | ErrZeroID | ErrCanonicalJSON | ErrSigning | ErrVerify | ErrUUID | ErrGlob

section \<open>Verbs\<close>

definition canonicalVerbs :: "string list" where
  "canonicalVerbs = [''policy.publish'', ''policy.activate'', ''policy.publish_rulepack'']"

definition Registry_Verbs :: "string list" where
  "Registry_Verbs = canonicalVerbs"

definition Registry_Lookup :: "string \<Rightarrow> steward_error + string" where
  "Registry_Lookup name = (if List.member canonicalVerbs name then Inr name else Inl ErrUnimplementedVerb)"

end
