(* ===== verification/Steward_Glob.thy ===== *)
theory Steward_Glob
  imports Go_Strings
begin

text \<open>
  Scope globs (\<^verbatim>\<open>policy/steward/scope_glob.go\<close>): the translation of a glob to an anchored
  regular expression and the matching of a signature. The regular expressions of Go's
  \<^verbatim>\<open>regexp\<close> package are modelled on the syntax the translation emits: anchors, the dot,
  the star after a dot, escaped and plain literals. A regular expression text is given by
  its runes. The process-wide cache of compiled expressions only avoids recompilation and
  is not part of the model.
\<close>

section \<open>Regular expressions\<close>

datatype re_atom = ReLit rune | ReAny | ReAnyStar

abbreviation newline :: rune where
  "newline \<equiv> 10"

text \<open>The characters \<^verbatim>\<open>regexp.QuoteMeta\<close> escapes.\<close>

definition meta_chars :: "rune list" where
  "meta_chars = map byte_of (CHR 0x5C # ''.+*?()|[]{}^$'')"

abbreviation backslash :: rune where
  "backslash \<equiv> 92"

definition QuoteMeta :: "rune \<Rightarrow> rune list" where
  "QuoteMeta r = (if List.member meta_chars r then [backslash, r] else [r])"

text \<open>\<^verbatim>\<open>regexp.Compile\<close> between the anchors; \<^const>\<open>None\<close> for syntax outside the modelled subset.\<close>

fun re_body :: "rune list \<Rightarrow> re_atom list option" where
  "re_body [] = None"
| "re_body (r # rs) =
     (if r = byte_of (CHR ''$'') then (if rs = [] then Some [] else None)
      else if r = byte_of (CHR ''.'') then
        (case rs of
           r' # rs' \<Rightarrow>
             if r' = byte_of (CHR ''*'') then map_option (Cons ReAnyStar) (re_body rs')
             else map_option (Cons ReAny) (re_body rs)
         | [] \<Rightarrow> None)
      else if r = backslash then
        (case rs of
           r' # rs' \<Rightarrow>
             if List.member meta_chars r' then map_option (Cons (ReLit r')) (re_body rs') else None
         | [] \<Rightarrow> None)
      else if List.member meta_chars r then None
      else map_option (Cons (ReLit r)) (re_body rs))"

definition regexp_Compile :: "rune list \<Rightarrow> re_atom list option" where
  "regexp_Compile rs =
     (case rs of r # rs' \<Rightarrow> if r = byte_of (CHR ''^'') then re_body rs' else None | [] \<Rightarrow> None)"

text \<open>Matching of an anchored expression: the dot does not match a newline.\<close>

fun re_match :: "re_atom list \<Rightarrow> rune list \<Rightarrow> bool" where
  "re_match [] rs \<longleftrightarrow> rs = []"
| "re_match (ReLit c # as) rs \<longleftrightarrow> (case rs of [] \<Rightarrow> False | r # rs' \<Rightarrow> r = c \<and> re_match as rs')"
| "re_match (ReAny # as) rs \<longleftrightarrow> (case rs of [] \<Rightarrow> False | r # rs' \<Rightarrow> r \<noteq> newline \<and> re_match as rs')"
| "re_match (ReAnyStar # as) [] \<longleftrightarrow> re_match as []"
| "re_match (ReAnyStar # as) (r # rs) \<longleftrightarrow>
     re_match as (r # rs) \<or> (r \<noteq> newline \<and> re_match (ReAnyStar # as) rs)"

section \<open>Globs\<close>

definition scopeGlobToRegex :: "string \<Rightarrow> rune list" where
  "scopeGlobToRegex pattern =
     byte_of (CHR ''^'') #
     concat (map (\<lambda>r. if r = byte_of (CHR ''*'') then map byte_of ''.*''
                      else if r = byte_of (CHR ''?'') then map byte_of ''.''
                      else QuoteMeta r) (runes pattern))
     @ [byte_of (CHR ''$'')]"

definition scopeGlobCompile :: "string \<Rightarrow> re_atom list option" where
  "scopeGlobCompile pattern = regexp_Compile (scopeGlobToRegex pattern)"

text \<open>\<^const>\<open>None\<close> is the compile error.\<close>

definition scopeGlobMatches :: "string \<Rightarrow> string \<Rightarrow> bool option" where
  "scopeGlobMatches pattern signature =
     map_option (\<lambda>re. re_match re (runes signature)) (scopeGlobCompile pattern)"

section \<open>What a glob matches\<close>

definition glob_atom :: "rune \<Rightarrow> re_atom" where
  "glob_atom r = (if r = byte_of (CHR ''*'') then ReAnyStar else if r = byte_of (CHR ''?'') then ReAny else ReLit r)"

text \<open>A piece of the signature for each character of the pattern.\<close>

fun atom_piece :: "re_atom \<Rightarrow> rune list \<Rightarrow> bool" where
  "atom_piece (ReLit c) w \<longleftrightarrow> w = [c]"
| "atom_piece ReAny w \<longleftrightarrow> (\<exists>r. w = [r] \<and> r \<noteq> newline)"
| "atom_piece ReAnyStar w \<longleftrightarrow> newline \<notin> set w"

lemma pieces_Cons:
  "(\<exists>ws. list_all2 P (a # as) ws \<and> rs = concat ws) \<longleftrightarrow> (\<exists>w ws. P a w \<and> list_all2 P as ws \<and> rs = w @ concat ws)"
proof
  assume "\<exists>w ws. P a w \<and> list_all2 P as ws \<and> rs = w @ concat ws"
  then obtain w ws where "P a w" "list_all2 P as ws" "rs = w @ concat ws" by blast
  then show "\<exists>ws. list_all2 P (a # as) ws \<and> rs = concat ws" by (intro exI [of _ "w # ws"]) simp
next
  assume "\<exists>ws. list_all2 P (a # as) ws \<and> rs = concat ws"
  then obtain w ws where "P a w" "list_all2 P as ws" "rs = w @ concat ws"
    by (auto simp: list_all2_Cons1)
  then show "\<exists>w ws. P a w \<and> list_all2 P as ws \<and> rs = w @ concat ws" by blast
qed

lemma re_match_pieces: "re_match as rs \<longleftrightarrow> (\<exists>ws. list_all2 atom_piece as ws \<and> rs = concat ws)"
proof (induction as rs rule: re_match.induct)
  case (1 rs)
  then show ?case by auto
next
  case (2 c as rs)
  then show ?case unfolding pieces_Cons by (cases rs) auto
next
  case (3 as rs)
  have "(\<exists>w ws. atom_piece ReAny w \<and> list_all2 atom_piece as ws \<and> rs = w @ concat ws) \<longleftrightarrow>
      (\<exists>r rs'. rs = r # rs' \<and> r \<noteq> newline \<and> (\<exists>ws. list_all2 atom_piece as ws \<and> rs' = concat ws))"
    by fastforce
  with 3 show ?case unfolding pieces_Cons by (cases rs) simp_all
next
  case (4 as)
  have "(\<exists>w ws. atom_piece ReAnyStar w \<and> list_all2 atom_piece as ws \<and> [] = w @ concat ws) \<longleftrightarrow>
      (\<exists>ws. list_all2 atom_piece as ws \<and> [] = concat ws)"
    by (metis append_is_Nil_conv atom_piece.simps(3) empty_iff list.set(1) self_append_conv2)
  with 4 show ?case unfolding pieces_Cons by simp
next
  case (5 as r rs)
  show ?case
  proof
    assume "re_match (ReAnyStar # as) (r # rs)"
    then consider ws where "list_all2 atom_piece as ws" "r # rs = concat ws"
      | ws where "r \<noteq> newline" "list_all2 atom_piece (ReAnyStar # as) ws" "rs = concat ws"
      using 5 by auto
    then show "\<exists>ws. list_all2 atom_piece (ReAnyStar # as) ws \<and> r # rs = concat ws"
    proof cases
      case 1
      then show ?thesis by (intro exI [of _ "[] # ws"]) simp
    next
      case 2
      then obtain w ws' where "ws = w # ws'" "newline \<notin> set w" "list_all2 atom_piece as ws'"
        by (auto simp: list_all2_Cons1)
      with 2 show ?thesis by (intro exI [of _ "(r # w) # ws'"]) simp
    qed
  next
    assume "\<exists>ws. list_all2 atom_piece (ReAnyStar # as) ws \<and> r # rs = concat ws"
    then obtain w ws where w: "newline \<notin> set w" "list_all2 atom_piece as ws" "r # rs = w @ concat ws"
      by (auto simp: list_all2_Cons1)
    show "re_match (ReAnyStar # as) (r # rs)"
    proof (cases w)
      case Nil
      with w have "\<exists>ws. list_all2 atom_piece as ws \<and> r # rs = concat ws" by auto
      then have "re_match as (r # rs)" using 5(1) by blast
      then show ?thesis by simp
    next
      case (Cons r' w')
      with w have r: "r \<noteq> newline" and "list_all2 atom_piece (ReAnyStar # as) (w' # ws)" "rs = concat (w' # ws)"
        by auto
      then have "re_match (ReAnyStar # as) rs" using 5(2) r by blast
      with r show ?thesis by simp
    qed
  qed
qed

lemma re_body_QuoteMeta:
  "r \<noteq> byte_of (CHR ''*'') \<Longrightarrow> re_body (QuoteMeta r @ rs) = map_option (Cons (ReLit r)) (re_body rs)"
proof (cases "List.member meta_chars r")
  case True
  then show ?thesis by (simp add: QuoteMeta_def meta_chars_def)
next
  case False
  moreover from this have "r \<noteq> 36" "r \<noteq> 46" "r \<noteq> 92"
    by (auto simp: meta_chars_def List.member_iff)
  ultimately show ?thesis by (simp add: QuoteMeta_def)
qed

text \<open>No translated character starts with a star, so a dot stays a dot.\<close>

lemma re_body_dot:
  "rs \<noteq> [] \<Longrightarrow> hd rs \<noteq> byte_of (CHR ''*'') \<Longrightarrow> re_body (byte_of (CHR ''.'') # rs) = map_option (Cons ReAny) (re_body rs)"
  by (cases rs) auto

lemma scopeGlob_hd:
  fixes rs :: "rune list"
  defines "t \<equiv> (\<lambda>r. if r = byte_of (CHR ''*'') then map byte_of ''.*''
             else if r = byte_of (CHR ''?'') then map byte_of ''.'' else QuoteMeta r)"
  shows "hd (concat (map t rs) @ [byte_of (CHR ''$'')]) \<noteq> byte_of (CHR ''*'')"
  by (cases rs) (auto simp: t_def QuoteMeta_def meta_chars_def)

lemma scopeGlobCompile_atoms: "scopeGlobCompile pattern = Some (map glob_atom (runes pattern))"
proof -
  define t where "t = (\<lambda>r. if r = byte_of (CHR ''*'') then map byte_of ''.*''
             else if r = byte_of (CHR ''?'') then map byte_of ''.'' else QuoteMeta r)"
  have "re_body (concat (map t rs) @ [byte_of (CHR ''$'')]) = Some (map glob_atom rs)" for rs
  proof (induction rs)
    case (Cons r rs)
    consider "r = byte_of (CHR ''*'')" | "r = byte_of (CHR ''?'')"
      | "r \<noteq> byte_of (CHR ''*'')" "r \<noteq> byte_of (CHR ''?'')" by blast
    then show ?case
    proof cases
      case 1
      with Cons show ?thesis by (simp add: t_def glob_atom_def)
    next
      case 2
      with Cons re_body_dot [OF _ scopeGlob_hd [of rs, folded t_def]] show ?thesis
        by (simp add: t_def glob_atom_def)
    next
      case 3
      with Cons re_body_QuoteMeta [of r "concat (map t rs) @ [byte_of (CHR ''$'')]"] show ?thesis
        by (simp add: t_def glob_atom_def)
    qed
  qed simp
  then show ?thesis
    by (simp add: scopeGlobCompile_def regexp_Compile_def scopeGlobToRegex_def t_def)
qed

section \<open>Properties\<close>

text \<open>
  C40. The translation of every glob compiles, and the signature matches exactly when it can
  be cut into one piece per character of the glob: any text without a newline for a star,
  one character other than a newline for a question mark, and the character itself for
  every other character, regular-expression metacharacters included.
\<close>
theorem scopeGlobMatches_spec:
  "scopeGlobMatches pattern signature =
     Some (\<exists>ws. list_all2 (\<lambda>r. atom_piece (glob_atom r)) (runes pattern) ws \<and> runes signature = concat ws)"
  by (simp add: scopeGlobMatches_def scopeGlobCompile_atoms re_match_pieces list_all2_map1)

end

