(* ===== verification/Steward_Store.thy ===== *)
theory Steward_Store
  imports Steward_Types Steward_Glob
begin

text \<open>
  The in-memory store of the policy steward (\<^verbatim>\<open>policy/steward/store.go\<close>): one definition per
  method of the \<^verbatim>\<open>Store\<close> interface. Writers return the new store, or an error and leave
  the store alone; the mutex makes each method one step. The SQL store answers the same
  interface from PostgreSQL and is not modelled.
\<close>

section \<open>State\<close>

record InMemoryStore =
  policyVersions :: "(uuid, PolicyVersion) gomap"
  activations :: "PolicyActivation list"
  rulePacks :: "(string \<times> int, RulePack) gomap"
  rules :: "(string \<times> int, Rule) gomap"
  thresholds :: "(uuid, ThresholdRow) gomap"
  overrides :: "Override list"

definition NewInMemoryStore :: InMemoryStore where
  "NewInMemoryStore =
     \<lparr>policyVersions = [], activations = [], rulePacks = [], rules = [], thresholds = [], overrides = []\<rparr>"

text \<open>Every method starts with the \<^verbatim>\<open>ctx.Err()\<close> test.\<close>

definition with_ctx :: "ctx \<Rightarrow> steward_error + 'a \<Rightarrow> steward_error + 'a" where
  "with_ctx c r = (case c of Cancelled \<Rightarrow> Inl ErrContext | Live \<Rightarrow> r)"

lemma with_ctx_simps [simp]: "with_ctx Live r = r" "with_ctx Cancelled r = Inl ErrContext"
  by (simp_all add: with_ctx_def)

lemma with_ctx_Inr [simp]: "with_ctx c r = Inr x \<longleftrightarrow> c = Live \<and> r = Inr x"
  by (cases c) simp_all

section \<open>Policy versions and activations\<close>

definition InsertPolicyVersion :: "ctx \<Rightarrow> PolicyVersion \<Rightarrow> InMemoryStore \<Rightarrow> steward_error + InMemoryStore" where
  "InsertPolicyVersion c pv s =
     with_ctx c
       (if map_of (policyVersions s) (PolicyVersionID pv) \<noteq> None then Inl ErrDuplicateID
        else Inr (s\<lparr>policyVersions := gomap_put (PolicyVersionID pv) pv (policyVersions s)\<rparr>))"

definition GetPolicyVersion :: "ctx \<Rightarrow> uuid \<Rightarrow> InMemoryStore \<Rightarrow> steward_error + PolicyVersion" where
  "GetPolicyVersion c i s =
     with_ctx c (case map_of (policyVersions s) i of None \<Rightarrow> Inl ErrUnknownPolicyVersion | Some pv \<Rightarrow> Inr pv)"

definition InsertPolicyActivation :: "ctx \<Rightarrow> PolicyActivation \<Rightarrow> InMemoryStore \<Rightarrow> steward_error + InMemoryStore" where
  "InsertPolicyActivation c pa s =
     with_ctx c
       (if map_of (policyVersions s) (pa_PolicyVersionID pa) = None then Inl ErrUnknownPolicyVersion
        else Inr (s\<lparr>activations := activations s @ [pa]\<rparr>))"

definition activation_before :: "PolicyActivation \<Rightarrow> PolicyActivation \<Rightarrow> bool" where
  "activation_before x y =
     (if pa_CreatedAt x = pa_CreatedAt y then uuidCompare (ActivationID x) (ActivationID y) > 0
      else pa_CreatedAt x > pa_CreatedAt y)"

definition LatestActivation :: "ctx \<Rightarrow> InMemoryStore \<Rightarrow> steward_error + PolicyActivation option" where
  "LatestActivation c s =
     with_ctx c
       (if activations s = [] then Inr None
        else Inr (Some (hd (go_sort activation_before (activations s)))))"

section \<open>Rule packs, rules and thresholds\<close>

definition rule_key :: "Rule \<Rightarrow> string \<times> int" where
  "rule_key r = (RuleID r, Version r)"

fun batch_check :: "(string \<times> int, Rule) gomap \<Rightarrow> (string \<times> int) list \<Rightarrow> Rule list \<Rightarrow> bool" where
  "batch_check persisted seen [] = True"
| "batch_check persisted seen (r # rs) =
     (if map_of persisted (rule_key r) \<noteq> None then False
      else if List.member seen (rule_key r) then False
      else batch_check persisted (rule_key r # seen) rs)"

definition InsertRulePackAndRules :: "ctx \<Rightarrow> RulePack \<Rightarrow> Rule list \<Rightarrow> InMemoryStore \<Rightarrow> steward_error + InMemoryStore" where
  "InsertRulePackAndRules c pack rs s =
     with_ctx c
       (let key = (rp_PackID pack, rp_Version pack) in
        if map_of (rulePacks s) key \<noteq> None then Inl ErrDuplicateRulePack
        else if \<not> batch_check (rules s) [] rs then Inl ErrDuplicateRule
        else Inr (s\<lparr>rulePacks := gomap_put key pack (rulePacks s),
                    rules := fold (\<lambda>r. gomap_put (rule_key r) r) rs (rules s)\<rparr>))"

definition GetRulePack :: "ctx \<Rightarrow> string \<Rightarrow> int \<Rightarrow> InMemoryStore \<Rightarrow> steward_error + RulePack option" where
  "GetRulePack c packID version s = with_ctx c (Inr (map_of (rulePacks s) (packID, version)))"

definition rule_before :: "Rule \<Rightarrow> Rule \<Rightarrow> bool" where
  "rule_before x y = (if RuleID x = RuleID y then Version x < Version y else str_less (RuleID x) (RuleID y))"

definition ListRulesForPack :: "ctx \<Rightarrow> string \<Rightarrow> InMemoryStore \<Rightarrow> steward_error + Rule list" where
  "ListRulesForPack c packID s =
     with_ctx c (Inr (go_sort rule_before (filter (\<lambda>r. PackID r = packID) (map snd (rules s)))))"

definition RuleExists :: "ctx \<Rightarrow> string \<Rightarrow> int \<Rightarrow> InMemoryStore \<Rightarrow> steward_error + bool" where
  "RuleExists c ruleID version s = with_ctx c (Inr (map_of (rules s) (ruleID, version) \<noteq> None))"

definition ThresholdExists :: "ctx \<Rightarrow> uuid \<Rightarrow> InMemoryStore \<Rightarrow> steward_error + bool" where
  "ThresholdExists c i s = with_ctx c (Inr (map_of (thresholds s) i \<noteq> None))"

definition InsertThreshold :: "ctx \<Rightarrow> ThresholdRow \<Rightarrow> InMemoryStore \<Rightarrow> steward_error + InMemoryStore" where
  "InsertThreshold c t s =
     with_ctx c
       (let i = ThresholdID (th_row t) in
        if i = uuid_Nil then Inl ErrZeroID
        else if map_of (thresholds s) i \<noteq> None then Inl ErrDuplicateID
        else Inr (s\<lparr>thresholds := gomap_put i t (thresholds s)\<rparr>))"

definition RuleExistsByID :: "ctx \<Rightarrow> string \<Rightarrow> InMemoryStore \<Rightarrow> steward_error + bool" where
  "RuleExistsByID c ruleID s = with_ctx c (Inr (list_ex (\<lambda>((i, _), _). i = ruleID) (rules s)))"

section \<open>Overrides\<close>

definition InsertOverride :: "ctx \<Rightarrow> Override \<Rightarrow> InMemoryStore \<Rightarrow> steward_error + InMemoryStore" where
  "InsertOverride c v s =
     with_ctx c
       (if OverrideID v = uuid_Nil then Inl ErrZeroID
        else if list_ex (\<lambda>e. OverrideID e = OverrideID v) (overrides s) then Inl ErrDuplicateID
        else Inr (s\<lparr>overrides := overrides s @ [v]\<rparr>))"

text \<open>The scan keeps the best row so far; a glob that does not compile stops it.\<close>

fun override_scan :: "string \<Rightarrow> CandidateScope \<Rightarrow> Override option \<Rightarrow> Override list \<Rightarrow> steward_error + Override option" where
  "override_scan ruleID cand best [] = Inr best"
| "override_scan ruleID cand best (v # vs) =
     (if o_RuleID v \<noteq> ruleID then override_scan ruleID cand best vs
      else if sf_RepoID (o_ScopeFilter v) \<noteq> cs_RepoID cand then override_scan ruleID cand best vs
      else if sf_ScopeKind (o_ScopeFilter v) \<noteq> cs_ScopeKind cand then override_scan ruleID cand best vs
      else
        (case scopeGlobMatches (ScopeSignatureGlob (o_ScopeFilter v)) (cs_Signature cand) of
           None \<Rightarrow> Inl ErrGlob
         | Some False \<Rightarrow> override_scan ruleID cand best vs
         | Some True \<Rightarrow>
             (case best of
                None \<Rightarrow> override_scan ruleID cand (Some v) vs
              | Some b \<Rightarrow>
                  if o_CreatedAt v > o_CreatedAt b then override_scan ruleID cand (Some v) vs
                  else if o_CreatedAt v = o_CreatedAt b \<and> uuidCompare (OverrideID v) (OverrideID b) > 0
                    then override_scan ruleID cand (Some v) vs
                  else override_scan ruleID cand best vs)))"

definition LatestMatchingOverride :: "ctx \<Rightarrow> string \<Rightarrow> CandidateScope \<Rightarrow> InMemoryStore \<Rightarrow> steward_error + Override option" where
  "LatestMatchingOverride c ruleID cand s = with_ctx c (override_scan ruleID cand None (overrides s))"

definition override_before :: "Override \<Rightarrow> Override \<Rightarrow> bool" where
  "override_before x y =
     (if o_CreatedAt x \<noteq> o_CreatedAt y then o_CreatedAt x < o_CreatedAt y
      else uuidCompare (OverrideID x) (OverrideID y) < 0)"

definition ListAllOverrides :: "ctx \<Rightarrow> InMemoryStore \<Rightarrow> steward_error + Override list" where
  "ListAllOverrides c s = with_ctx c (Inr (go_sort override_before (overrides s)))"

section \<open>Logs where the latest row wins\<close>

text \<open>
  The interface two logs of the store share: rows are only appended, and the reader returns
  the relevant row with the largest creation time, the largest identifier on a tie.
\<close>

locale latest_log =
  fixes insert_row :: "'r \<Rightarrow> 's \<Rightarrow> 'e + 's"
    and rows :: "'s \<Rightarrow> 'r list"
    and latest :: "'s \<Rightarrow> 'e + 'r option"
    and created :: "'r \<Rightarrow> time"
    and row_id :: "'r \<Rightarrow> uuid"
    and relevant :: "'r \<Rightarrow> bool"
  assumes insert_rows: "insert_row r s = Inr s' \<Longrightarrow> rows s' = rows s @ [r]"
    and latest_scan: "latest s = Inr (latest_scan created row_id None (filter relevant (rows s)))"
begin

lemma latest_None: "latest s = Inr None \<longleftrightarrow> (\<forall>r \<in> set (rows s). \<not> relevant r)"
  by (simp add: latest_scan latest_scan_None_iff filter_empty_conv)

lemma latest_Some:
  "latest s = Inr (Some r) \<Longrightarrow>
     r \<in> set (rows s) \<and> relevant r \<and> (\<forall>r' \<in> set (rows s). relevant r' \<longrightarrow> row_le created row_id r' r)"
  using latest_scan_max [of created row_id "filter relevant (rows s)" r] by (auto simp: latest_scan)

lemma newest_wins:
  assumes "insert_row r s = Inr s'" and "relevant r"
    and "\<And>r'. r' \<in> set (rows s) \<Longrightarrow> relevant r' \<Longrightarrow> created r' < created r"
  shows "latest s' = Inr (Some r)"
proof -
  have rows: "rows s' = rows s @ [r]" using assms(1) by (rule insert_rows)
  then obtain r0 where r0: "latest s' = Inr (Some r0)"
    using latest_None [of s'] assms(2) latest_scan [of s'] by fastforce
  have "r0 = r \<or> (r0 \<in> set (rows s) \<and> relevant r0)" and "row_le created row_id r r0"
    using latest_Some [OF r0] rows assms(2) by auto
  then have "r0 = r" using assms(3) [of r0] by (auto simp: row_le_def)
  with r0 show ?thesis by simp
qed

lemma irrelevant_ignored:
  "insert_row r s = Inr s' \<Longrightarrow> \<not> relevant r \<Longrightarrow> latest s' = latest s"
  by (simp add: insert_rows latest_scan)

end

lemma LatestActivation_scan:
  "LatestActivation Live s = Inr (latest_scan pa_CreatedAt ActivationID None (filter (\<lambda>_. True) (activations s)))"
proof -
  have "activation_before = newer pa_CreatedAt ActivationID"
    by (intro ext) (auto simp: activation_before_def newer_def)
  then show ?thesis
    using hd_go_sort_newer [of "activations s" pa_CreatedAt ActivationID]
    by (auto simp: LatestActivation_def)
qed

text \<open>A row applies to a candidate scope when rule, repository and kind agree and its glob matches.\<close>

definition override_matches :: "string \<Rightarrow> CandidateScope \<Rightarrow> Override \<Rightarrow> bool" where
  "override_matches ruleID cand v \<longleftrightarrow>
     o_RuleID v = ruleID \<and> sf_RepoID (o_ScopeFilter v) = cs_RepoID cand
     \<and> sf_ScopeKind (o_ScopeFilter v) = cs_ScopeKind cand
     \<and> scopeGlobMatches (ScopeSignatureGlob (o_ScopeFilter v)) (cs_Signature cand) = Some True"

lemma scopeGlobMatches_total: "\<exists>b. scopeGlobMatches p s = Some b"
  by (simp add: scopeGlobMatches_def scopeGlobCompile_atoms)

lemma override_scan_spec:
  "override_scan ruleID cand best vs =
     Inr (latest_scan o_CreatedAt OverrideID best (filter (override_matches ruleID cand) vs))"
proof (induction vs arbitrary: best)
  case (Cons v vs)
  obtain b where "scopeGlobMatches (ScopeSignatureGlob (o_ScopeFilter v)) (cs_Signature cand) = Some b"
    using scopeGlobMatches_total by blast
  with Cons show ?case
    by (cases best; cases b) (simp_all add: override_matches_def)
qed simp

interpretation activation_log: latest_log
  "InsertPolicyActivation Live" activations "LatestActivation Live" pa_CreatedAt ActivationID "\<lambda>_. True"
  by unfold_locales (auto simp: InsertPolicyActivation_def LatestActivation_scan split: if_splits)

interpretation override_log: latest_log
  "InsertOverride Live" overrides "LatestMatchingOverride Live ruleID cand" o_CreatedAt OverrideID
  "override_matches ruleID cand" for ruleID cand
  by unfold_locales (auto simp: InsertOverride_def LatestMatchingOverride_def override_scan_spec split: if_splits)

section \<open>Atomic insertion of a rule pack\<close>

lemma batch_check_iff:
  "batch_check persisted seen rs \<longleftrightarrow>
     distinct (map rule_key rs) \<and> (\<forall>r \<in> set rs. map_of persisted (rule_key r) = None \<and> rule_key r \<notin> set seen)"
  by (induction rs arbitrary: seen) (auto simp: List.member_iff image_iff eq_commute)

lemma map_of_fold_put:
  "distinct (map rule_key rs) \<Longrightarrow>
     map_of (fold (\<lambda>r. gomap_put (rule_key r) r) rs m) k =
       (case find (\<lambda>r. rule_key r = k) rs of Some r \<Rightarrow> Some r | None \<Rightarrow> map_of m k)"
proof (induction rs arbitrary: m)
  case (Cons r rs)
  have "find (\<lambda>x. rule_key x = rule_key r) rs = None"
    unfolding find_None_iff using Cons.prems by (metis distinct.simps(2) image_eqI list.set_map list.simps(9))
  with Cons show ?case by (auto split: option.splits)
qed simp

lemma gomap_ok_fold_put: "gomap_ok m \<Longrightarrow> gomap_ok (fold (\<lambda>r. gomap_put (rule_key r) r) rs m)"
  by (induction rs arbitrary: m) auto

lemma InsertRulePackAndRules_Inr:
  assumes "InsertRulePackAndRules c pack rs s = Inr s'"
  shows "map_of (rulePacks s') = (map_of (rulePacks s))((rp_PackID pack, rp_Version pack) \<mapsto> pack)"
    and "map_of (rulePacks s) (rp_PackID pack, rp_Version pack) = None"
    and "r \<in> set rs \<Longrightarrow> map_of (rules s') (rule_key r) = Some r"
    and "r \<in> set rs \<Longrightarrow> map_of (rules s) (rule_key r) = None"
    and "k \<notin> rule_key ` set rs \<Longrightarrow> map_of (rules s') k = map_of (rules s) k"
    and "policyVersions s' = policyVersions s" "activations s' = activations s"
      "thresholds s' = thresholds s" "overrides s' = overrides s"
proof -
  have s': "s' = s\<lparr>rulePacks := gomap_put (rp_PackID pack, rp_Version pack) pack (rulePacks s),
                    rules := fold (\<lambda>r. gomap_put (rule_key r) r) rs (rules s)\<rparr>"
    and dist: "distinct (map rule_key rs)" and new: "\<forall>r \<in> set rs. map_of (rules s) (rule_key r) = None"
    and pack: "map_of (rulePacks s) (rp_PackID pack, rp_Version pack) = None"
    using assms by (auto simp: InsertRulePackAndRules_def Let_def batch_check_iff split: if_splits)
  show "map_of (rulePacks s') = (map_of (rulePacks s))((rp_PackID pack, rp_Version pack) \<mapsto> pack)"
    by (simp add: s')
  show "map_of (rulePacks s) (rp_PackID pack, rp_Version pack) = None" by (fact pack)
  show "map_of (rules s) (rule_key r) = None" if "r \<in> set rs" using new that by blast
  show "map_of (rules s') (rule_key r) = Some r" if r: "r \<in> set rs"
  proof -
    obtain r' where r': "find (\<lambda>x. rule_key x = rule_key r) rs = Some r'"
      using r by (cases "find (\<lambda>x. rule_key x = rule_key r) rs") (auto simp: find_None_iff)
    then have "r' \<in> set rs" "rule_key r' = rule_key r" by (auto simp: find_Some_iff)
    with r dist have "r' = r" by (auto simp: distinct_map dest: inj_onD)
    with r' show ?thesis by (simp add: s' map_of_fold_put [OF dist])
  qed
  show "map_of (rules s') k = map_of (rules s) k" if "k \<notin> rule_key ` set rs"
  proof -
    have "find (\<lambda>x. rule_key x = k) rs = None" using that by (auto simp: find_None_iff)
    then show ?thesis by (simp add: s' map_of_fold_put [OF dist])
  qed
qed (use assms in \<open>auto simp: InsertRulePackAndRules_def Let_def split: if_splits\<close>)

end
