(* ===== verification/Steward_Json.thy ===== *)
theory Steward_Json
  imports Steward_Types
begin

text \<open>
  The canonical JSON of the signed part of a policy version
  (\<^verbatim>\<open>policy/steward/canonicalize.go\<close>): objects with sorted keys, no white space, no HTML
  escapes, numbers as the standard encoder prints them. The encoder of the standard
  library is modelled as far as the payload needs it: the tree \<^verbatim>\<open>json.Marshal\<close> followed
  by \<^verbatim>\<open>Decoder.UseNumber\<close> yields, string escapes, and the shortest decimal form of a
  \<^verbatim>\<open>float64\<close>. The text of an identifier comes from a third-party package and is the
  parameter \<open>uuid_String\<close>.
\<close>

section \<open>Numbers\<close>

function dec_digits :: "int \<Rightarrow> string" where
  "dec_digits n =
     (if n < 10 then [char_of (48 + n)] else dec_digits (n div 10) @ [char_of (48 + n mod 10)])"
  by pat_completeness auto
termination
  by (relation "measure nat") auto

declare dec_digits.simps [simp del]

definition format_int :: "int \<Rightarrow> string" where
  "format_int n = (if n < 0 then CHR ''-'' # dec_digits (- n) else dec_digits n)"

text \<open>
  The shortest decimal of \<open>a / b > 0\<close> that reads back as the same \<^verbatim>\<open>float64\<close>: digits and the
  position of the point. A binary64 number needs at most seventeen digits, and at most 324
  zeros after the point.
\<close>

fun lead_zeros :: "nat \<Rightarrow> int \<Rightarrow> int \<Rightarrow> int" where
  "lead_zeros 0 a b = 0"
| "lead_zeros (Suc n) a b = (if 10 * a \<ge> b then 0 else 1 + lead_zeros n (10 * a) b)"

definition point_pos :: "int \<Rightarrow> int \<Rightarrow> int" where
  "point_pos a b = (if a \<ge> b then int (length (dec_digits (a div b))) else - lead_zeros 400 a b)"

definition dec_scaled :: "int \<Rightarrow> int \<Rightarrow> int \<Rightarrow> int \<times> int" where
  "dec_scaled a b k = (if 0 \<le> k then (a * 10 ^ nat k, b) else (a, b * 10 ^ nat (- k)))"

fun shortest_from :: "nat \<Rightarrow> int \<Rightarrow> int \<Rightarrow> int \<Rightarrow> int \<Rightarrow> int \<times> int" where
  "shortest_from 0 n p a b =
     (case dec_scaled a b (n - p) of (x, y) \<Rightarrow> (div_half_even x y, n - p))"
| "shortest_from (Suc m) n p a b =
     (case dec_scaled a b (n - p) of
        (x, y) \<Rightarrow>
          (let d = div_half_even x y;
               back = (case dec_scaled d 1 (p - n) of (u, v) \<Rightarrow> round_binary64 u v)
           in if back = Some (of_int a / of_int b) then (d, n - p) else shortest_from m (n + 1) p a b))"

definition strip_zeros :: "string \<Rightarrow> string" where
  "strip_zeros s = rev (dropWhile (\<lambda>c. c = CHR ''0'') (rev s))"

text \<open>Digits without trailing zeros, and where the point stands.\<close>

definition shortest :: "int \<Rightarrow> int \<Rightarrow> string \<times> int" where
  "shortest a b =
     (case shortest_from 16 1 (point_pos a b) a b of
        (d, k) \<Rightarrow> (let s = dec_digits d in (strip_zeros s, int (length s) - k)))"

definition zeros :: "int \<Rightarrow> string" where
  "zeros n = replicate (nat n) (CHR ''0'')"

definition format_f :: "string \<Rightarrow> int \<Rightarrow> string" where
  "format_f ds p =
     (if p \<le> 0 then ''0.'' @ zeros (- p) @ ds
      else if p \<ge> int (length ds) then ds @ zeros (p - int (length ds))
      else take (nat p) ds @ ''.'' @ drop (nat p) ds)"

definition format_e :: "string \<Rightarrow> int \<Rightarrow> string" where
  "format_e ds p =
     take 1 ds @ (if length ds > 1 then ''.'' @ drop 1 ds else [])
     @ ''e'' @ (if p - 1 < 0 then ''-'' else ''+'') @ dec_digits \<bar>p - 1\<bar>"

text \<open>The encoder's float: plain between \<open>1e-6\<close> and \<open>1e21\<close>, exponent form outside, an error for the rest.\<close>

fun format_float :: "float64 \<Rightarrow> string option" where
  "format_float (Fin q) =
     Some (if q = 0 then ''0''
           else
             (case quotient_of \<bar>q\<bar> of
                (a, b) \<Rightarrow>
                  (case shortest a b of
                     (ds, p) \<Rightarrow>
                       (if q < 0 then ''-'' else [])
                       @ (if a * 10 ^ 6 < b \<or> a \<ge> b * 10 ^ 21 then format_e ds p else format_f ds p))))"
| "format_float _ = None"

section \<open>Strings\<close>

definition hex_digit :: "int \<Rightarrow> char" where
  "hex_digit n = char_of (if n < 10 then 48 + n else 87 + n)"

definition escape_rune :: "rune \<Rightarrow> string" where
  "escape_rune r =
     (if r = 92 then [CHR 0x5C, CHR 0x5C]
      else if r = 34 then [CHR 0x5C, CHR 0x22]
      else if r = 8 then CHR 0x5C # ''b''
      else if r = 12 then CHR 0x5C # ''f''
      else if r = 10 then CHR 0x5C # ''n''
      else if r = 13 then CHR 0x5C # ''r''
      else if r = 9 then CHR 0x5C # ''t''
      else if r < 32 then CHR 0x5C # ''u00'' @ [hex_digit (r div 16), hex_digit (r mod 16)]
      else if r = 8232 then CHR 0x5C # ''u2028''
      else if r = 8233 then CHR 0x5C # ''u2029''
      else encode_rune r)"

text \<open>The rune loop of the encoder: a byte of an invalid sequence becomes an escaped U+FFFD.\<close>

function escape_string :: "string \<Rightarrow> string" where
  "escape_string s =
     (if s = [] then []
      else (case decode_rune s of
              (r, w) \<Rightarrow> (if r = RuneError \<and> w = 1 then CHR 0x5C # ''ufffd'' else escape_rune r)
                        @ escape_string (drop w s)))"
  by pat_completeness auto
termination
proof (relation "measure length", goal_cases)
  case (2 s x y)
  then show ?case using decode_rune_width_pos [of s] by (cases s) (auto simp: prod_eq_iff)
qed simp

declare escape_string.simps [simp del]

definition encodeString :: "string \<Rightarrow> string" where
  "encodeString s = [CHR 0x22] @ escape_string s @ [CHR 0x22]"

section \<open>Trees\<close>

datatype json =
    JNull | JBool bool | JString string | JNumber string | JArray "json list"
  | JObject "(string \<times> json) list"

fun join :: "string list \<Rightarrow> string" where
  "join [] = []"
| "join [x] = x"
| "join (x # y # ys) = x @ '','' @ join (y # ys)"

definition sort_fields :: "(string \<times> string) list \<Rightarrow> (string \<times> string) list" where
  "sort_fields = go_sort (\<lambda>x y. str_less (fst x) (fst y))"

text \<open>The object case sorts the keys and writes each with its value; here the values are written first.\<close>

fun writeCanonical :: "json \<Rightarrow> string" where
  "writeCanonical JNull = ''null''"
| "writeCanonical (JBool b) = (if b then ''true'' else ''false'')"
| "writeCanonical (JString s) = encodeString s"
| "writeCanonical (JNumber n) = n"
| "writeCanonical (JArray vs) = ''['' @ join (map writeCanonical vs) @ '']''"
| "writeCanonical (JObject fs) =
     ''{'' @ join (map (\<lambda>(k, v). encodeString k @ '':'' @ v)
                    (sort_fields (map (\<lambda>(k, v). (k, writeCanonical v)) fs))) @ ''}''"

section \<open>The signed payload\<close>

record canonicalSignedPayload =
  sp_RuleRefs :: "RuleRef list"
  sp_ThresholdRefs :: "ThresholdRef list"
  sp_RefactorWeights :: RefactorWeights

text \<open>Encoding replaces the bytes of invalid sequences.\<close>

definition sanitize :: "string \<Rightarrow> string" where
  "sanitize s = concat (map encode_rune (runes s))"

definition tree_RuleRef :: "RuleRef \<Rightarrow> json" where
  "tree_RuleRef r =
     JObject [(''rule_id'', JString (sanitize (rr_RuleID r))), (''version'', JNumber (format_int (rr_Version r)))]"

definition tree_ThresholdRef :: "(uuid \<Rightarrow> string) \<Rightarrow> ThresholdRef \<Rightarrow> json" where
  "tree_ThresholdRef uuid_String t = JObject [(''threshold_id'', JString (uuid_String (tr_ThresholdID t)))]"

definition tree_RefactorWeights :: "RefactorWeights \<Rightarrow> json option" where
  "tree_RefactorWeights w =
     (case (format_float (Alpha w), format_float (Beta w), format_float (Gamma w), format_float (Delta w)) of
        (Some a, Some b, Some c, Some d) \<Rightarrow>
          Some (JObject
            ([(''alpha'', JNumber a), (''beta'', JNumber b), (''gamma'', JNumber c), (''delta'', JNumber d),
              (''effort_model_version'', JString (sanitize (EffortModelVersion w))),
              (''window_days'', JNumber (format_int (WindowDays w)))]
             @ (case FreshnessWindowSeconds w of
                  None \<Rightarrow> [] | Some n \<Rightarrow> [(''freshness_window_seconds'', JNumber (format_int n))])
             @ (if TopN w = 0 then [] else [(''top_n'', JNumber (format_int (TopN w)))])))
      | _ \<Rightarrow> None)"

definition canonicalJSON :: "(uuid \<Rightarrow> string) \<Rightarrow> canonicalSignedPayload \<Rightarrow> string option" where
  "canonicalJSON uuid_String p =
     map_option (\<lambda>w. writeCanonical (JObject
         [(''rule_refs'', JArray (map tree_RuleRef (sp_RuleRefs p))),
          (''threshold_refs'', JArray (map (tree_ThresholdRef uuid_String) (sp_ThresholdRefs p))),
          (''refactor_weights'', w)]))
       (tree_RefactorWeights (sp_RefactorWeights p))"

definition finite_weights :: "RefactorWeights \<Rightarrow> bool" where
  "finite_weights w \<longleftrightarrow> (\<exists>a b c d. Alpha w = Fin a \<and> Beta w = Fin b \<and> Gamma w = Fin c \<and> Delta w = Fin d)"

lemma format_float_None [simp]: "format_float x = None \<longleftrightarrow> (\<forall>q. x \<noteq> Fin q)"
  by (cases x) auto

lemma canonicalJSON_Some: "(\<exists>s. canonicalJSON us p = Some s) \<longleftrightarrow> finite_weights (sp_RefactorWeights p)"
proof -
  have "(\<exists>s. format_float x = Some s) \<longleftrightarrow> (\<exists>q. x = Fin q)" for x
    using format_float_None [of x] by (cases "format_float x") auto
  then show ?thesis
    by (auto simp: canonicalJSON_def tree_RefactorWeights_def finite_weights_def split: option.splits)
qed

section \<open>Properties\<close>

lemma str_less_neg_trans: "\<not> str_less b a \<Longrightarrow> \<not> str_less c b \<Longrightarrow> \<not> str_less c a"
  using str_less_total [of a b] str_less_trans [of c a b] by (cases "a = b") auto

lemma sort_fields_perm:
  assumes "distinct (map fst xs)" and "mset xs = mset ys"
  shows "sort_fields xs = sort_fields ys"
  unfolding sort_fields_def
proof (rule go_sort_perm)
  show "transp (\<lambda>x y. str_less (fst x) (fst y))" by (auto intro: transpI str_less_trans)
  show "asymp (\<lambda>x y. str_less (fst x) (fst y))" by (auto intro: asympI dest: str_less_asym)
  show "str_less (fst x) (fst y) \<or> str_less (fst y) (fst x)"
    if "x \<in> set xs" "y \<in> set xs" "x \<noteq> y" for x y
    using that assms(1) str_less_total [of "fst x" "fst y"] by (auto simp: distinct_map dest: inj_onD)
qed (use assms str_less_neg_trans in auto)

text \<open>
  The canonical form of an object does not depend on the order of its fields: two
  objects with the same fields, keys distinct, have the same bytes.
\<close>
theorem writeCanonical_field_order:
  assumes "distinct (map fst fs)" and "mset fs = mset gs"
  shows "writeCanonical (JObject fs) = writeCanonical (JObject gs)"
proof -
  have "fst \<circ> (\<lambda>(k :: string, v). (k, writeCanonical v)) = fst" by auto
  then have "sort_fields (map (\<lambda>(k, v). (k, writeCanonical v)) fs) = sort_fields (map (\<lambda>(k, v). (k, writeCanonical v)) gs)"
    using assms by (intro sort_fields_perm) simp_all
  then show ?thesis by simp
qed

theorem writeCanonical_field_order_witness:
  "writeCanonical (JObject [(''b'', JNumber ''1''), (''a'', JBool True)])
     = writeCanonical (JObject [(''a'', JBool True), (''b'', JNumber ''1'')])"
  by (rule writeCanonical_field_order) simp_all

end
