(* ===== verification/Policy_Keys.thy ===== *)
theory Policy_Keys
  imports Prelude Go_Strings
begin

text \<open>
  The signing-key manager (package \<^verbatim>\<open>policy/keys\<close>): key records with their validity
  windows, the append-only key store, rotation, signing and verification. The key-management
  service and the Ed25519 and SHA-256 primitives are parameters: \<open>kms\<close> answers a signing
  request, \<open>ed_verify\<close> checks a signature and \<open>fp\<close> is the hexadecimal digest of a public
  key. A clock reading is an argument of each call. The manager holds its mutex over each
  mutation and reads its cache under it, so each method is one step.
\<close>

section \<open>Types\<close>

datatype keys_error =
    ErrNoActiveKey | ErrUnknownKey | ErrSignatureMismatch | ErrRotationTooSoon | ErrInvalidPublicKey
  | ErrKMSUnavailable | ErrDuplicateKey | ErrKeysContext | ErrKeysOther

definition Ed25519PublicKeySize :: nat where
  "Ed25519PublicKeySize = 32"

definition Ed25519SignatureSize :: nat where
  "Ed25519SignatureSize = 64"

text \<open>The instants 9999-12-31T23:59:59Z and 0001-01-01T00:00:00Z, in nanoseconds since 1970.\<close>

definition SentinelValidUntil :: time where
  "SentinelValidUntil = 253402300799 * 10 ^ 9"

definition time_Zero :: time where
  "time_Zero = - (62135596800 * 10 ^ 9)"

record KeyRecord =
  KeyID :: uuid
  Fingerprint :: string
  PublicKey :: string
  Handle :: string
  ValidFrom :: time
  Algorithm :: string

record ActiveKeyView =
  ak_KeyID :: uuid
  ak_Fingerprint :: string
  ak_ValidFrom :: time
  ak_ValidUntil :: time

text \<open>The key-management service: probing it, generating a key pair, signing under a handle.\<close>

record KMS =
  Ping :: "ctx \<Rightarrow> keys_error option"
  Generate :: "ctx \<Rightarrow> keys_error + string \<times> string"
  kms_Sign :: "ctx \<Rightarrow> string \<Rightarrow> string \<Rightarrow> keys_error + string"

type_synonym ed_verify = "string \<Rightarrow> string \<Rightarrow> string \<Rightarrow> bool"
type_synonym fingerprint = "string \<Rightarrow> string"

definition verifyAgainstPublic :: "ed_verify \<Rightarrow> string \<Rightarrow> string \<Rightarrow> string \<Rightarrow> keys_error option" where
  "verifyAgainstPublic ed public payload signature =
     (if length public \<noteq> Ed25519PublicKeySize then Some ErrInvalidPublicKey
      else if length signature \<noteq> Ed25519SignatureSize then Some ErrSignatureMismatch
      else if \<not> ed public payload signature then Some ErrSignatureMismatch
      else None)"

section \<open>Store\<close>

definition record_before :: "KeyRecord \<Rightarrow> KeyRecord \<Rightarrow> bool" where
  "record_before a b =
     (if ValidFrom a = ValidFrom b then uuidCompare (KeyID a) (KeyID b) < 0 else ValidFrom a < ValidFrom b)"

definition sortRecords :: "KeyRecord list \<Rightarrow> KeyRecord list" where
  "sortRecords rows = go_sort record_before rows"

definition lower_hex :: "char \<Rightarrow> bool" where
  "lower_hex c \<longleftrightarrow> \<not> ((of_char c < (48 :: nat) \<or> of_char c > (57 :: nat)) \<and> (of_char c < (97 :: nat) \<or> of_char c > (102 :: nat)))"

definition validateRecord :: "fingerprint \<Rightarrow> KeyRecord \<Rightarrow> keys_error option" where
  "validateRecord fp r =
     (if KeyID r = uuid_Nil then Some ErrKeysOther
      else if Algorithm r = [] then Some ErrKeysOther
      else if Algorithm r \<noteq> ''ed25519'' then Some ErrKeysOther
      else if length (PublicKey r) \<noteq> Ed25519PublicKeySize then Some ErrInvalidPublicKey
      else if Handle r = [] then Some ErrKeysOther
      else if length (Fingerprint r) \<noteq> 64 then Some ErrKeysOther
      else if \<not> list_all lower_hex (Fingerprint r) then Some ErrKeysOther
      else if fp (PublicKey r) \<noteq> Fingerprint r then Some ErrKeysOther
      else if ValidFrom r = time_Zero then Some ErrKeysOther
      else None)"

text \<open>The rows of the key store; only \<open>keys_Insert\<close> writes them.\<close>

definition keys_Insert :: "fingerprint \<Rightarrow> ctx \<Rightarrow> KeyRecord \<Rightarrow> KeyRecord list \<Rightarrow> keys_error + KeyRecord list" where
  "keys_Insert fp c r rows =
     (case c of
        Cancelled \<Rightarrow> Inl ErrKeysContext
      | Live \<Rightarrow>
          (case validateRecord fp r of
             Some e \<Rightarrow> Inl e
           | None \<Rightarrow>
               if list_ex (\<lambda>e. KeyID e = KeyID r \<or> Fingerprint e = Fingerprint r) rows then Inl ErrDuplicateKey
               else Inr (sortRecords (rows @ [r]))))"

definition keys_List :: "ctx \<Rightarrow> KeyRecord list \<Rightarrow> keys_error + KeyRecord list" where
  "keys_List c rows = (case c of Cancelled \<Rightarrow> Inl ErrKeysContext | Live \<Rightarrow> Inr rows)"

section \<open>Manager\<close>

record Manager =
  overlap :: time
  key_cache :: "KeyRecord list"

definition DefaultOverlap :: time where
  "DefaultOverlap = 24 * 3600 * 10 ^ 9"

definition NewManager :: "time \<Rightarrow> keys_error + Manager" where
  "NewManager ov =
     (if ov < 0 then Inl ErrKeysOther
      else Inr \<lparr>overlap = (if ov = 0 then DefaultOverlap else ov), key_cache = []\<rparr>)"

definition Load :: "ctx \<Rightarrow> KeyRecord list \<Rightarrow> Manager \<Rightarrow> keys_error + Manager" where
  "Load c rows m = bindE (keys_List c rows) (\<lambda>rs. Inr (m\<lparr>key_cache := sortRecords rs\<rparr>))"

definition newestRecord :: "KeyRecord list \<Rightarrow> KeyRecord option" where
  "newestRecord cs = (if cs = [] then None else Some (last cs))"

definition computeValidUntil :: "KeyRecord list \<Rightarrow> nat \<Rightarrow> time \<Rightarrow> time" where
  "computeValidUntil cs i ov = (if i + 1 < length cs then ValidFrom (cs ! (i + 1)) + ov else SentinelValidUntil)"

text \<open>The loop runs from the newest record down.\<close>

definition signingKey :: "KeyRecord list \<Rightarrow> time \<Rightarrow> KeyRecord option" where
  "signingKey cs now = find (\<lambda>r. \<not> ValidFrom r > now) (rev cs)"

text \<open>
  A rotation reads the clock, asks the service for a key pair and the generator for an
  identifier, inserts the row and refreshes the cache. The result is the row with the new
  identifier. The context may be cancelled between the insert and the listing that follows
  it: \<open>c\<close> is its state up to the insert and \<open>cl\<close> its state at the listing. A listing that
  fails after the insert leaves the row in the store and the cache as it was.
\<close>

definition rotate ::
  "fingerprint \<Rightarrow> KMS \<Rightarrow> ctx \<Rightarrow> ctx \<Rightarrow> time \<Rightarrow> uuid option \<Rightarrow> bool \<Rightarrow> Manager \<Rightarrow> KeyRecord list
   \<Rightarrow> (keys_error + KeyRecord) \<times> Manager \<times> KeyRecord list" where
  "rotate fp kms c cl now gen force m rows =
     (if \<not> force \<and> (case newestRecord (key_cache m) of None \<Rightarrow> False | Some n \<Rightarrow> now < ValidFrom n + overlap m)
      then (Inl ErrRotationTooSoon, m, rows)
      else
        (case Generate kms c of
           Inl e \<Rightarrow> (Inl e, m, rows)
         | Inr (pub, handle) \<Rightarrow>
             if length pub \<noteq> Ed25519PublicKeySize then (Inl ErrInvalidPublicKey, m, rows)
             else
               (case gen of
                  None \<Rightarrow> (Inl ErrKeysOther, m, rows)
                | Some i \<Rightarrow>
                    (let r = \<lparr>KeyID = i, Fingerprint = fp pub, PublicKey = pub, Handle = handle, ValidFrom = now,
                              Algorithm = ''ed25519''\<rparr> in
                     case keys_Insert fp c r rows of
                       Inl e \<Rightarrow> (Inl e, m, rows)
                     | Inr rows' \<Rightarrow>
                         (case keys_List cl rows' of
                            Inl e \<Rightarrow> (Inl e, m, rows')
                          | Inr rs \<Rightarrow>
                              (Inr (case find (\<lambda>x. KeyID x = i) (sortRecords rs) of Some x \<Rightarrow> x | None \<Rightarrow> r),
                               m\<lparr>key_cache := sortRecords rs\<rparr>, rows'))))))"

definition Rotate ::
  "fingerprint \<Rightarrow> KMS \<Rightarrow> ctx \<Rightarrow> ctx \<Rightarrow> time \<Rightarrow> uuid option \<Rightarrow> Manager \<Rightarrow> KeyRecord list
   \<Rightarrow> (keys_error + KeyRecord) \<times> Manager \<times> KeyRecord list" where
  "Rotate fp kms c cl now gen m rows = rotate fp kms c cl now gen False m rows"

definition ForceRotate ::
  "fingerprint \<Rightarrow> KMS \<Rightarrow> ctx \<Rightarrow> ctx \<Rightarrow> time \<Rightarrow> uuid option \<Rightarrow> Manager \<Rightarrow> KeyRecord list
   \<Rightarrow> (keys_error + KeyRecord) \<times> Manager \<times> KeyRecord list" where
  "ForceRotate fp kms c cl now gen m rows = rotate fp kms c cl now gen True m rows"

text \<open>The signature is checked against the record's public key before it is handed out.\<close>

definition sign_with :: "ed_verify \<Rightarrow> KMS \<Rightarrow> ctx \<Rightarrow> KeyRecord \<Rightarrow> string \<Rightarrow> keys_error + uuid \<times> string" where
  "sign_with ed kms c r payload =
     bindE (kms_Sign kms c (Handle r) payload) (\<lambda>sig.
       if length sig \<noteq> Ed25519SignatureSize then Inl ErrKeysOther
       else if verifyAgainstPublic ed (PublicKey r) payload sig \<noteq> None then Inl ErrKeysOther
       else Inr (KeyID r, sig))"

definition Manager_Sign :: "ed_verify \<Rightarrow> KMS \<Rightarrow> Manager \<Rightarrow> time \<Rightarrow> ctx \<Rightarrow> string \<Rightarrow> keys_error + uuid \<times> string" where
  "Manager_Sign ed kms m now c payload =
     (case signingKey (key_cache m) now of
        None \<Rightarrow> Inl ErrNoActiveKey
      | Some r \<Rightarrow> sign_with ed kms c r payload)"

definition SignActive ::
  "ed_verify \<Rightarrow> KMS \<Rightarrow> Manager \<Rightarrow> time \<Rightarrow> ctx \<Rightarrow> (uuid \<Rightarrow> keys_error + string) option \<Rightarrow> keys_error + uuid \<times> string" where
  "SignActive ed kms m now c build =
     (case c of
        Cancelled \<Rightarrow> Inl ErrKeysContext
      | Live \<Rightarrow>
          (case build of
             None \<Rightarrow> Inl ErrKeysOther
           | Some f \<Rightarrow>
               (case signingKey (key_cache m) now of
                  None \<Rightarrow> Inl ErrNoActiveKey
                | Some r \<Rightarrow>
                    bindE (f (KeyID r)) (\<lambda>payload.
                      if payload = [] then Inl ErrKeysOther else sign_with ed kms c r payload))))"

text \<open>The loops of the readers go over the cache by index, from the oldest record.\<close>

fun verify_scan :: "ed_verify \<Rightarrow> KeyRecord list \<Rightarrow> time \<Rightarrow> time \<Rightarrow> uuid \<Rightarrow> string \<Rightarrow> string \<Rightarrow> nat list \<Rightarrow> keys_error option" where
  "verify_scan ed cs ov now keyID payload sig [] = Some ErrUnknownKey"
| "verify_scan ed cs ov now keyID payload sig (i # is) =
     (if KeyID (cs ! i) \<noteq> keyID then verify_scan ed cs ov now keyID payload sig is
      else if now < ValidFrom (cs ! i) then Some ErrUnknownKey
      else if \<not> now < computeValidUntil cs i ov then Some ErrUnknownKey
      else verifyAgainstPublic ed (PublicKey (cs ! i)) payload sig)"

definition Verify :: "ed_verify \<Rightarrow> Manager \<Rightarrow> time \<Rightarrow> ctx \<Rightarrow> uuid \<Rightarrow> string \<Rightarrow> string \<Rightarrow> keys_error option" where
  "Verify ed m now c keyID payload sig =
     (case c of
        Cancelled \<Rightarrow> Some ErrKeysContext
      | Live \<Rightarrow> verify_scan ed (key_cache m) (overlap m) now keyID payload sig [0..<length (key_cache m)])"

fun verify_any_scan :: "ed_verify \<Rightarrow> KeyRecord list \<Rightarrow> time \<Rightarrow> time \<Rightarrow> string \<Rightarrow> string \<Rightarrow> nat list \<Rightarrow> keys_error + uuid" where
  "verify_any_scan ed cs ov now payload sig [] = Inl ErrUnknownKey"
| "verify_any_scan ed cs ov now payload sig (i # is) =
     (if now < ValidFrom (cs ! i) \<or> \<not> now < computeValidUntil cs i ov then verify_any_scan ed cs ov now payload sig is
      else if verifyAgainstPublic ed (PublicKey (cs ! i)) payload sig = None then Inr (KeyID (cs ! i))
      else verify_any_scan ed cs ov now payload sig is)"

definition Manager_VerifyAny :: "ed_verify \<Rightarrow> Manager \<Rightarrow> time \<Rightarrow> ctx \<Rightarrow> string \<Rightarrow> string \<Rightarrow> keys_error + uuid" where
  "Manager_VerifyAny ed m now c payload sig =
     (case c of
        Cancelled \<Rightarrow> Inl ErrKeysContext
      | Live \<Rightarrow>
          if length sig \<noteq> Ed25519SignatureSize then Inl ErrSignatureMismatch
          else verify_any_scan ed (key_cache m) (overlap m) now payload sig [0..<length (key_cache m)])"

definition view_before :: "ActiveKeyView \<Rightarrow> ActiveKeyView \<Rightarrow> bool" where
  "view_before a b =
     (if ak_ValidFrom a = ak_ValidFrom b then uuidCompare (ak_KeyID a) (ak_KeyID b) > 0
      else ak_ValidFrom a > ak_ValidFrom b)"

definition view_at :: "KeyRecord list \<Rightarrow> time \<Rightarrow> nat \<Rightarrow> ActiveKeyView" where
  "view_at cs ov i =
     \<lparr>ak_KeyID = KeyID (cs ! i), ak_Fingerprint = Fingerprint (cs ! i), ak_ValidFrom = ValidFrom (cs ! i),
      ak_ValidUntil = computeValidUntil cs i ov\<rparr>"

definition active_at :: "KeyRecord list \<Rightarrow> time \<Rightarrow> time \<Rightarrow> nat \<Rightarrow> bool" where
  "active_at cs ov now i \<longleftrightarrow> \<not> now < ValidFrom (cs ! i) \<and> now < computeValidUntil cs i ov"

definition Manager_ListActive :: "Manager \<Rightarrow> time \<Rightarrow> ctx \<Rightarrow> keys_error + ActiveKeyView list" where
  "Manager_ListActive m now c =
     (case c of
        Cancelled \<Rightarrow> Inl ErrKeysContext
      | Live \<Rightarrow>
          Inr (go_sort view_before
            (map (view_at (key_cache m) (overlap m))
              (filter (active_at (key_cache m) (overlap m) now) [0..<length (key_cache m)]))))"

text \<open>
  Bootstrap probes the service, loads the cache and mints a first key when asked to and the
  cache is empty; its health check probes again and asks for an active key.
\<close>

definition Bootstrap ::
  "fingerprint \<Rightarrow> KMS \<Rightarrow> ctx \<Rightarrow> ctx \<Rightarrow> time \<Rightarrow> uuid option \<Rightarrow> time \<Rightarrow> bool \<Rightarrow> KeyRecord list
   \<Rightarrow> (keys_error + Manager) \<times> KeyRecord list" where
  "Bootstrap fp kms c cl now gen ov mintFirstKey rows =
     (case NewManager ov of
        Inl e \<Rightarrow> (Inl e, rows)
      | Inr m \<Rightarrow>
          (case Ping kms c of
             Some _ \<Rightarrow> (Inl ErrKMSUnavailable, rows)
           | None \<Rightarrow>
               (case Load c rows m of
                  Inl e \<Rightarrow> (Inl e, rows)
                | Inr m1 \<Rightarrow>
                    if mintFirstKey \<and> key_cache m1 = []
                    then (case ForceRotate fp kms c cl now gen m1 rows of
                            (Inl e, _, rows') \<Rightarrow> (Inl e, rows')
                          | (Inr _, m2, rows') \<Rightarrow> (Inr m2, rows'))
                    else (Inr m1, rows))))"

definition health_check :: "KMS \<Rightarrow> Manager \<Rightarrow> time \<Rightarrow> ctx \<Rightarrow> keys_error option" where
  "health_check kms m now c =
     (case Ping kms c of
        Some e \<Rightarrow> Some e
      | None \<Rightarrow>
          (case Manager_ListActive m now c of
             Inl e \<Rightarrow> Some e
           | Inr vs \<Rightarrow> if vs = [] then Some ErrKeysOther else None))"

section \<open>Order of the records\<close>

lemma record_before_alt:
  "record_before a b \<longleftrightarrow> ValidFrom a < ValidFrom b \<or> (ValidFrom a = ValidFrom b \<and> KeyID a < KeyID b)"
  by (auto simp: record_before_def)

lemma record_before_props:
  "transp record_before" "asymp record_before"
  "\<not> record_before b a \<Longrightarrow> \<not> record_before d b \<Longrightarrow> \<not> record_before d a"
  by (auto simp: record_before_alt intro!: transpI asympI)

text \<open>Rows as the store keeps them.\<close>

definition rows_ok :: "KeyRecord list \<Rightarrow> bool" where
  "rows_ok rows \<longleftrightarrow> sorted_wrt record_before rows \<and> distinct (map KeyID rows)"

lemma sorted_records:
  assumes "distinct (map KeyID rows)"
  shows "rows_ok (sortRecords rows)"
proof -
  have "mset (map KeyID (sortRecords rows)) = mset (map KeyID rows)" by (simp add: sortRecords_def)
  then have d: "distinct (map KeyID (sortRecords rows))" using assms mset_eq_imp_distinct_iff by blast
  have "sorted_wrt (\<lambda>x y. \<not> record_before y x) (sortRecords rows)"
    unfolding sortRecords_def using record_before_props by (intro go_sort_sorted)
  moreover have "record_before x y" if "x \<noteq> y" "KeyID x \<noteq> KeyID y" "\<not> record_before y x" for x y
    using that by (auto simp: record_before_alt)
  moreover have "KeyID (sortRecords rows ! i) \<noteq> KeyID (sortRecords rows ! j)" if "i < j" "j < length (sortRecords rows)" for i j
    using nth_eq_iff_index_eq [OF d, of i j] that by simp
  ultimately have "sorted_wrt record_before (sortRecords rows)"
    unfolding sorted_wrt_iff_nth_less by metis
  with d show ?thesis by (simp add: rows_ok_def)
qed

lemma rows_ok_unique:
  "rows_ok xs \<Longrightarrow> rows_ok ys \<Longrightarrow> set xs = set ys \<Longrightarrow> xs = ys"
proof (rule sorted_wrt_unique [of record_before])
  assume a: "rows_ok xs" "rows_ok ys" "set xs = set ys"
  then have "distinct xs" "distinct ys" by (auto simp: rows_ok_def distinct_map)
  with a(3) show "mset xs = mset ys" by (simp add: set_eq_iff_mset_eq_distinct)
qed (auto simp: rows_ok_def record_before_alt)

lemma sortRecords_id: "rows_ok rows \<Longrightarrow> sortRecords rows = rows"
  using sorted_records [of rows] rows_ok_unique [of "sortRecords rows" rows]
  by (simp add: rows_ok_def sortRecords_def)

lemma keys_Insert_Inr:
  assumes "keys_Insert fp c r rows = Inr rows'" and "rows_ok rows"
  shows "c = Live" "validateRecord fp r = None" "set rows' = insert r (set rows)" "rows_ok rows'"
    "KeyID r \<notin> KeyID ` set rows"
proof -
  have r': "rows' = sortRecords (rows @ [r])" and new: "KeyID r \<notin> KeyID ` set rows"
    and c: "c = Live" and v: "validateRecord fp r = None"
    using assms(1) by (auto simp: keys_Insert_def list_ex_iff split: ctx.splits option.splits if_splits)
  then show "c = Live" "validateRecord fp r = None" "KeyID r \<notin> KeyID ` set rows" by simp_all
  show "set rows' = insert r (set rows)" by (simp add: r' sortRecords_def)
  show "rows_ok rows'" unfolding r' using assms(2) new by (intro sorted_records) (auto simp: rows_ok_def)
qed

text \<open>
  The three outcomes of a rotation for the state: nothing changes; one row is added and the
  cache is the store; or one row is added, the listing fails and the cache stays behind.
\<close>

lemma rotate_cases:
  assumes "rotate fp kms c cl now gen force m rows = (res, m', rows')" and "rows_ok rows"
  obtains (Refused) e where "res = Inl e" "m' = m" "rows' = rows"
  | (Stored) r where "ValidFrom r = now" "validateRecord fp r = None" "set rows' = insert r (set rows)"
      "rows_ok rows'" "gen = Some (KeyID r)" "KeyID r \<notin> KeyID ` set rows"
      "\<not> force \<Longrightarrow> key_cache m \<noteq> [] \<Longrightarrow> ValidFrom (last (key_cache m)) + overlap m \<le> now"
      "res = Inr r \<and> m' = m\<lparr>key_cache := rows'\<rparr> \<and> cl = Live
       \<or> res = Inl ErrKeysContext \<and> m' = m \<and> cl = Cancelled"
proof (cases "\<exists>e. res = Inl e \<and> m' = m \<and> rows' = rows")
  case True
  then show ?thesis using Refused by blast
next
  case False
  then obtain pub handle i where g: "Generate kms c = Inr (pub, handle)" "gen = Some i" "length pub = Ed25519PublicKeySize"
    and soon: "\<not> (\<not> force \<and> (case newestRecord (key_cache m) of None \<Rightarrow> False | Some n \<Rightarrow> now < ValidFrom n + overlap m))"
    using assms(1) by (auto simp: rotate_def Let_def split: if_splits sum.splits option.splits prod.splits)
  define r where "r = \<lparr>KeyID = i, Fingerprint = fp pub, PublicKey = pub, Handle = handle, ValidFrom = now,
      Algorithm = ''ed25519''\<rparr>"
  obtain rs where ins: "keys_Insert fp c r rows = Inr rs"
    using assms(1) False g soon unfolding rotate_def
    by (auto simp: Let_def r_def split: if_splits sum.splits option.splits)
  note k = keys_Insert_Inr [OF ins assms(2)]
  have "find (\<lambda>x. KeyID x = i) rs = Some r"
  proof -
    have "r \<in> set rs" "KeyID r = i" using k(3) by (simp_all add: r_def)
    then obtain y where y: "find (\<lambda>x. KeyID x = i) rs = Some y"
      by (cases "find (\<lambda>x. KeyID x = i) rs") (auto simp: find_None_iff)
    then have "y \<in> set rs" "KeyID y = i" by (auto simp: find_Some_iff)
    then have "y = r" using k(4) \<open>r \<in> set rs\<close> \<open>KeyID r = i\<close>
      unfolding rows_ok_def by (metis distinct_map inj_onD)
    with y show ?thesis by simp
  qed
  with assms(1) g soon ins sortRecords_id [OF k(4)]
  have out: "rows' = rs" "res = Inr r \<and> m' = m\<lparr>key_cache := rs\<rparr> \<and> cl = Live
      \<or> res = Inl ErrKeysContext \<and> m' = m \<and> cl = Cancelled"
    unfolding rotate_def
    by (auto simp: Let_def r_def [symmetric] keys_List_def split: if_splits ctx.splits)
  from out k soon g(2) show ?thesis
    by (intro Stored [of r]) (auto simp: r_def newestRecord_def split: if_splits)
qed


section \<open>Histories\<close>

text \<open>
  What may happen to a manager and the key table from time \<open>t\<close> on: rotations by this
  manager or by a manager of another replica, with clock readings not before \<open>t\<close>, and
  reloads of the cache.
\<close>

inductive later :: "fingerprint \<Rightarrow> time \<Rightarrow> Manager \<times> KeyRecord list \<Rightarrow> Manager \<times> KeyRecord list \<Rightarrow> bool"
  for fp t a where
  start: "later fp t a a"
| own: "later fp t a (m, rows) \<Longrightarrow> t \<le> now \<Longrightarrow> rotate fp kms c cl now gen force m rows = (res, m', rows') \<Longrightarrow>
     later fp t a (m', rows')"
| other: "later fp t a (m, rows) \<Longrightarrow> t \<le> now \<Longrightarrow> rotate fp kms c cl now gen force m2 rows = (res, m2', rows') \<Longrightarrow>
     later fp t a (m, rows')"
| reload: "later fp t a (m, rows) \<Longrightarrow> Load c rows m = Inr m' \<Longrightarrow> later fp t a (m', rows)"

definition manager_ok :: "Manager \<times> KeyRecord list \<Rightarrow> bool" where
  "manager_ok a \<longleftrightarrow> rows_ok (snd a) \<and> rows_ok (key_cache (fst a)) \<and> set (key_cache (fst a)) \<subseteq> set (snd a)"

text \<open>The state grows: no row leaves the table or the cache, and new rows are not dated before \<open>t\<close>.\<close>

definition grown :: "time \<Rightarrow> Manager \<times> KeyRecord list \<Rightarrow> Manager \<times> KeyRecord list \<Rightarrow> bool" where
  "grown t a b \<longleftrightarrow>
     manager_ok b \<and> overlap (fst b) = overlap (fst a) \<and> set (key_cache (fst a)) \<subseteq> set (key_cache (fst b))
     \<and> set (snd a) \<subseteq> set (snd b) \<and> (\<forall>r \<in> set (snd b) - set (snd a). t \<le> ValidFrom r)"

lemma later_grown:
  assumes "later fp t a b" and "manager_ok a"
  shows "grown t a b"
  using assms(1)
proof (induction rule: later.induct)
  case start
  then show ?case using assms(2) by (simp add: grown_def)
next
  case (own m rows now kms c cl gen force res m' rows')
  then have ok: "rows_ok rows" by (simp add: grown_def manager_ok_def)
  from own.hyps(3) ok show ?case
  proof (cases rule: rotate_cases)
    case (Stored r)
    with own.IH own.hyps(2) show ?thesis by (auto simp: grown_def manager_ok_def)
  qed (use own.IH in simp)
next
  case (other m rows now kms c cl gen force m2 res m2' rows')
  then have ok: "rows_ok rows" by (simp add: grown_def manager_ok_def)
  from other.hyps(3) ok show ?case
  proof (cases rule: rotate_cases)
    case (Stored r)
    with other.IH other.hyps(2) show ?thesis by (auto simp: grown_def manager_ok_def)
  qed (use other.IH in simp)
next
  case (reload m rows c m')
  then have "m' = m\<lparr>key_cache := rows\<rparr>"
    by (auto simp: Load_def keys_List_def grown_def manager_ok_def sortRecords_id split: ctx.splits)
  with reload.IH show ?case by (auto simp: grown_def manager_ok_def)
qed

section \<open>Validity windows\<close>

lemma computeValidUntil_ge:
  assumes "rows_ok cs" and "i < length cs" and "\<And>r. r \<in> set cs \<Longrightarrow> record_before (cs ! i) r \<Longrightarrow> t \<le> ValidFrom r"
    and "t + ov \<le> SentinelValidUntil"
  shows "t + ov \<le> computeValidUntil cs i ov"
proof (cases "i + 1 < length cs")
  case True
  then have "record_before (cs ! i) (cs ! (i + 1))"
    using assms(1) by (auto simp: rows_ok_def sorted_wrt_iff_nth_less)
  with assms(3) [of "cs ! (i + 1)"] True show ?thesis by (simp add: computeValidUntil_def)
next
  case False
  with assms(4) show ?thesis by (simp add: computeValidUntil_def)
qed

lemma signingKey_Some:
  assumes "rows_ok cs" and "signingKey cs now = Some r"
  shows "r \<in> set cs" "ValidFrom r \<le> now" "\<And>x. x \<in> set cs \<Longrightarrow> record_before r x \<Longrightarrow> now < ValidFrom x"
proof -
  from assms(2) obtain j where j: "j < length cs" "rev cs ! j = r" "ValidFrom r \<le> now"
    "\<And>k. k < j \<Longrightarrow> now < ValidFrom (rev cs ! k)"
    unfolding signingKey_def find_Some_iff by fastforce
  then show "r \<in> set cs" "ValidFrom r \<le> now" by (metis length_rev nth_mem set_rev, simp)
  fix x assume x: "x \<in> set cs" "record_before r x"
  then obtain k where k: "k < length cs" "rev cs ! k = x" by (metis in_set_conv_nth length_rev set_rev)
  have "sorted_wrt (\<lambda>a b. record_before b a) (rev cs)" using assms(1) by (simp add: rows_ok_def sorted_wrt_rev)
  then have "record_before (rev cs ! b) (rev cs ! a)" if "a < b" "b < length cs" for a b
    using that by (simp add: sorted_wrt_iff_nth_less)
  then have "k < j"
    using x(2) j(1,2) k by (metis asympD linorder_neqE_nat record_before_props(2))
  with j(4) k(2) show "now < ValidFrom x" by blast
qed

lemma verify_scan_hit:
  assumes "distinct (map KeyID cs)" and "i < length cs" and "\<not> now < ValidFrom (cs ! i)" and "now < computeValidUntil cs i ov"
    and "i \<in> set is" and "\<forall>j \<in> set is. j < length cs"
  shows "verify_scan ed cs ov now (KeyID (cs ! i)) payload sig is = verifyAgainstPublic ed (PublicKey (cs ! i)) payload sig"
  using assms(5,6)
proof (induction "is")
  case (Cons j js)
  show ?case
  proof (cases "j = i")
    case True
    with assms show ?thesis by simp
  next
    case False
    then have "KeyID (cs ! j) \<noteq> KeyID (cs ! i)"
      using assms(1,2) Cons.prems(2) nth_eq_iff_index_eq [of "map KeyID cs" j i] by simp
    with Cons False show ?thesis by simp
  qed
qed simp

lemma verify_any_scan_hit:
  assumes "i \<in> set is" and "\<not> now < ValidFrom (cs ! i)" and "now < computeValidUntil cs i ov"
    and "verifyAgainstPublic ed (PublicKey (cs ! i)) payload sig = None"
  shows "\<exists>k. verify_any_scan ed cs ov now payload sig is = Inr k"
  using assms by (induction "is") auto

text \<open>The cache holds every row that entered service by \<open>t - d\<close>: it is at most \<open>d\<close> out of date.\<close>

definition stale_by :: "time \<Rightarrow> time \<Rightarrow> Manager \<times> KeyRecord list \<Rightarrow> bool" where
  "stale_by d t a \<longleftrightarrow> 0 \<le> d \<and> (\<forall>r \<in> set (snd a). ValidFrom r \<le> t - d \<longrightarrow> r \<in> set (key_cache (fst a)))"

lemma sign_window:
  assumes ok: "manager_ok (m, rows)" and stale: "stale_by d t (m, rows)"
    and sign: "Manager_Sign ed kms m t c payload = Inr (k, sig)"
    and grow: "grown t (m, rows) (m', rows')"
    and now: "t \<le> now" "now < t - d + overlap m" "t - d + overlap m \<le> SentinelValidUntil"
  shows "Verify ed m' now Live k payload sig = None \<and> (\<exists>k'. Manager_VerifyAny ed m' now Live payload sig = Inr k')"
proof -
  obtain r where r: "signingKey (key_cache m) t = Some r" "k = KeyID r" "length sig = Ed25519SignatureSize"
    "verifyAgainstPublic ed (PublicKey r) payload sig = None"
    using sign by (auto simp: Manager_Sign_def sign_with_def bindE_Inr split: option.splits if_splits)
  have okc: "rows_ok (key_cache m)" and okc': "rows_ok (key_cache m')" and sub: "set (key_cache m') \<subseteq> set rows'"
    using ok grow by (simp_all add: manager_ok_def grown_def)
  note sk = signingKey_Some [OF okc r(1)]
  have "r \<in> set (key_cache m')" using sk(1) grow by (auto simp: grown_def)
  then obtain i where i: "i < length (key_cache m')" "key_cache m' ! i = r" by (auto simp: in_set_conv_nth)
  have "t - d \<le> ValidFrom x" if x: "x \<in> set (key_cache m')" "record_before (key_cache m' ! i) x" for x
  proof (cases "x \<in> set (key_cache m)")
    case True
    with sk(3) x(2) i(2) stale show ?thesis by (force simp: stale_by_def)
  next
    case False
    have "t \<le> ValidFrom x" if "x \<notin> set rows" using that x(1) sub grow by (auto simp: grown_def)
    moreover have "\<not> ValidFrom x \<le> t - d" if "x \<in> set rows" using that False stale by (auto simp: stale_by_def)
    moreover have "0 \<le> d" using stale by (simp add: stale_by_def)
    ultimately show ?thesis by fastforce
  qed
  then have "t - d + overlap m \<le> computeValidUntil (key_cache m') i (overlap m)"
    using now(3) by (intro computeValidUntil_ge [OF okc' i(1)]) auto
  moreover have "overlap m' = overlap m" using grow by (simp add: grown_def)
  ultimately have until: "now < computeValidUntil (key_cache m') i (overlap m')" using now(2) by simp
  have from_t: "\<not> now < ValidFrom (key_cache m' ! i)" using sk(2) now(1) i(2) by simp
  have "distinct (map KeyID (key_cache m'))" using okc' by (simp add: rows_ok_def)
  from verify_scan_hit [OF this i(1) from_t until, of "[0..<length (key_cache m')]"]
    verify_any_scan_hit [of i "[0..<length (key_cache m')]" now, OF _ from_t until] i r(2,3,4)
  show ?thesis by (simp add: Verify_def Manager_VerifyAny_def)
qed


section \<open>Active keys\<close>

lemma active_at_unique_successor:
  assumes "active_at cs ov now i" and "i + 1 < length cs"
  shows "now < ValidFrom (cs ! (i + 1)) + ov"
  using assms by (simp add: active_at_def computeValidUntil_def)

text \<open>Successive records are at least the overlap apart.\<close>

definition spaced :: "time \<Rightarrow> KeyRecord list \<Rightarrow> bool" where
  "spaced ov cs \<longleftrightarrow> (\<forall>i. i + 1 < length cs \<longrightarrow> ValidFrom (cs ! i) + ov \<le> ValidFrom (cs ! (i + 1)))"

lemma spaced_active:
  assumes "spaced ov cs" and "rows_ok cs" and "active_at cs ov now i" and "active_at cs ov now j"
    and "i < j" and "j < length cs"
  shows "j = i + 1"
proof (rule ccontr)
  assume "j \<noteq> i + 1"
  then have j: "i + 2 \<le> j" using assms(5) by simp
  then have "ValidFrom (cs ! (i + 1)) + ov \<le> ValidFrom (cs ! (i + 2))"
    using assms(1,6) by (auto simp: spaced_def dest: spec [of _ "i + 1"])
  also have "\<dots> \<le> ValidFrom (cs ! j)"
  proof (cases "j = i + 2")
    case False
    with j assms(2,6) have "record_before (cs ! (i + 2)) (cs ! j)" by (auto simp: rows_ok_def sorted_wrt_iff_nth_less)
    then show ?thesis by (auto simp: record_before_alt)
  qed simp
  also have "\<dots> \<le> now" using assms(4) by (simp add: active_at_def)
  finally show False
    using active_at_unique_successor [OF assms(3)] j assms(6) by simp
qed

lemma spaced_at_most_two:
  assumes "spaced ov cs" and "rows_ok cs"
  shows "length (filter (active_at cs ov now) [0..<length cs]) \<le> 2"
proof -
  let ?A = "{i. i < length cs \<and> active_at cs ov now i}"
  have "card ?A \<le> 2"
  proof (cases "?A = {}")
    case False
    define i where "i = Min ?A"
    have fin: "finite ?A" by simp
    have i: "i \<in> ?A" "\<And>j. j \<in> ?A \<Longrightarrow> i \<le> j" unfolding i_def using Min_in [OF fin False] Min_le [OF fin] by auto
    have "?A \<subseteq> {i, i + 1}"
    proof
      fix j assume "j \<in> ?A"
      then show "j \<in> {i, i + 1}"
        using i spaced_active [OF assms, of now i j] by (cases "i = j") (auto simp: le_less)
    qed
    then have "card ?A \<le> card {i, i + 1}" by (intro card_mono) auto
    then show ?thesis by simp
  next
    case True
    then show ?thesis by (simp only: True card.empty)
  qed
  moreover have "length (filter (active_at cs ov now) [0..<length cs]) = card ?A"
    by (simp add: length_filter_conv_card) (rule arg_cong [of _ _ card], auto)
  ultimately show ?thesis by simp
qed

lemma rows_ok_append_last:
  assumes "rows_ok rows" and "rows_ok rows'" and "set rows' = insert r (set rows)" and "KeyID r \<notin> KeyID ` set rows"
    and "rows \<noteq> [] \<Longrightarrow> ValidFrom (last rows) < ValidFrom r"
  shows "rows' = rows @ [r]"
proof (rule rows_ok_unique [OF assms(2)])
  have "record_before x r" if x: "x \<in> set rows" for x
  proof -
    have ne: "rows \<noteq> []" using x by auto
    have "x = last rows \<or> record_before x (last rows)"
      using x ne assms(1) unfolding rows_ok_def
      by (metis append_butlast_last_id in_set_conv_decomp set_ConsD sorted_wrt_append rotate1.simps(2) set_rotate1)
    with assms(5) [OF ne] show ?thesis by (auto simp: record_before_alt)
  qed
  with assms(1,4) show "rows_ok (rows @ [r])" by (auto simp: rows_ok_def sorted_wrt_append)
  show "set rows' = set (rows @ [r])" using assms(3) by simp
qed


lemma spaced_append:
  assumes "spaced ov rows" and "rows \<noteq> [] \<Longrightarrow> ValidFrom (last rows) + ov \<le> ValidFrom r"
  shows "spaced ov (rows @ [r])"
  unfolding spaced_def
proof (intro allI impI)
  fix i assume i: "i + 1 < length (rows @ [r])"
  show "ValidFrom ((rows @ [r]) ! i) + ov \<le> ValidFrom ((rows @ [r]) ! (i + 1))"
  proof (cases "i + 1 < length rows")
    case True
    with assms(1) show ?thesis by (simp add: spaced_def nth_append)
  next
    case False
    with i have "i + 1 = length rows" by simp
    then have "rows \<noteq> []" "i = length rows - 1" by auto
    then have "(rows @ [r]) ! i = last rows" "(rows @ [r]) ! (i + 1) = r" "rows \<noteq> []"
      by (auto simp: nth_append last_conv_nth)
    with assms(2) show ?thesis by simp
  qed
qed

text \<open>
  A service whose replicas rotate on schedule: each has its own manager, all with the same
  overlap, over one key table that starts empty. A forced rotation is only the one that
  mints a first key, from an empty cache. A rotation starts from a cache that has every row
  still inside its overlap; its listing may fail, and a replica reloads when it likes.
\<close>

definition up_to_date :: "time \<Rightarrow> Manager \<Rightarrow> KeyRecord list \<Rightarrow> bool" where
  "up_to_date now m rows \<longleftrightarrow> (\<forall>r \<in> set rows. now < ValidFrom r + overlap m \<longrightarrow> r \<in> set (key_cache m))"

inductive scheduled :: "fingerprint \<Rightarrow> time \<Rightarrow> (nat \<Rightarrow> Manager) \<times> KeyRecord list \<Rightarrow> bool" for fp ov where
  created: "(\<And>i. NewManager ov = Inr (ms i)) \<Longrightarrow> scheduled fp ov (ms, [])"
| rotated: "scheduled fp ov (ms, rows) \<Longrightarrow> up_to_date now (ms i) rows \<Longrightarrow> (force \<Longrightarrow> key_cache (ms i) = []) \<Longrightarrow>
     rotate fp kms c cl now gen force (ms i) rows = (res, m', rows') \<Longrightarrow> scheduled fp ov (ms(i := m'), rows')"
| reloaded: "scheduled fp ov (ms, rows) \<Longrightarrow> Load c rows (ms i) = Inr m' \<Longrightarrow> scheduled fp ov (ms(i := m'), rows)"

text \<open>The table stays spaced, and a cache is the table as it was at some earlier time.\<close>

definition schedule_ok :: "time \<Rightarrow> (nat \<Rightarrow> Manager) \<times> KeyRecord list \<Rightarrow> bool" where
  "schedule_ok ov a \<longleftrightarrow> 0 < ov \<and> rows_ok (snd a) \<and> spaced ov (snd a)
     \<and> (\<forall>i. overlap (fst a i) = ov \<and> (\<exists>n. key_cache (fst a i) = take n (snd a)))"

lemma spaced_take: "spaced ov rows \<Longrightarrow> spaced ov (take n rows)"
  by (simp add: spaced_def)

lemma rows_ok_take: "rows_ok rows \<Longrightarrow> rows_ok (take n rows)"
  by (simp add: rows_ok_def sorted_wrt_take take_map [symmetric])

text \<open>A rotation from an up-to-date cache is not dated inside the overlap of any row of the table.\<close>

lemma rotation_gap:
  assumes "rows_ok rows" and "key_cache m = take n rows" and "up_to_date now m rows"
    and "force \<Longrightarrow> key_cache m = []"
    and guard: "\<not> force \<Longrightarrow> key_cache m \<noteq> [] \<Longrightarrow> ValidFrom (last (key_cache m)) + overlap m \<le> now"
    and ne: "rows \<noteq> []"
  shows "ValidFrom (last rows) + overlap m \<le> now"
proof (rule ccontr)
  assume "\<not> ?thesis"
  then have mem: "last rows \<in> set (take n rows)" using assms(2,3) ne by (simp add: up_to_date_def)
  have "distinct rows" using assms(1) by (auto simp: rows_ok_def distinct_map)
  with mem ne have "take n rows = rows"
    by (metis append_butlast_last_id disjoint_iff append_Nil2 append_take_drop_id distinct_append last_appendR last_in_set)
  with assms(2,4) guard ne \<open>\<not> ?thesis\<close> show False by auto
qed

lemma scheduled_inv:
  assumes "scheduled fp ov a" and "NewManager ov = Inr m0"
  shows "schedule_ok (overlap m0) a"
  using assms(1)
proof (induction rule: scheduled.induct)
  case (created ms)
  then have "ms i = m0" for i using assms(2) by simp
  then show ?case
    using assms(2) by (auto simp: schedule_ok_def NewManager_def rows_ok_def spaced_def DefaultOverlap_def split: if_splits)
next
  case (rotated ms rows now i force kms c cl gen res m' rows')
  let ?ov = "overlap m0"
  have ok: "rows_ok rows" "spaced ?ov rows" "0 < ?ov" "overlap (ms i) = ?ov" using rotated.IH by (auto simp: schedule_ok_def)
  obtain n where n: "key_cache (ms i) = take n rows" using rotated.IH by (auto simp: schedule_ok_def)
  from rotated.hyps(4) ok(1) show ?case
  proof (cases rule: rotate_cases)
    case (Stored r)
    have gap: "ValidFrom (last rows) + ?ov \<le> ValidFrom r" if "rows \<noteq> []"
      using rotation_gap [OF ok(1) n rotated.hyps(2,3) Stored(7) that] Stored(1) ok(4) by simp
    then have app: "rows' = rows @ [r]"
      using rows_ok_append_last [OF ok(1) Stored(4,3,6)] ok(3) by fastforce
    have old: "\<exists>k. take j rows = take k rows'" for j
      unfolding app by (rule exI [of _ "min j (length rows)"]) (simp add: min_def)
    have "overlap m' = ?ov \<and> (\<exists>k. key_cache m' = take k rows')"
      using Stored(8) old [of n] n ok(4) by (auto intro: exI [of _ "length rows'"])
    moreover have "overlap (ms j) = ?ov \<and> (\<exists>k. key_cache (ms j) = take k rows')" for j
      using rotated.IH old by (auto simp: schedule_ok_def) metis
    ultimately show ?thesis
      using spaced_append [OF ok(2), of r] gap Stored(4) ok(3) app by (auto simp: schedule_ok_def)
  qed (use rotated.IH in simp)
next
  case (reloaded ms rows c i m')
  then have "m' = (ms i)\<lparr>key_cache := rows\<rparr>"
    by (auto simp: Load_def keys_List_def schedule_ok_def sortRecords_id split: ctx.splits)
  with reloaded.IH show ?case by (auto simp: schedule_ok_def intro: exI [of _ "length rows"])
qed

lemma scheduled_two_active:
  assumes "schedule_ok ov (ms, rows)"
  shows "length (filter (active_at (key_cache (ms i)) (overlap (ms i)) now) [0..<length (key_cache (ms i))]) \<le> 2"
proof -
  obtain n where n: "key_cache (ms i) = take n rows" "overlap (ms i) = ov"
    and ok: "rows_ok rows" "spaced ov rows"
    using assms by (auto simp: schedule_ok_def)
  show ?thesis
    using spaced_at_most_two [OF spaced_take [OF ok(2), of n] rows_ok_take [OF ok(1), of n]] n by simp
qed

lemma signing_key_active:
  assumes ok: "rows_ok cs" and r: "signingKey cs now = Some r" and "0 \<le> ov" and "now < SentinelValidUntil"
  obtains i where "i < length cs" "cs ! i = r" "active_at cs ov now i"
proof -
  note sk = signingKey_Some [OF ok r]
  obtain i where i: "i < length cs" "cs ! i = r" using sk(1) by (auto simp: in_set_conv_nth)
  have "now < computeValidUntil cs i ov"
  proof (cases "i + 1 < length cs")
    case True
    then have "record_before r (cs ! (i + 1))" using ok i by (auto simp: rows_ok_def sorted_wrt_iff_nth_less)
    with sk(3) True have "now < ValidFrom (cs ! (i + 1))" by simp
    with True assms(3) show ?thesis by (simp add: computeValidUntil_def)
  next
    case False
    with assms(4) show ?thesis by (simp add: computeValidUntil_def)
  qed
  with i sk(2) that show ?thesis by (simp add: active_at_def)
qed

lemma view_before_props:
  "transp view_before" "asymp view_before"
  "\<not> view_before b a \<Longrightarrow> \<not> view_before d b \<Longrightarrow> \<not> view_before d a"
  by (auto simp: view_before_def intro!: transpI asympI split: if_splits)

text \<open>The first of the active views is the key that signs.\<close>

lemma ListActive_signing:
  assumes ok: "rows_ok (key_cache m)" and ov: "0 \<le> overlap m" and now: "now < SentinelValidUntil"
    and vs: "Manager_ListActive m now Live = Inr vs"
  shows "map_option KeyID (signingKey (key_cache m) now) = (if vs = [] then None else Some (ak_KeyID (hd vs)))"
proof -
  let ?cs = "key_cache m"
  let ?A = "map (view_at ?cs (overlap m)) (filter (active_at ?cs (overlap m) now) [0..<length ?cs])"
  have eq: "vs = go_sort view_before ?A" using vs by (simp add: Manager_ListActive_def)
  show ?thesis
  proof (cases "signingKey ?cs now")
    case None
    then have "now < ValidFrom r" if "r \<in> set ?cs" for r
      using that by (auto simp: signingKey_def find_None_iff)
    then have "?A = []" by (auto simp: filter_empty_conv active_at_def)
    then show ?thesis using None eq by simp
  next
    case (Some r)
    note sk = signingKey_Some [OF ok Some]
    obtain i where i: "i < length ?cs" "?cs ! i = r" "active_at ?cs (overlap m) now i"
      using signing_key_active [OF ok Some ov now] by blast
    then have mem: "view_at ?cs (overlap m) i \<in> set vs" unfolding eq by auto
    then obtain v ws where v: "vs = v # ws" by (cases vs) auto
    have "v \<in> set vs" by (simp add: v)
    then obtain j where j: "j < length ?cs" "active_at ?cs (overlap m) now j" "v = view_at ?cs (overlap m) j"
      unfolding eq by auto
    have "j = i"
    proof (rule ccontr)
      assume "j \<noteq> i"
      have "\<not> record_before r (?cs ! j)" using sk(3) [of "?cs ! j"] j by (auto simp: active_at_def)
      with \<open>j \<noteq> i\<close> ok i j have "record_before (?cs ! j) (?cs ! i)"
        unfolding rows_ok_def sorted_wrt_iff_nth_less by (metis linorder_neqE_nat)
      then have lt: "view_before (view_at ?cs (overlap m) i) v"
        by (auto simp: j(3) view_at_def view_before_def record_before_alt)
      have "sorted_wrt (\<lambda>x y. \<not> view_before y x) vs"
        unfolding eq using view_before_props by (intro go_sort_sorted)
      then have "\<not> view_before w v" if "w \<in> set ws" for w using that by (simp add: v)
      moreover have "view_at ?cs (overlap m) i \<noteq> v"
        using lt view_before_props(2) by (metis asympD)
      ultimately show False using mem lt v by auto
    qed
    then show ?thesis using Some v j i by (simp add: view_at_def)
  qed
qed


section \<open>Properties\<close>

text \<open>A concrete service, digest and signature check, and a manager that has rotated twice.\<close>

definition ex_ed :: ed_verify where
  "ex_ed public payload sig \<longleftrightarrow> hd sig = hd public"

definition ex_fp :: fingerprint where
  "ex_fp public = replicate 64 (hd public)"

definition ex_kms :: "char \<Rightarrow> KMS" where
  "ex_kms x = \<lparr>Ping = (\<lambda>_. None), Generate = (\<lambda>_. Inr (replicate 32 x, [x])), kms_Sign = (\<lambda>_ h _. Inr (replicate 64 (hd h)))\<rparr>"

definition ex_keys1 :: "(keys_error + KeyRecord) \<times> Manager \<times> KeyRecord list" where
  "ex_keys1 = Rotate ex_fp (ex_kms CHR ''a'') Live Live 100 (Some 5) \<lparr>overlap = 10, key_cache = []\<rparr> []"

definition ex_keys2 :: "(keys_error + KeyRecord) \<times> Manager \<times> KeyRecord list" where
  "ex_keys2 = Rotate ex_fp (ex_kms CHR ''b'') Live Live 112 (Some 4) (fst (snd ex_keys1)) (snd (snd ex_keys1))"

lemma ex_keys_cache:
  "key_cache (fst (snd ex_keys2)) =
     [\<lparr>KeyID = 5, Fingerprint = replicate 64 CHR ''a'', PublicKey = replicate 32 CHR ''a'', Handle = ''a'', ValidFrom = 100,
       Algorithm = ''ed25519''\<rparr>,
      \<lparr>KeyID = 4, Fingerprint = replicate 64 CHR ''b'', PublicKey = replicate 32 CHR ''b'', Handle = ''b'', ValidFrom = 112,
       Algorithm = ''ed25519''\<rparr>]"
  by code_simp

text \<open>
  Replica 0 mints the first key; replica 1 reloads and rotates, and its listing fails.
\<close>

definition ex_replicas :: "nat \<Rightarrow> Manager" where
  "ex_replicas i = (if i < 2 then fst (snd ex_keys1) else \<lparr>overlap = 10, key_cache = []\<rparr>)"

lemma ex_scheduled: "scheduled ex_fp 10 (ex_replicas, snd (snd ex_keys2))"
proof -
  let ?m0 = "\<lparr>overlap = 10, key_cache = []\<rparr>" and ?m1 = "fst (snd ex_keys1)" and ?rows1 = "snd (snd ex_keys1)"
  define ms0 ms1 ms2 where "ms0 = (\<lambda>_ :: nat. ?m0)" and "ms1 = ms0(0 := ?m1)" and "ms2 = ms1(1 := ?m1)"
  note ms = ms0_def ms1_def ms2_def
  have h0: "scheduled ex_fp 10 (ms0, [])" by (rule scheduled.created) (simp add: NewManager_def ms0_def)
  have r0: "rotate ex_fp (ex_kms CHR ''a'') Live Live 100 (Some 5) True (ms0 0) [] = (fst ex_keys1, ?m1, ?rows1)"
    unfolding ms0_def by code_simp
  have h1: "scheduled ex_fp 10 (ms1, ?rows1)"
    unfolding ms1_def by (rule scheduled.rotated [OF h0 _ _ r0]) (simp_all add: up_to_date_def ms0_def)
  have l1: "Load Live ?rows1 ?m0 = Inr ?m1" by code_simp
  have h2: "scheduled ex_fp 10 (ms2, ?rows1)"
    unfolding ms2_def by (rule scheduled.reloaded [OF h1, where c = Live]) (use l1 in \<open>simp add: ms\<close>)
  have r2: "rotate ex_fp (ex_kms CHR ''b'') Live Cancelled 112 (Some 4) False (ms2 1) ?rows1
      = (Inl ErrKeysContext, ?m1, snd (snd ex_keys2))"
    unfolding ms2_def fun_upd_same by code_simp
  have "up_to_date 112 ?m1 ?rows1" by code_simp
  then have "scheduled ex_fp 10 (ms2(1 := ?m1), snd (snd ex_keys2))"
    by (intro scheduled.rotated [OF h2 _ _ r2]) (simp_all add: ms2_def)
  moreover have "ms2(1 := ?m1) = ex_replicas" by (auto simp: ms ex_replicas_def fun_eq_iff)
  ultimately show ?thesis by simp
qed

text \<open>The same history after replica 0 reloaded.\<close>

lemma ex_scheduled_reloaded:
  "scheduled ex_fp 10 (ex_replicas(0 := fst (snd ex_keys2)), snd (snd ex_keys2))"
proof (rule scheduled.reloaded [OF ex_scheduled, where c = Live])
  show "Load Live (snd (snd ex_keys2)) (ex_replicas 0) = Inr (fst (snd ex_keys2))" by code_simp
qed

lemma ex_later_window:
  "manager_ok (fst (snd ex_keys1), snd (snd ex_keys1)) \<and> stale_by 0 111 (fst (snd ex_keys1), snd (snd ex_keys1))
   \<and> later ex_fp 111 (fst (snd ex_keys1), snd (snd ex_keys1)) (fst (snd ex_keys2), snd (snd ex_keys2))
   \<and> (111 :: time) \<le> 120 \<and> 120 < 111 - 0 + overlap (fst (snd ex_keys1))
   \<and> 111 - 0 + overlap (fst (snd ex_keys1)) \<le> SentinelValidUntil"
proof (intro conjI)
  show "later ex_fp 111 (fst (snd ex_keys1), snd (snd ex_keys1)) (fst (snd ex_keys2), snd (snd ex_keys2))"
    by (rule later.own [where kms = "ex_kms CHR ''b''" and c = Live and cl = Live and now = 112 and gen = "Some 4" and force = False
          and res = "fst ex_keys2"]) (simp_all add: later.start ex_keys2_def Rotate_def)
qed code_simp+

text \<open>
  C12. A signature keeps verifying: whatever rotations happen afterwards, here or in
  another replica, forced or not, a signature made at time \<open>t\<close> by a manager whose cache is
  at most \<open>d\<close> out of date is accepted under its key, and by the search over all keys, at
  every time before \<open>t - d\<close> plus the overlap.
\<close>
theorem signature_survives_rotation:
  assumes "manager_ok (m, rows)" and "stale_by d t (m, rows)"
    and "Manager_Sign ed kms m t c payload = Inr (k, sig)"
    and "later fp t (m, rows) (m', rows')"
    and "t \<le> now" and "now < t - d + overlap m" and "t - d + overlap m \<le> SentinelValidUntil"
  shows "Verify ed m' now Live k payload sig = None \<and> (\<exists>k'. Manager_VerifyAny ed m' now Live payload sig = Inr k')"
  using sign_window [OF assms(1-3) later_grown [OF assms(4,1)] assms(5-7)] .

theorem signature_survives_rotation_witness:
  "Verify ex_ed (fst (snd ex_keys2)) 120 Live 5 ''policy'' (replicate 64 CHR ''a'') = None
   \<and> (\<exists>k'. Manager_VerifyAny ex_ed (fst (snd ex_keys2)) 120 Live ''policy'' (replicate 64 CHR ''a'') = Inr k')"
proof (rule signature_survives_rotation [where m = "fst (snd ex_keys1)" and rows = "snd (snd ex_keys1)" and d = 0 and t = 111
      and kms = "ex_kms CHR ''a''" and c = Live and fp = ex_fp and rows' = "snd (snd ex_keys2)"])
  show "Manager_Sign ex_ed (ex_kms CHR ''a'') (fst (snd ex_keys1)) 111 Live ''policy'' = Inr (5, replicate 64 CHR ''a'')"
    by code_simp
qed (use ex_later_window in blast)+

text \<open>
  C37. Scheduled rotation keeps at most two keys active. Over any history of any number of
  replicas on one key table that starts empty, with the same overlap, in which a forced
  rotation only mints a first key and each rotation starts from a cache that has every row
  still inside its overlap, every replica lists at most two keys in their validity window
  at any time, whether its cache is current or out of date, and also when the listing after
  an insert failed.
\<close>
theorem at_most_two_active_keys:
  assumes "NewManager ov = Inr m0" and "scheduled fp ov (ms, rows)" and "Manager_ListActive (ms i) now Live = Inr vs"
  shows "length vs \<le> 2"
  using assms(3) scheduled_two_active [OF scheduled_inv [OF assms(2,1)], of i now]
  by (auto simp: Manager_ListActive_def)

theorem at_most_two_active_keys_witness:
  "length (map (view_at (key_cache (fst (snd ex_keys2))) 10) [1, 0]) \<le> 2"
proof (rule at_most_two_active_keys [OF _ ex_scheduled_reloaded])
  show "NewManager 10 = Inr \<lparr>overlap = 10, key_cache = []\<rparr>" by (simp add: NewManager_def)
  show "Manager_ListActive ((ex_replicas(0 := fst (snd ex_keys2))) 0) 115 Live
      = Inr (map (view_at (key_cache (fst (snd ex_keys2))) 10) [1, 0])"
    by code_simp
qed

text \<open>
  The manager does not ensure that its cache is up to date. The listing after an insert
  fails, the rotation reports an error with the row in the table and the cache as it was,
  and an immediate scheduled retry passes the guard: three keys are active.
\<close>

definition ex_failed_listing :: "(keys_error + KeyRecord) \<times> Manager \<times> KeyRecord list" where
  "ex_failed_listing = Rotate ex_fp (ex_kms CHR ''b'') Live Cancelled 112 (Some 4) (fst (snd ex_keys1)) (snd (snd ex_keys1))"

definition ex_retry :: "(keys_error + KeyRecord) \<times> Manager \<times> KeyRecord list" where
  "ex_retry = Rotate ex_fp (ex_kms CHR ''c'') Live Live 113 (Some 3) (fst (snd ex_failed_listing)) (snd (snd ex_failed_listing))"

definition ex_record :: "char \<Rightarrow> uuid \<Rightarrow> time \<Rightarrow> KeyRecord" where
  "ex_record x i t = \<lparr>KeyID = i, Fingerprint = replicate 64 x, PublicKey = replicate 32 x, Handle = [x], ValidFrom = t,
     Algorithm = ''ed25519''\<rparr>"

lemma ex_keys1_state:
  "snd ex_keys1 = (\<lparr>overlap = 10, key_cache = [ex_record CHR ''a'' 5 100]\<rparr>, [ex_record CHR ''a'' 5 100])"
  by code_simp

lemma ex_failed_listing_state:
  "ex_failed_listing = (Inl ErrKeysContext, fst (snd ex_keys1), [ex_record CHR ''a'' 5 100, ex_record CHR ''b'' 4 112])"
  unfolding ex_failed_listing_def ex_keys1_state fst_conv snd_conv by code_simp

lemma ex_retry_state:
  "snd ex_retry = (let rs = [ex_record CHR ''a'' 5 100, ex_record CHR ''b'' 4 112, ex_record CHR ''c'' 3 113]
     in (\<lparr>overlap = 10, key_cache = rs\<rparr>, rs))"
  unfolding ex_retry_def ex_failed_listing_state ex_keys1_state fst_conv snd_conv by code_simp

theorem failed_listing_three_active:
  "fst ex_failed_listing = Inl ErrKeysContext
   \<and> map KeyID (key_cache (fst (snd ex_failed_listing))) = [5] \<and> map KeyID (snd (snd ex_failed_listing)) = [5, 4]
   \<and> map_sum id (map ak_KeyID) (Manager_ListActive (fst (snd ex_retry)) 114 Live) = Inr [3, 4, 5]"
proof (intro conjI)
  show "map_sum id (map ak_KeyID) (Manager_ListActive (fst (snd ex_retry)) 114 Live) = Inr [3, 4, 5]"
    unfolding ex_retry_state Let_def fst_conv by code_simp
qed (simp_all add: ex_failed_listing_state ex_keys1_state ex_record_def)

text \<open>
  The key listed first is the key that signs, and there is a key to sign with exactly
  when the list of active keys is not empty, so the precondition the write verbs check is
  the one under which signing finds a key.
\<close>
theorem listed_first_key_signs:
  assumes "rows_ok (key_cache m)" and "0 \<le> overlap m" and "now < SentinelValidUntil"
    and "Manager_ListActive m now Live = Inr vs"
  shows "map_option KeyID (signingKey (key_cache m) now) = (if vs = [] then None else Some (ak_KeyID (hd vs)))"
  using assms by (rule ListActive_signing)

theorem listed_first_key_signs_witness:
  "map_option KeyID (signingKey (key_cache (fst (snd ex_keys2))) 115) = Some 4"
proof -
  have "Manager_ListActive (fst (snd ex_keys2)) 115 Live = Inr (map (view_at (key_cache (fst (snd ex_keys2))) 10) [1, 0])"
    by code_simp
  moreover have "rows_ok (key_cache (fst (snd ex_keys2)))" by code_simp
  moreover have "0 \<le> overlap (fst (snd ex_keys2))" by code_simp
  ultimately show ?thesis
    using listed_first_key_signs [of "fst (snd ex_keys2)" 115] by (simp add: SentinelValidUntil_def view_at_def ex_keys_cache)
qed

text \<open>
  The outcomes of a rotation: a success adds exactly one row, dated now, valid and with a
  new identifier, returns it and makes the cache equal to the table. An error leaves the
  cache as it was, and the table too, unless it is the listing after the insert that
  failed; then that row is in the table. A scheduled rotation inside the overlap of the
  newest key is refused and changes nothing.
\<close>
theorem rotate_outcomes:
  assumes "rotate fp kms c cl now gen force m rows = (res, m', rows')" and "rows_ok rows"
  shows "(case res of
       Inl e \<Rightarrow> m' = m \<and> (rows' = rows \<or>
         (e = ErrKeysContext \<and> cl = Cancelled
          \<and> (\<exists>r. set rows' = insert r (set rows) \<and> KeyID r \<notin> KeyID ` set rows \<and> ValidFrom r = now \<and> rows_ok rows')))
     | Inr r \<Rightarrow> set rows' = insert r (set rows) \<and> KeyID r \<notin> KeyID ` set rows \<and> ValidFrom r = now
         \<and> validateRecord fp r = None \<and> rows_ok rows' \<and> key_cache m' = rows')
    \<and> (\<not> force \<and> key_cache m \<noteq> [] \<and> now < ValidFrom (last (key_cache m)) + overlap m
       \<longrightarrow> (res, m', rows') = (Inl ErrRotationTooSoon, m, rows))"
proof
  from assms show "case res of
       Inl e \<Rightarrow> m' = m \<and> (rows' = rows \<or>
         (e = ErrKeysContext \<and> cl = Cancelled
          \<and> (\<exists>r. set rows' = insert r (set rows) \<and> KeyID r \<notin> KeyID ` set rows \<and> ValidFrom r = now \<and> rows_ok rows')))
     | Inr r \<Rightarrow> set rows' = insert r (set rows) \<and> KeyID r \<notin> KeyID ` set rows \<and> ValidFrom r = now
         \<and> validateRecord fp r = None \<and> rows_ok rows' \<and> key_cache m' = rows'"
    by (cases rule: rotate_cases) auto
  show "\<not> force \<and> key_cache m \<noteq> [] \<and> now < ValidFrom (last (key_cache m)) + overlap m
      \<longrightarrow> (res, m', rows') = (Inl ErrRotationTooSoon, m, rows)"
    using assms(1) by (auto simp: rotate_def newestRecord_def)
qed


end
