(* ===== verification/Steward.thy ===== *)
theory Steward
  imports Steward_Store Steward_Json Policy_Keys
begin

text \<open>
  The policy steward (\<^verbatim>\<open>policy/steward/steward.go\<close>, \<^verbatim>\<open>policy/steward/override.go\<close>): the
  three signed write verbs, the unsigned override verb, and the reads of the evaluator. A
  verb takes the signer, the outcome of its one call of the identifier generator and its
  reading of the clock, and returns the row with the new store, or an error; on an error the
  store is the old one. The signer is the interface the sources declare; the text of
  identifiers is the parameter \<open>uuid_String\<close>.
\<close>

section \<open>Signer\<close>

record Signer =
  Sign :: "ctx \<Rightarrow> string \<Rightarrow> keys_error + uuid \<times> string"
  VerifyAny :: "ctx \<Rightarrow> string \<Rightarrow> string \<Rightarrow> keys_error + uuid"
  ListActive :: "ctx \<Rightarrow> keys_error + uuid list"

definition noActiveSigner :: Signer where
  "noActiveSigner =
     \<lparr>Sign = (\<lambda>_ _. Inl ErrNoActiveKey), VerifyAny = (\<lambda>_ _ _. Inl ErrUnknownKey), ListActive = (\<lambda>_. Inr [])\<rparr>"

text \<open>The signing-key manager as the steward sees it, read at one instant.\<close>

definition manager_signer :: "ed_verify \<Rightarrow> KMS \<Rightarrow> Manager \<Rightarrow> time \<Rightarrow> Signer" where
  "manager_signer ed kms m now =
     \<lparr>Sign = Manager_Sign ed kms m now, VerifyAny = Manager_VerifyAny ed m now,
      ListActive = (\<lambda>c. case Manager_ListActive m now c of Inl e \<Rightarrow> Inl e | Inr vs \<Rightarrow> Inr (map ak_KeyID vs))\<rparr>"

text \<open>The constructor puts the null signer in place of a missing one.\<close>

definition New :: "Signer option \<Rightarrow> Signer" where
  "New cfg = (case cfg of None \<Rightarrow> noActiveSigner | Some sg \<Rightarrow> sg)"

section \<open>Preconditions and validators\<close>

definition checkSigningKey :: "ctx \<Rightarrow> Signer \<Rightarrow> steward_error option" where
  "checkSigningKey c sg =
     (case ListActive sg c of
        Inl _ \<Rightarrow> Some ErrNoActiveSigningKey
      | Inr views \<Rightarrow> if length views = 0 then Some ErrNoActiveSigningKey else None)"

fun checkRuleRefs :: "ctx \<Rightarrow> InMemoryStore \<Rightarrow> RuleRef list \<Rightarrow> steward_error option" where
  "checkRuleRefs c s [] = None"
| "checkRuleRefs c s (r # rs) =
     (case RuleExists c (rr_RuleID r) (rr_Version r) s of
        Inl e \<Rightarrow> Some e
      | Inr ok \<Rightarrow> if \<not> ok then Some ErrUnknownRuleRef else checkRuleRefs c s rs)"

fun checkThresholdRefs :: "ctx \<Rightarrow> InMemoryStore \<Rightarrow> ThresholdRef list \<Rightarrow> steward_error option" where
  "checkThresholdRefs c s [] = None"
| "checkThresholdRefs c s (t # ts) =
     (case ThresholdExists c (tr_ThresholdID t) s of
        Inl e \<Rightarrow> Some e
      | Inr ok \<Rightarrow> if \<not> ok then Some ErrUnknownThresholdRef else checkThresholdRefs c s ts)"

fun valid_rule_refs :: "RuleRef list \<Rightarrow> RuleRef list \<Rightarrow> bool" where
  "valid_rule_refs seen [] = True"
| "valid_rule_refs seen (r # rs) =
     (if blank (rr_RuleID r) then False
      else if rr_Version r \<le> 0 then False
      else if List.member seen r then False
      else valid_rule_refs (r # seen) rs)"

fun valid_threshold_refs :: "uuid list \<Rightarrow> ThresholdRef list \<Rightarrow> bool" where
  "valid_threshold_refs seen [] = True"
| "valid_threshold_refs seen (t # ts) =
     (if tr_ThresholdID t = uuid_Nil then False
      else if List.member seen (tr_ThresholdID t) then False
      else valid_threshold_refs (tr_ThresholdID t # seen) ts)"

definition validatePublishRequest :: "PublishRequest \<Rightarrow> steward_error option" where
  "validatePublishRequest req =
     (let w = p_RefactorWeights req in
      if blank (p_Name req) then Some ErrInvalidRequest
      else if length (p_RuleRefs req) = 0 then Some ErrInvalidRequest
      else if \<not> valid_rule_refs [] (p_RuleRefs req) then Some ErrInvalidRequest
      else if \<not> valid_threshold_refs [] (p_ThresholdRefs req) then Some ErrInvalidRequest
      else if WindowDays w \<le> 0 then Some ErrInvalidRequest
      else if blank (EffortModelVersion w) then Some ErrInvalidRequest
      else if (case FreshnessWindowSeconds w of None \<Rightarrow> False | Some n \<Rightarrow> n \<le> 0) then Some ErrInvalidRequest
      else if TopN w < 0 then Some ErrInvalidRequest
      else None)"

definition validateActivateRequest :: "ActivateRequest \<Rightarrow> steward_error option" where
  "validateActivateRequest req =
     (if a_PolicyVersionID req = uuid_Nil then Some ErrInvalidRequest
      else if blank (a_ActivatedBy req) then Some ErrInvalidRequest
      else None)"

fun valid_rule_specs :: "(string \<times> int) list \<Rightarrow> RuleSpec list \<Rightarrow> bool" where
  "valid_rule_specs seen [] = True"
| "valid_rule_specs seen (r # rs) =
     (if blank (rs_RuleID r) then False
      else if rs_Version r \<le> 0 then False
      else if List.member seen (rs_RuleID r, rs_Version r) then False
      else if \<not> Severity_IsValid (rs_SeverityDefault r) then False
      else if blank (rs_PredicateDSL r) then False
      else valid_rule_specs ((rs_RuleID r, rs_Version r) # seen) rs)"

definition validatePublishRulepackRequest :: "PublishRulepackRequest \<Rightarrow> steward_error option" where
  "validatePublishRulepackRequest req =
     (if blank (k_PackID req) then Some ErrInvalidRequest
      else if k_Version req \<le> 0 then Some ErrInvalidRequest
      else if blank (k_DisplayName req) then Some ErrInvalidRequest
      else if length (Rules req) = 0 then Some ErrInvalidRequest
      else if \<not> valid_rule_specs [] (Rules req) then Some ErrInvalidRequest
      else None)"

definition validateOverrideRequest :: "OverrideRequest \<Rightarrow> steward_error option" where
  "validateOverrideRequest req =
     (if blank (q_RuleID req) then Some ErrInvalidOverride
      else if blank (sf_RepoID (q_ScopeFilter req)) then Some ErrInvalidOverride
      else if \<not> ScopeKind_IsValid (sf_ScopeKind (q_ScopeFilter req)) then Some ErrInvalidOverride
      else if blank (ScopeSignatureGlob (q_ScopeFilter req)) then Some ErrInvalidOverride
      else if blank (q_ActorID req) then Some ErrInvalidOverride
      else if q_Mute req \<and> blank (q_Reason req) then Some ErrInvalidOverride
      else None)"

text \<open>\<^verbatim>\<open>if err := check; err != nil { return err }\<close>.\<close>

definition guardE :: "'e option \<Rightarrow> 'e + 'a \<Rightarrow> 'e + 'a" where
  "guardE err r = (case err of Some e \<Rightarrow> Inl e | None \<Rightarrow> r)"

lemma guardE_simps [simp]: "guardE None r = r" "guardE (Some e) r = Inl e"
  by (simp_all add: guardE_def)

lemma guardE_Inr [simp]: "guardE err r = Inr x \<longleftrightarrow> err = None \<and> r = Inr x"
  by (cases err) simp_all

definition freshID :: "uuid option \<Rightarrow> steward_error + uuid" where
  "freshID gen = (case gen of None \<Rightarrow> Inl ErrUUID | Some i \<Rightarrow> Inr i)"

section \<open>Write verbs\<close>

definition signed_bytes :: "(uuid \<Rightarrow> string) \<Rightarrow> RuleRef list \<Rightarrow> ThresholdRef list \<Rightarrow> RefactorWeights \<Rightarrow> steward_error + string" where
  "signed_bytes uuid_String rr tr w =
     (case canonicalJSON uuid_String \<lparr>sp_RuleRefs = rr, sp_ThresholdRefs = tr, sp_RefactorWeights = w\<rparr> of
        None \<Rightarrow> Inl ErrCanonicalJSON | Some b \<Rightarrow> Inr b)"

definition sign_payload :: "ctx \<Rightarrow> Signer \<Rightarrow> string \<Rightarrow> steward_error + string" where
  "sign_payload c sg b =
     (case Sign sg c b of
        Inl ErrNoActiveKey \<Rightarrow> Inl ErrNoActiveSigningKey
      | Inl _ \<Rightarrow> Inl ErrSigning
      | Inr (_, sig) \<Rightarrow> Inr sig)"

definition Publish ::
  "(uuid \<Rightarrow> string) \<Rightarrow> Signer \<Rightarrow> ctx \<Rightarrow> uuid option \<Rightarrow> time \<Rightarrow> PublishRequest \<Rightarrow> InMemoryStore
   \<Rightarrow> steward_error + PolicyVersion \<times> InMemoryStore" where
  "Publish uuid_String sg c gen now req s =
     guardE (checkSigningKey c sg)
     (guardE (validatePublishRequest req)
     (guardE (checkRuleRefs c s (p_RuleRefs req))
     (guardE (checkThresholdRefs c s (p_ThresholdRefs req))
     (bindE (signed_bytes uuid_String (p_RuleRefs req) (p_ThresholdRefs req) (p_RefactorWeights req)) (\<lambda>msg.
      bindE (sign_payload c sg msg) (\<lambda>sig.
      bindE (freshID gen) (\<lambda>i.
        let pv = \<lparr>PolicyVersionID = i, pv_Name = p_Name req, RuleRefs = p_RuleRefs req,
                  ThresholdRefs = p_ThresholdRefs req, pv_RefactorWeights = p_RefactorWeights req,
                  Signature = sig, pv_CreatedAt = now\<rparr>
        in bindE (InsertPolicyVersion c pv s) (\<lambda>s'. Inr (pv, s')))))))))"

definition Activate ::
  "Signer \<Rightarrow> ctx \<Rightarrow> uuid option \<Rightarrow> time \<Rightarrow> ActivateRequest \<Rightarrow> InMemoryStore
   \<Rightarrow> steward_error + PolicyActivation \<times> InMemoryStore" where
  "Activate sg c gen now req s =
     guardE (checkSigningKey c sg)
     (guardE (validateActivateRequest req)
     (bindE (GetPolicyVersion c (a_PolicyVersionID req) s) (\<lambda>_.
      bindE (freshID gen) (\<lambda>i.
        let pa = \<lparr>ActivationID = i, pa_PolicyVersionID = a_PolicyVersionID req,
                  ActivatedBy = a_ActivatedBy req, pa_CreatedAt = now\<rparr>
        in bindE (InsertPolicyActivation c pa s) (\<lambda>s'. Inr (pa, s'))))))"

definition rule_of_spec :: "string \<Rightarrow> time \<Rightarrow> RuleSpec \<Rightarrow> Rule" where
  "rule_of_spec packID now r =
     \<lparr>RuleID = rs_RuleID r, Version = rs_Version r, PackID = packID, PredicateDSL = rs_PredicateDSL r,
      SeverityDefault = rs_SeverityDefault r, DescriptionMD = rs_DescriptionMD r, rule_CreatedAt = now\<rparr>"

definition PublishRulepack ::
  "Signer \<Rightarrow> ctx \<Rightarrow> time \<Rightarrow> PublishRulepackRequest \<Rightarrow> InMemoryStore
   \<Rightarrow> steward_error + (RulePack \<times> Rule list) \<times> InMemoryStore" where
  "PublishRulepack sg c now req s =
     guardE (checkSigningKey c sg)
     (guardE (validatePublishRulepackRequest req)
     (let pack = \<lparr>rp_PackID = k_PackID req, rp_Version = k_Version req, DisplayName = k_DisplayName req,
                  rp_DescriptionMD = k_DescriptionMD req, rp_CreatedAt = now\<rparr>;
          rs = map (rule_of_spec (k_PackID req) now) (Rules req)
      in bindE (InsertRulePackAndRules c pack rs s) (\<lambda>s'. Inr ((pack, rs), s'))))"

definition Override ::
  "ctx \<Rightarrow> uuid option \<Rightarrow> time \<Rightarrow> OverrideRequest \<Rightarrow> InMemoryStore \<Rightarrow> steward_error + Override \<times> InMemoryStore" where
  "Override c gen now req s =
     guardE (validateOverrideRequest req)
     (bindE (RuleExistsByID c (q_RuleID req) s) (\<lambda>ok.
        if \<not> ok then Inl ErrUnknownRule
        else bindE (freshID gen) (\<lambda>i.
          let v = \<lparr>OverrideID = i, o_RuleID = q_RuleID req, o_ScopeFilter = q_ScopeFilter req, Mute = q_Mute req,
                   Reason = q_Reason req, ActorID = q_ActorID req, o_CreatedAt = now\<rparr>
          in bindE (InsertOverride c v s) (\<lambda>s'. Inr (v, s')))))"

section \<open>Reads\<close>

definition ActivePolicyVersion :: "ctx \<Rightarrow> InMemoryStore \<Rightarrow> steward_error + PolicyVersion option" where
  "ActivePolicyVersion c s =
     bindE (LatestActivation c s) (\<lambda>a.
       case a of
         None \<Rightarrow> Inr None
       | Some pa \<Rightarrow> bindE (GetPolicyVersion c (pa_PolicyVersionID pa) s) (\<lambda>pv. Inr (Some pv)))"

definition VerifyPolicyVersionSignature :: "(uuid \<Rightarrow> string) \<Rightarrow> Signer \<Rightarrow> ctx \<Rightarrow> PolicyVersion \<Rightarrow> steward_error option" where
  "VerifyPolicyVersionSignature uuid_String sg c pv =
     (case signed_bytes uuid_String (RuleRefs pv) (ThresholdRefs pv) (pv_RefactorWeights pv) of
        Inl e \<Rightarrow> Some e
      | Inr msg \<Rightarrow> (case VerifyAny sg c msg (Signature pv) of Inl _ \<Rightarrow> Some ErrVerify | Inr _ \<Rightarrow> None))"

text \<open>The steward's reader of overrides refuses a malformed question before it asks the store.\<close>

definition Steward_LatestMatchingOverride :: "ctx \<Rightarrow> string \<Rightarrow> CandidateScope \<Rightarrow> InMemoryStore \<Rightarrow> steward_error + Override option" where
  "Steward_LatestMatchingOverride c ruleID cand s =
     (if blank ruleID then Inl ErrInvalidCandidateScope
      else if \<not> CandidateScope_IsValid cand then Inl ErrInvalidCandidateScope
      else LatestMatchingOverride c ruleID cand s)"

section \<open>Histories\<close>

text \<open>One call of a writer, with everything the environment answers.\<close>

datatype steward_op =
    OpPublish Signer ctx "uuid option" time PublishRequest
  | OpActivate Signer ctx "uuid option" time ActivateRequest
  | OpPublishRulepack Signer ctx time PublishRulepackRequest
  | OpOverride ctx "uuid option" time OverrideRequest
  | OpInsertThreshold ctx ThresholdRow

definition keep :: "InMemoryStore \<Rightarrow> steward_error + 'a \<times> InMemoryStore \<Rightarrow> InMemoryStore" where
  "keep s r = (case r of Inl _ \<Rightarrow> s | Inr (_, s') \<Rightarrow> s')"

fun steward_step :: "(uuid \<Rightarrow> string) \<Rightarrow> steward_op \<Rightarrow> InMemoryStore \<Rightarrow> InMemoryStore" where
  "steward_step us (OpPublish sg c gen now req) s = keep s (Publish us sg c gen now req s)"
| "steward_step us (OpActivate sg c gen now req) s = keep s (Activate sg c gen now req s)"
| "steward_step us (OpPublishRulepack sg c now req) s = keep s (PublishRulepack sg c now req s)"
| "steward_step us (OpOverride c gen now req) s = keep s (Override c gen now req s)"
| "steward_step us (OpInsertThreshold c t) s = (case InsertThreshold c t s of Inl _ \<Rightarrow> s | Inr s' \<Rightarrow> s')"

definition steward_run :: "(uuid \<Rightarrow> string) \<Rightarrow> steward_op list \<Rightarrow> InMemoryStore" where
  "steward_run us ops = fold (steward_step us) ops NewInMemoryStore"

section \<open>Append-only\<close>

definition store_le :: "InMemoryStore \<Rightarrow> InMemoryStore \<Rightarrow> bool" where
  "store_le s s' \<longleftrightarrow>
     map_of (policyVersions s) \<subseteq>\<^sub>m map_of (policyVersions s') \<and> map_of (rulePacks s) \<subseteq>\<^sub>m map_of (rulePacks s')
     \<and> map_of (rules s) \<subseteq>\<^sub>m map_of (rules s') \<and> map_of (thresholds s) \<subseteq>\<^sub>m map_of (thresholds s')
     \<and> (\<exists>zs. activations s' = activations s @ zs) \<and> (\<exists>zs. overrides s' = overrides s @ zs)"

lemma store_le_refl [simp]: "store_le s s"
  by (simp add: store_le_def)

lemma store_le_trans: "store_le s s' \<Longrightarrow> store_le s' s'' \<Longrightarrow> store_le s s''"
  unfolding store_le_def by (auto intro: map_le_trans)

lemma map_le_put [simp]: "m k = None \<Longrightarrow> m \<subseteq>\<^sub>m m(k \<mapsto> v)"
  by (simp add: map_le_def) (metis domIff)

lemma insert_store_le:
  "InsertPolicyVersion c pv s = Inr s' \<Longrightarrow> store_le s s'"
  "InsertPolicyActivation c pa s = Inr s' \<Longrightarrow> store_le s s'"
  "InsertThreshold c t s = Inr s' \<Longrightarrow> store_le s s'"
  "InsertOverride c v s = Inr s' \<Longrightarrow> store_le s s'"
  by (auto simp: InsertPolicyVersion_def InsertPolicyActivation_def InsertThreshold_def InsertOverride_def
      store_le_def Let_def split: if_splits)

lemma rulepack_store_le:
  assumes "InsertRulePackAndRules c pack rs s = Inr s'"
  shows "store_le s s'"
proof -
  note ins = InsertRulePackAndRules_Inr [OF assms]
  have "map_of (rules s) \<subseteq>\<^sub>m map_of (rules s')"
  proof (unfold map_le_def, intro ballI)
    fix k assume "k \<in> dom (map_of (rules s))"
    then have "k \<notin> rule_key ` set rs" using ins(4) by auto
    then show "map_of (rules s) k = map_of (rules s') k" using ins(5) by simp
  qed
  with ins show ?thesis by (simp add: store_le_def)
qed

section \<open>Success of the verbs\<close>

lemma checkRuleRefs_None:
  "checkRuleRefs c s rs = None \<longleftrightarrow>
     rs = [] \<or> (c = Live \<and> (\<forall>r \<in> set rs. map_of (rules s) (rr_RuleID r, rr_Version r) \<noteq> None))"
  by (cases c; induction rs) (auto simp: RuleExists_def split: if_splits)

lemma checkThresholdRefs_None:
  "checkThresholdRefs c s ts = None \<longleftrightarrow>
     ts = [] \<or> (c = Live \<and> (\<forall>t \<in> set ts. map_of (thresholds s) (tr_ThresholdID t) \<noteq> None))"
  by (cases c; induction ts) (auto simp: ThresholdExists_def split: if_splits)

lemma valid_rule_refs_iff:
  "valid_rule_refs seen rs \<longleftrightarrow>
     distinct rs \<and> (\<forall>r \<in> set rs. \<not> blank (rr_RuleID r) \<and> 0 < rr_Version r \<and> r \<notin> set seen)"
  by (induction rs arbitrary: seen) (auto simp: List.member_iff not_le)

lemma Publish_Inr:
  assumes "Publish us sg c gen now req s = Inr (pv, s')"
  shows "c = Live" and "validatePublishRequest req = None"
    and "RuleRefs pv = p_RuleRefs req" "ThresholdRefs pv = p_ThresholdRefs req"
      "pv_RefactorWeights pv = p_RefactorWeights req" "pv_Name pv = p_Name req" "pv_CreatedAt pv = now"
    and "gen = Some (PolicyVersionID pv)"
    and "map_of (policyVersions s) (PolicyVersionID pv) = None"
    and "s' = s\<lparr>policyVersions := gomap_put (PolicyVersionID pv) pv (policyVersions s)\<rparr>"
    and "\<forall>r \<in> set (RuleRefs pv). map_of (rules s) (rr_RuleID r, rr_Version r) \<noteq> None"
    and "\<forall>t \<in> set (ThresholdRefs pv). map_of (thresholds s) (tr_ThresholdID t) \<noteq> None"
    and "\<exists>m k. signed_bytes us (RuleRefs pv) (ThresholdRefs pv) (pv_RefactorWeights pv) = Inr m
          \<and> Sign sg c m = Inr (k, Signature pv)"
  using assms
  by (auto simp: Publish_def bindE_Inr freshID_def InsertPolicyVersion_def Let_def checkRuleRefs_None
      checkThresholdRefs_None sign_payload_def split: option.splits if_splits sum.splits keys_error.splits)

lemma Activate_Inr:
  assumes "Activate sg c gen now req s = Inr (pa, s')"
  shows "c = Live" and "map_of (policyVersions s) (pa_PolicyVersionID pa) \<noteq> None"
    and "pa_PolicyVersionID pa = a_PolicyVersionID req" "pa_CreatedAt pa = now" "gen = Some (ActivationID pa)"
    and "InsertPolicyActivation Live pa s = Inr s'"
    and "s' = s\<lparr>activations := activations s @ [pa]\<rparr>"
  using assms
  by (auto simp: Activate_def bindE_Inr freshID_def GetPolicyVersion_def InsertPolicyActivation_def Let_def
      split: option.splits if_splits)

lemma PublishRulepack_Inr:
  assumes "PublishRulepack sg c now req s = Inr ((pack, rs), s')"
  shows "InsertRulePackAndRules c pack rs s = Inr s'" and "validatePublishRulepackRequest req = None"
    and "rs = map (rule_of_spec (rp_PackID pack) now) (Rules req)" "rp_PackID pack = k_PackID req" "c = Live"
  using assms
  by (auto simp: PublishRulepack_def bindE_Inr Let_def InsertRulePackAndRules_def split: if_splits)

lemma Override_Inr:
  assumes "Override c gen now req s = Inr (v, s')"
  shows "c = Live" and "validateOverrideRequest req = None"
    and "\<exists>n. map_of (rules s) (o_RuleID v, n) \<noteq> None"
    and "OverrideID v \<notin> set (map OverrideID (overrides s))" "OverrideID v \<noteq> uuid_Nil"
    and "InsertOverride Live v s = Inr s'" "s' = s\<lparr>overrides := overrides s @ [v]\<rparr>"
    and "o_RuleID v = q_RuleID req" "o_ScopeFilter v = q_ScopeFilter req" "Mute v = q_Mute req"
      "Reason v = q_Reason req" "ActorID v = q_ActorID req" "o_CreatedAt v = now" "gen = Some (OverrideID v)"
proof -
  have ex: "list_ex (\<lambda>((i, _), _). i = q_RuleID req) (rules s)"
    and rest: "c = Live" "validateOverrideRequest req = None"
      "OverrideID v \<notin> set (map OverrideID (overrides s))" "OverrideID v \<noteq> uuid_Nil"
      "InsertOverride Live v s = Inr s'" "s' = s\<lparr>overrides := overrides s @ [v]\<rparr>"
      "o_RuleID v = q_RuleID req" "o_ScopeFilter v = q_ScopeFilter req" "Mute v = q_Mute req"
      "Reason v = q_Reason req" "ActorID v = q_ActorID req" "o_CreatedAt v = now" "gen = Some (OverrideID v)"
    using assms
    by (auto simp: Override_def bindE_Inr freshID_def RuleExistsByID_def InsertOverride_def Let_def list_ex_iff
        split: option.splits if_splits)
  from ex obtain n r where "((q_RuleID req, n), r) \<in> set (rules s)" by (auto simp: list_ex_iff)
  then show "\<exists>n. map_of (rules s) (o_RuleID v, n) \<noteq> None"
    using rest(7) by (metis map_of_eq_None_iff image_eqI fst_conv)
qed (use assms in \<open>auto simp: Override_def bindE_Inr freshID_def RuleExistsByID_def InsertOverride_def Let_def list_ex_iff
        split: option.splits if_splits\<close>)

section \<open>Referential integrity\<close>

definition version_ok :: "InMemoryStore \<Rightarrow> PolicyVersion \<Rightarrow> bool" where
  "version_ok s pv \<longleftrightarrow>
     RuleRefs pv \<noteq> [] \<and> distinct (RuleRefs pv)
     \<and> (\<forall>r \<in> set (RuleRefs pv). map_of (rules s) (rr_RuleID r, rr_Version r) \<noteq> None)
     \<and> (\<forall>t \<in> set (ThresholdRefs pv). map_of (thresholds s) (tr_ThresholdID t) \<noteq> None)"

definition rule_ok :: "InMemoryStore \<Rightarrow> Rule \<Rightarrow> bool" where
  "rule_ok s r \<longleftrightarrow>
     Severity_IsValid (SeverityDefault r) \<and> \<not> blank (PredicateDSL r) \<and> 0 < Version r
     \<and> (\<exists>n. map_of (rulePacks s) (PackID r, n) \<noteq> None)"

definition override_ok :: "InMemoryStore \<Rightarrow> Override \<Rightarrow> bool" where
  "override_ok s v \<longleftrightarrow>
     (\<exists>n. map_of (rules s) (o_RuleID v, n) \<noteq> None) \<and> ScopeKind_IsValid (sf_ScopeKind (o_ScopeFilter v))
     \<and> (Mute v \<longrightarrow> \<not> blank (Reason v)) \<and> \<not> blank (ActorID v)"

definition store_inv :: "InMemoryStore \<Rightarrow> bool" where
  "store_inv s \<longleftrightarrow>
     gomap_ok (policyVersions s) \<and> gomap_ok (rulePacks s) \<and> gomap_ok (rules s) \<and> gomap_ok (thresholds s)
     \<and> (\<forall>i pv. map_of (policyVersions s) i = Some pv \<longrightarrow> PolicyVersionID pv = i \<and> version_ok s pv)
     \<and> (\<forall>pa \<in> set (activations s). map_of (policyVersions s) (pa_PolicyVersionID pa) \<noteq> None)
     \<and> (\<forall>k r. map_of (rules s) k = Some r \<longrightarrow> rule_key r = k \<and> rule_ok s r)
     \<and> (\<forall>i t. map_of (thresholds s) i = Some t \<longrightarrow> ThresholdID (th_row t) = i)
     \<and> (\<forall>v \<in> set (overrides s). override_ok s v) \<and> distinct (map OverrideID (overrides s))"

lemma map_le_not_None: "m \<subseteq>\<^sub>m m' \<Longrightarrow> m k \<noteq> None \<Longrightarrow> m' k \<noteq> None"
  by (metis domIff map_le_def)

lemma ok_mono:
  assumes "store_le s s'"
  shows "version_ok s pv \<Longrightarrow> version_ok s' pv" "rule_ok s r \<Longrightarrow> rule_ok s' r" "override_ok s v \<Longrightarrow> override_ok s' v"
proof -
  have le: "map_of (rules s) \<subseteq>\<^sub>m map_of (rules s')" "map_of (thresholds s) \<subseteq>\<^sub>m map_of (thresholds s')"
    "map_of (rulePacks s) \<subseteq>\<^sub>m map_of (rulePacks s')"
    using assms by (simp_all add: store_le_def)
  note mono = map_le_not_None [OF le(1)] map_le_not_None [OF le(2)] map_le_not_None [OF le(3)]
  show "version_ok s pv \<Longrightarrow> version_ok s' pv"
    unfolding version_ok_def using mono by blast
  show "rule_ok s r \<Longrightarrow> rule_ok s' r"
    unfolding rule_ok_def using mono by blast
  show "override_ok s v \<Longrightarrow> override_ok s' v"
    unfolding override_ok_def using mono by blast
qed

lemma store_inv_Publish:
  assumes "store_inv s" and "Publish us sg c gen now req s = Inr (pv, s')"
  shows "store_inv s'"
proof -
  note pub = Publish_Inr [OF assms(2)]
  have le: "store_le s s'"
    using pub(9,10) by (simp add: store_le_def)
  have "version_ok s pv"
    using pub(2,3,11,12) by (auto simp: version_ok_def validatePublishRequest_def valid_rule_refs_iff Let_def
        split: if_splits)
  then show ?thesis
    using assms(1) pub(9,10) ok_mono [OF le] by (auto simp: store_inv_def split: if_splits)
qed

lemma store_inv_Activate:
  assumes "store_inv s" and "Activate sg c gen now req s = Inr (pa, s')"
  shows "store_inv s'"
proof -
  note act = Activate_Inr [OF assms(2)]
  have "store_le s s'" using act(7) by (simp add: store_le_def)
  then show ?thesis
    using assms(1) act(2,7) ok_mono by (auto simp: store_inv_def)
qed

lemma rule_of_spec_simps [simp]:
  "rule_key (rule_of_spec p now r) = (rs_RuleID r, rs_Version r)"
  "SeverityDefault (rule_of_spec p now r) = rs_SeverityDefault r"
  "PredicateDSL (rule_of_spec p now r) = rs_PredicateDSL r"
  "Version (rule_of_spec p now r) = rs_Version r" "PackID (rule_of_spec p now r) = p"
  by (simp_all add: rule_of_spec_def rule_key_def)

lemma valid_rule_specs_all:
  "valid_rule_specs seen rs \<Longrightarrow> r \<in> set rs \<Longrightarrow>
     Severity_IsValid (rs_SeverityDefault r) \<and> \<not> blank (rs_PredicateDSL r) \<and> 0 < rs_Version r"
  by (induction rs arbitrary: seen) (auto split: if_splits)

lemma store_inv_PublishRulepack:
  assumes inv: "store_inv s" and "PublishRulepack sg c now req s = Inr ((pack, rs), s')"
  shows "store_inv s'"
proof -
  note pub = PublishRulepack_Inr [OF assms(2)]
  note ins = InsertRulePackAndRules_Inr [OF pub(1)]
  have le: "store_le s s'" by (rule rulepack_store_le [OF pub(1)])
  have specs: "valid_rule_specs [] (Rules req)"
    using pub(2) by (auto simp: validatePublishRulepackRequest_def split: if_splits)
  have new: "rule_ok s' r" if "r \<in> set rs" for r
    using that pub(3) valid_rule_specs_all [OF specs] ins(1) by (fastforce simp: rule_ok_def)
  have rules: "rule_key r = k \<and> rule_ok s' r" if "map_of (rules s') k = Some r" for k r
  proof (cases "k \<in> rule_key ` set rs")
    case True
    then obtain r' where "r' \<in> set rs" "k = rule_key r'" by blast
    with ins(3) that new show ?thesis by simp
  next
    case False
    with that ins(5) have "map_of (rules s) k = Some r" by simp
    then show ?thesis using inv ok_mono(2) [OF le] unfolding store_inv_def by blast
  qed
  have maps: "gomap_ok (rulePacks s')" "gomap_ok (rules s')"
    using pub(1) inv gomap_ok_fold_put
    by (auto simp: InsertRulePackAndRules_def store_inv_def Let_def split: if_splits)
  have "\<forall>i pv. map_of (policyVersions s) i = Some pv \<longrightarrow> PolicyVersionID pv = i \<and> version_ok s' pv"
    and "\<forall>v \<in> set (overrides s). override_ok s' v"
    using inv ok_mono [OF le] by (auto simp: store_inv_def)
  with inv maps rules show ?thesis
    unfolding store_inv_def ins(6-9) by simp
qed

lemma store_inv_Override:
  assumes "store_inv s" and "Override c gen now req s = Inr (v, s')"
  shows "store_inv s'"
proof -
  note ovr = Override_Inr [OF assms(2)]
  have le: "store_le s s'" using ovr(7) by (simp add: store_le_def)
  have "override_ok s v"
    using ovr(2,3,9-12) by (auto simp: override_ok_def validateOverrideRequest_def split: if_splits)
  then show ?thesis
    using assms(1) ovr(4,7) ok_mono [OF le] by (auto simp: store_inv_def)
qed

lemma store_inv_InsertThreshold:
  assumes "store_inv s" and "InsertThreshold c t s = Inr s'"
  shows "store_inv s'"
proof -
  have le: "store_le s s'" using assms(2) by (rule insert_store_le)
  show ?thesis
    using assms ok_mono [OF le] by (auto simp: store_inv_def InsertThreshold_def Let_def split: if_splits)
qed

lemma steward_step_inv: "store_inv s \<Longrightarrow> store_inv (steward_step us x s)"
  by (cases x) (auto simp: keep_def split: sum.splits
      intro: store_inv_Publish store_inv_Activate store_inv_PublishRulepack store_inv_Override store_inv_InsertThreshold)

lemma steward_step_le: "store_le s (steward_step us x s)"
proof (cases x)
  case (OpPublish sg c gen now req)
  then show ?thesis
    using Publish_Inr(9,10) by (fastforce simp: keep_def store_le_def split: sum.splits)
next
  case (OpActivate sg c gen now req)
  then show ?thesis
    using Activate_Inr(7) by (fastforce simp: keep_def store_le_def split: sum.splits)
next
  case (OpPublishRulepack sg c now req)
  then show ?thesis
    using PublishRulepack_Inr(1) rulepack_store_le by (fastforce simp: keep_def split: sum.splits)
next
  case (OpOverride c gen now req)
  then show ?thesis
    using Override_Inr(7) by (fastforce simp: keep_def store_le_def split: sum.splits)
next
  case (OpInsertThreshold c t)
  then show ?thesis
    using insert_store_le by (auto split: sum.splits)
qed

lemma steward_run_inv: "store_inv (steward_run us ops)"
proof -
  have "store_inv s \<Longrightarrow> store_inv (fold (steward_step us) ops s)" for s
    by (induction ops arbitrary: s) (simp_all add: steward_step_inv)
  moreover have "store_inv NewInMemoryStore"
    by (simp add: store_inv_def NewInMemoryStore_def)
  ultimately show ?thesis by (simp add: steward_run_def)
qed

lemma steward_run_le: "store_le (steward_run us ops) (steward_run us (ops @ ops'))"
proof -
  have "store_le s (fold (steward_step us) ops s)" for s ops
    by (induction ops arbitrary: s) (auto intro: store_le_trans steward_step_le)
  then show ?thesis by (simp add: steward_run_def)
qed

lemma active_policy_cases:
  assumes "store_inv s"
  shows "ActivePolicyVersion Live s =
    Inr (case latest_scan pa_CreatedAt ActivationID None (activations s) of
           None \<Rightarrow> None | Some pa \<Rightarrow> map_of (policyVersions s) (pa_PolicyVersionID pa))"
proof (cases "latest_scan pa_CreatedAt ActivationID None (activations s)")
  case None
  then show ?thesis by (simp add: ActivePolicyVersion_def LatestActivation_scan)
next
  case (Some pa)
  then have "pa \<in> set (activations s)" by (blast dest: latest_scan_max)
  then obtain pv where "map_of (policyVersions s) (pa_PolicyVersionID pa) = Some pv"
    using assms by (auto simp: store_inv_def)
  with Some show ?thesis
    by (simp add: ActivePolicyVersion_def LatestActivation_scan GetPolicyVersion_def)
qed

lemma version_id: "store_inv s \<Longrightarrow> map_of (policyVersions s) i = Some pv \<Longrightarrow> PolicyVersionID pv = i"
  unfolding store_inv_def by blast

section \<open>Properties\<close>

text \<open>
  What the steward relies on: a signature made by the service in one state is accepted in
  every state that is in its window. The states of the signing service are its own.
\<close>

locale signing_service =
  fixes signs :: "'w \<Rightarrow> string \<Rightarrow> keys_error + uuid \<times> string"
    and accepts :: "'w \<Rightarrow> string \<Rightarrow> string \<Rightarrow> keys_error + uuid"
    and window :: "'w \<Rightarrow> 'w \<Rightarrow> bool"
  assumes accepts_signed: "window w w' \<Longrightarrow> signs w msg = Inr (k, sig) \<Longrightarrow> \<exists>k'. accepts w' msg sig = Inr k'"
begin

lemma published_verifies:
  assumes "window w w'" and "Sign sg Live = signs w" and "VerifyAny sg' Live = accepts w'"
    and "Publish uuid_String sg Live gen now req s = Inr (pv, s')"
  shows "VerifyPolicyVersionSignature uuid_String sg' Live pv = None"
proof -
  note pub = Publish_Inr [OF assms(4)]
  obtain m k where m: "signed_bytes uuid_String (RuleRefs pv) (ThresholdRefs pv) (pv_RefactorWeights pv) = Inr m"
    "Sign sg Live m = Inr (k, Signature pv)" using pub(13) by blast
  then obtain k' where "VerifyAny sg' Live m (Signature pv) = Inr k'"
    using accepts_signed [OF assms(1)] assms(2,3) by metis
  with m show ?thesis by (simp add: VerifyPolicyVersionSignature_def)
qed

end

text \<open>
  The window of the key manager: its cache is at most \<open>d\<close> out of date, any rotations and
  reloads may have happened since, and less than the overlap less \<open>d\<close> has passed.
\<close>

definition key_window :: "fingerprint \<Rightarrow> Manager \<times> KeyRecord list \<times> time \<Rightarrow> Manager \<times> KeyRecord list \<times> time \<Rightarrow> bool" where
  "key_window fp w w' \<longleftrightarrow>
     (case (w, w') of ((m, rows, t), (m', rows', now)) \<Rightarrow>
        \<exists>d. manager_ok (m, rows) \<and> stale_by d t (m, rows) \<and> later fp t (m, rows) (m', rows')
          \<and> t \<le> now \<and> now < t - d + overlap m \<and> t - d + overlap m \<le> SentinelValidUntil)"

interpretation key_manager: signing_service
  "\<lambda>(m, _, t). Manager_Sign ed kms m t Live" "\<lambda>(m, _, t). Manager_VerifyAny ed m t Live" "key_window fp"
  for ed kms fp
proof
  fix w w' :: "Manager \<times> KeyRecord list \<times> time" and msg k sig
  assume win: "key_window fp w w'" and sg: "(case w of (m, _, t) \<Rightarrow> Manager_Sign ed kms m t Live) msg = Inr (k, sig)"
  obtain m rows t m' rows' now where w: "w = (m, rows, t)" "w' = (m', rows', now)" by (metis prod_cases3)
  with win obtain d where "manager_ok (m, rows)" "stale_by d t (m, rows)" "later fp t (m, rows) (m', rows')"
    "t \<le> now" "now < t - d + overlap m" "t - d + overlap m \<le> SentinelValidUntil"
    by (auto simp: key_window_def)
  with sign_window [of m rows d t ed kms Live msg k sig m' rows' now] later_grown sg w
  show "\<exists>k'. (case w' of (m, _, t) \<Rightarrow> Manager_VerifyAny ed m t Live) msg sig = Inr k'" by auto
qed

text \<open>The signer and the requests of the concrete instances.\<close>

definition ex_signer :: Signer where
  "ex_signer = manager_signer ex_ed (ex_kms CHR ''a'') (fst (snd ex_keys1)) 111"

definition ex_weights :: RefactorWeights where
  "ex_weights =
     \<lparr>Alpha = Fin (1/2), Beta = Fin 1, Gamma = Fin 0, Delta = Fin (1/4), EffortModelVersion = ''v1'',
      WindowDays = 90, FreshnessWindowSeconds = None, TopN = 0\<rparr>"

definition ex_publish :: PublishRequest where
  "ex_publish =
     \<lparr>p_Name = ''main'', p_RuleRefs = [\<lparr>rr_RuleID = ''r1'', rr_Version = 1\<rparr>], p_ThresholdRefs = [\<lparr>tr_ThresholdID = 7\<rparr>],
      p_RefactorWeights = ex_weights\<rparr>"

definition ex_pack :: PublishRulepackRequest where
  "ex_pack =
     \<lparr>k_PackID = ''base'', k_Version = 1, k_DisplayName = ''Base'', k_DescriptionMD = [],
      Rules = [\<lparr>rs_RuleID = ''r1'', rs_Version = 1, rs_PredicateDSL = ''threshold('7')'', rs_SeverityDefault = ''block'',
                rs_DescriptionMD = []\<rparr>]\<rparr>"

definition ex_threshold :: ThresholdRow where
  "ex_threshold =
     \<lparr>th_row = \<lparr>ThresholdID = 7, TMetricKind = ''cyclo'', TScopeKind = ''file'', Op = OpGT, TValue = Fin 10\<rparr>,
      th_CreatedAt = 1\<rparr>"

definition ex_uuid_String :: "uuid \<Rightarrow> string" where
  "ex_uuid_String i = dec_digits (uint i)"

definition ex_mute :: OverrideRequest where
  "ex_mute =
     \<lparr>q_RuleID = ''r1'', q_ScopeFilter = \<lparr>sf_RepoID = ''R'', sf_ScopeKind = ''file'', ScopeSignatureGlob = ''src/*''\<rparr>,
      q_Mute = True, q_Reason = ''noisy'', q_ActorID = ''op''\<rparr>"

definition ex_setup :: "steward_op list" where
  "ex_setup = [OpInsertThreshold Live ex_threshold, OpPublishRulepack ex_signer Live 2 ex_pack]"

definition ex_store :: InMemoryStore where
  "ex_store = steward_run ex_uuid_String ex_setup"

definition ex_published :: "steward_error + PolicyVersion \<times> InMemoryStore" where
  "ex_published = Publish ex_uuid_String ex_signer Live (Some 50) 3 ex_publish ex_store"

definition ex_activated :: "steward_error + PolicyActivation \<times> InMemoryStore" where
  "ex_activated =
     bindE ex_published (\<lambda>(_, s). Activate ex_signer Live (Some 60) 4 \<lparr>a_PolicyVersionID = 50, a_ActivatedBy = ''op''\<rparr> s)"

text \<open>
  C13. After every history of verbs and threshold inserts, successful or refused, the store
  is referentially intact: every activation names a stored version, every version cites
  stored rules and thresholds and has distinct rule references, every rule has a valid
  severity and a stored pack, every override names a stored rule and carries a reason when
  it mutes, identifiers are keys.
\<close>
theorem steward_referential_integrity: "store_inv (steward_run uuid_String ops)"
  by (rule steward_run_inv)

text \<open>
  C33. The store is append-only: continuing a history never changes or removes a row, and
  the two logs only grow at their end.
\<close>
theorem steward_append_only: "store_le (steward_run uuid_String ops) (steward_run uuid_String (ops @ ops'))"
  by (rule steward_run_le)

text \<open>
  C34. After every history the evaluator's read of the active policy does not fail. It finds
  nothing exactly when nothing was activated, and otherwise the version named by the
  activation with the largest creation time and, on a tie, identifier.
\<close>
theorem ActivePolicyVersion_latest:
  fixes ops and uuid_String
  defines "s \<equiv> steward_run uuid_String ops"
  shows "(ActivePolicyVersion Live s = Inr None \<and> activations s = [])
    \<or> (\<exists>pa pv. ActivePolicyVersion Live s = Inr (Some pv) \<and> pa \<in> set (activations s)
         \<and> PolicyVersionID pv = pa_PolicyVersionID pa
         \<and> list_all (\<lambda>pa'. row_le pa_CreatedAt ActivationID pa' pa) (activations s))"
proof (cases "latest_scan pa_CreatedAt ActivationID None (activations s)")
  case None
  then show ?thesis
    using active_policy_cases [OF steward_run_inv] by (simp add: s_def latest_scan_None_iff)
next
  case (Some pa)
  then have pa: "pa \<in> set (activations s)" "list_all (\<lambda>pa'. row_le pa_CreatedAt ActivationID pa' pa) (activations s)"
    by (auto simp: list_all_iff dest: latest_scan_max)
  obtain pv where pv: "map_of (policyVersions s) (pa_PolicyVersionID pa) = Some pv"
    using steward_run_inv [of uuid_String ops] pa(1) by (auto simp: store_inv_def s_def)
  then have "PolicyVersionID pv = pa_PolicyVersionID pa"
    using version_id [OF steward_run_inv] s_def by blast
  then show ?thesis
    using active_policy_cases [OF steward_run_inv, of uuid_String ops] Some pa pv by (auto simp flip: s_def)
qed

text \<open>
  C11. A published version is stored as returned, and the signature on it, made by the key
  manager, verifies against the bytes rebuilt from the stored row throughout the window of
  the key that made it: whatever rotations and reloads happen in between.
\<close>
theorem Publish_then_verify:
  assumes "key_window fp (m, rows, t) (m', rows', t')"
    and "Publish uuid_String (manager_signer ed kms m t) Live gen now req s = Inr (pv, s')"
  shows "VerifyPolicyVersionSignature uuid_String (manager_signer ed kms m' t') Live pv = None
    \<and> GetPolicyVersion Live (PolicyVersionID pv) s' = Inr pv"
proof
  show "VerifyPolicyVersionSignature uuid_String (manager_signer ed kms m' t') Live pv = None"
    using key_manager.published_verifies [OF assms(1) _ _ assms(2), of ed kms "manager_signer ed kms m' t'"]
    by (simp add: manager_signer_def)
  show "GetPolicyVersion Live (PolicyVersionID pv) s' = Inr pv"
    using Publish_Inr [OF assms(2)] by (simp add: GetPolicyVersion_def)
qed

lemma ex_published_ok: "\<exists>pv s'. ex_published = Inr (pv, s')"
proof -
  have "\<not> isl ex_published" by code_simp
  then show ?thesis by (metis prod.exhaust sum.collapse(2))
qed

lemma ex_activated_ok: "\<exists>pa s'. ex_activated = Inr (pa, s')"
proof -
  have "\<not> isl ex_activated" by code_simp
  then show ?thesis by (metis prod.exhaust sum.collapse(2))
qed

theorem Publish_then_verify_witness:
  "\<exists>pv s'. ex_published = Inr (pv, s')
     \<and> VerifyPolicyVersionSignature ex_uuid_String (manager_signer ex_ed (ex_kms CHR ''a'') (fst (snd ex_keys2)) 120) Live pv = None
     \<and> GetPolicyVersion Live (PolicyVersionID pv) s' = Inr pv"
proof -
  obtain pv s' where "ex_published = Inr (pv, s')" using ex_published_ok by blast
  moreover have "key_window ex_fp (fst (snd ex_keys1), snd (snd ex_keys1), 111) (fst (snd ex_keys2), snd (snd ex_keys2), 120)"
    using ex_later_window by (auto simp: key_window_def)
  ultimately show ?thesis
    using Publish_then_verify [of ex_fp "fst (snd ex_keys1)" "snd (snd ex_keys1)" 111 "fst (snd ex_keys2)" "snd (snd ex_keys2)" 120
        ex_uuid_String ex_ed "ex_kms CHR ''a''" "Some 50" 3 ex_publish ex_store pv s']
    by (simp add: ex_published_def ex_signer_def)
qed

text \<open>
  A service that signs: under the handle of each key of the manager it answers any message
  with a signature of the right length that the key's public half accepts.
\<close>

definition service_signs :: "ed_verify \<Rightarrow> KMS \<Rightarrow> Manager \<Rightarrow> bool" where
  "service_signs ed kms m \<longleftrightarrow>
     (\<forall>r \<in> set (key_cache m). \<forall>b. length (PublicKey r) = Ed25519PublicKeySize
        \<and> (\<exists>sig. kms_Sign kms Live (Handle r) b = Inr sig \<and> length sig = Ed25519SignatureSize \<and> ed (PublicKey r) b sig))"

lemma valid_threshold_refs_iff:
  "valid_threshold_refs seen ts \<longleftrightarrow>
     distinct (map tr_ThresholdID ts) \<and> (\<forall>t \<in> set ts. tr_ThresholdID t \<noteq> uuid_Nil \<and> tr_ThresholdID t \<notin> set seen)"
proof (induction ts arbitrary: seen)
  case (Cons t ts)
  show ?case by (simp add: Cons.IH List.member_iff image_iff) metis
qed simp

text \<open>The validator accepts exactly the requests with these fields.\<close>

lemma validatePublishRequest_None:
  "validatePublishRequest req = None \<longleftrightarrow>
     \<not> blank (p_Name req) \<and> p_RuleRefs req \<noteq> [] \<and> distinct (p_RuleRefs req)
     \<and> (\<forall>r \<in> set (p_RuleRefs req). \<not> blank (rr_RuleID r) \<and> 0 < rr_Version r)
     \<and> distinct (map tr_ThresholdID (p_ThresholdRefs req))
     \<and> (\<forall>t \<in> set (p_ThresholdRefs req). tr_ThresholdID t \<noteq> uuid_Nil)
     \<and> 0 < WindowDays (p_RefactorWeights req) \<and> \<not> blank (EffortModelVersion (p_RefactorWeights req))
     \<and> (\<forall>n. FreshnessWindowSeconds (p_RefactorWeights req) = Some n \<longrightarrow> 0 < n) \<and> 0 \<le> TopN (p_RefactorWeights req)"
  unfolding validatePublishRequest_def Let_def valid_rule_refs_iff valid_threshold_refs_iff
  by (auto simp: not_le not_less split: option.splits)

text \<open>A key is listed as active exactly when one has entered service.\<close>

lemma manager_checkSigningKey:
  assumes "rows_ok (key_cache m)" and "0 \<le> overlap m" and "t < SentinelValidUntil"
  shows "checkSigningKey Live (manager_signer ed kms m t) = None \<longleftrightarrow> signingKey (key_cache m) t \<noteq> None"
proof -
  obtain vs where vs: "Manager_ListActive m t Live = Inr vs" by (simp add: Manager_ListActive_def)
  from ListActive_signing [OF assms vs] vs show ?thesis
    by (auto simp: checkSigningKey_def manager_signer_def split: if_splits)
qed

lemma signingKey_iff: "signingKey cs t \<noteq> None \<longleftrightarrow> (\<exists>r \<in> set cs. ValidFrom r \<le> t)"
  by (auto simp: signingKey_def find_None_iff not_less)

lemma service_signs_Sign:
  assumes "service_signs ed kms m" and "rows_ok (key_cache m)" and "signingKey (key_cache m) t \<noteq> None"
  shows "\<exists>sig. sign_payload Live (manager_signer ed kms m t) b = Inr sig"
proof -
  obtain r where r: "signingKey (key_cache m) t = Some r" using assms(3) by blast
  then have "r \<in> set (key_cache m)" using signingKey_Some(1) [OF assms(2)] by blast
  then obtain sig where "kms_Sign kms Live (Handle r) b = Inr sig" "length sig = Ed25519SignatureSize"
    "ed (PublicKey r) b sig" "length (PublicKey r) = Ed25519PublicKeySize"
    using assms(1) unfolding service_signs_def by blast
  then show ?thesis
    using r by (simp add: sign_payload_def manager_signer_def Manager_Sign_def sign_with_def verifyAgainstPublic_def)
qed

lemma signed_bytes_Inr: "(\<exists>b. signed_bytes us rr tr w = Inr b) \<longleftrightarrow> finite_weights w"
  using canonicalJSON_Some [of us "\<lparr>sp_RuleRefs = rr, sp_ThresholdRefs = tr, sp_RefactorWeights = w\<rparr>"]
  by (auto simp: signed_bytes_def split: option.splits)

text \<open>
  C35. When publishing succeeds. With the key manager as the signer and a key-management
  service that signs, it does exactly when the context is live, some key has entered
  service, the name and the effort model are not blank, there is a rule reference, the rule
  references are distinct, not blank, of a positive version and stored, the threshold
  references are distinct, not nil and stored, the four weights are finite, the two windows
  are positive, the cut-off is not negative, and the generator yields an unused identifier.
\<close>
theorem Publish_succeeds_iff:
  assumes "rows_ok (key_cache m)" and "0 \<le> overlap m" and "t < SentinelValidUntil" and "service_signs ed kms m"
  shows "(\<exists>pv s'. Publish uuid_String (manager_signer ed kms m t) c gen now req s = Inr (pv, s')) \<longleftrightarrow>
     c = Live \<and> list_ex (\<lambda>r. ValidFrom r \<le> t) (key_cache m)
     \<and> \<not> blank (p_Name req)
     \<and> p_RuleRefs req \<noteq> [] \<and> distinct (p_RuleRefs req)
     \<and> list_all (\<lambda>r. \<not> blank (rr_RuleID r) \<and> 0 < rr_Version r \<and> map_of (rules s) (rr_RuleID r, rr_Version r) \<noteq> None)
         (p_RuleRefs req)
     \<and> distinct (map tr_ThresholdID (p_ThresholdRefs req))
     \<and> list_all (\<lambda>t. tr_ThresholdID t \<noteq> uuid_Nil \<and> map_of (thresholds s) (tr_ThresholdID t) \<noteq> None) (p_ThresholdRefs req)
     \<and> (let w = p_RefactorWeights req in
         list_all (\<lambda>x. \<exists>q. x = Fin q) [Alpha w, Beta w, Gamma w, Delta w]
         \<and> 0 < WindowDays w \<and> \<not> blank (EffortModelVersion w)
         \<and> pred_option (\<lambda>n. 0 < n) (FreshnessWindowSeconds w) \<and> 0 \<le> TopN w)
     \<and> (\<exists>i. gen = Some i \<and> map_of (policyVersions s) i = None)"
  (is "?lhs \<longleftrightarrow> ?rhs")
proof (cases "c = Live")
  case live: True
  let ?sg = "manager_signer ed kms m t" and ?w = "p_RefactorWeights req"
  have key: "checkSigningKey c ?sg = None \<longleftrightarrow> list_ex (\<lambda>r. ValidFrom r \<le> t) (key_cache m)"
    using manager_checkSigningKey [OF assms(1-3), of ed kms] live signingKey_iff [of "key_cache m" t] by (simp only: list_ex_iff)
  have fin: "finite_weights ?w \<longleftrightarrow> list_all (\<lambda>x. \<exists>q. x = Fin q) [Alpha ?w, Beta ?w, Gamma ?w, Delta ?w]"
    by (simp add: finite_weights_def)
  have "?lhs \<longleftrightarrow> checkSigningKey c ?sg = None \<and> validatePublishRequest req = None
     \<and> checkRuleRefs c s (p_RuleRefs req) = None \<and> checkThresholdRefs c s (p_ThresholdRefs req) = None
     \<and> finite_weights ?w \<and> (\<exists>i. gen = Some i \<and> map_of (policyVersions s) i = None)" (is "_ \<longleftrightarrow> ?mid")
  proof
    assume ?lhs
    then obtain pv s' where pub: "Publish uuid_String ?sg c gen now req s = Inr (pv, s')" by blast
    note p = Publish_Inr [OF pub]
    have "finite_weights ?w" using p(3,4,5,13) signed_bytes_Inr by metis
    with pub p(8,9) show ?mid by (auto simp: Publish_def)
  next
    assume mid: ?mid
    obtain b where b: "signed_bytes uuid_String (p_RuleRefs req) (p_ThresholdRefs req) ?w = Inr b"
      using mid signed_bytes_Inr by blast
    have "signingKey (key_cache m) t \<noteq> None"
      using manager_checkSigningKey [OF assms(1-3), of ed kms] mid unfolding live by simp
    then obtain sig where "sign_payload Live ?sg b = Inr sig" using service_signs_Sign [OF assms(4,1)] by blast
    with mid b live show ?lhs by (auto simp: Publish_def freshID_def InsertPolicyVersion_def Let_def)
  qed
  also have "\<dots> \<longleftrightarrow> ?rhs"
    unfolding key validatePublishRequest_None checkRuleRefs_None checkThresholdRefs_None fin list_all_iff Let_def
      option.pred_set
    using live by auto
  finally show ?thesis .
next
  case False
  then show ?thesis using Publish_Inr(1) by blast
qed

theorem Publish_succeeds_iff_witness:
  "\<exists>pv s'. Publish ex_uuid_String ex_signer Live (Some 50) 3 ex_publish ex_store = Inr (pv, s')"
proof -
  have signs: "service_signs ex_ed (ex_kms CHR ''a'') (fst (snd ex_keys1))"
    by (simp add: service_signs_def ex_keys1_state ex_record_def ex_kms_def ex_ed_def Ed25519PublicKeySize_def
        Ed25519SignatureSize_def)
  have "rows_ok (key_cache (fst (snd ex_keys1)))" "0 \<le> overlap (fst (snd ex_keys1))"
    by (simp_all add: ex_keys1_state rows_ok_def)
  moreover have "map_of (rules ex_store) (''r1'', 1) \<noteq> None" "map_of (thresholds ex_store) 7 \<noteq> None"
    "map_of (policyVersions ex_store) 50 = None" by code_simp+
  moreover have "\<not> blank ''main''" "\<not> blank ''r1''" "\<not> blank ''v1''" by code_simp+
  moreover have "\<exists>q :: rat. q * 2 = 1" "\<exists>q :: rat. q * 4 = 1"
    by (rule exI [of _ "1/2"], simp) (rule exI [of _ "1/4"], simp)
  ultimately show ?thesis
    unfolding ex_signer_def
    by (subst Publish_succeeds_iff [OF _ _ _ signs])
      (simp_all add: ex_publish_def ex_weights_def ex_keys1_state ex_record_def SentinelValidUntil_def)
qed

text \<open>
  A steward built without a signer refuses the three signed verbs in every context and
  for every request with the missing-key error, before it looks at the request.
\<close>
theorem no_signer_refuses:
  "Publish uuid_String (New None) c gen now req s = Inl ErrNoActiveSigningKey
   \<and> Activate (New None) c gen now areq s = Inl ErrNoActiveSigningKey
   \<and> PublishRulepack (New None) c now kreq s = Inl ErrNoActiveSigningKey"
  by (simp add: Publish_def Activate_def PublishRulepack_def checkSigningKey_def New_def noActiveSigner_def)

text \<open>
  The override verb needs no signing key: it succeeds exactly when the context is live,
  the request is well-formed, some version of the rule is stored, and the generator yields
  a non-zero unused identifier.
\<close>
theorem Override_succeeds_iff:
  "(\<exists>v s'. Override c gen now req s = Inr (v, s')) \<longleftrightarrow>
     c = Live \<and> validateOverrideRequest req = None \<and> (\<exists>n. (q_RuleID req, n) \<in> set (map fst (rules s)))
     \<and> (\<exists>i. gen = Some i \<and> i \<noteq> uuid_Nil \<and> i \<notin> set (map OverrideID (overrides s)))"
  (is "?lhs \<longleftrightarrow> ?rhs")
proof
  assume ?lhs
  then obtain v s' where "Override c gen now req s = Inr (v, s')" by blast
  from Override_Inr [OF this] show ?rhs
    by (auto simp: map_of_eq_None_iff)
next
  assume r: ?rhs
  then have "list_ex (\<lambda>((i, _), _). i = q_RuleID req) (rules s)" by (fastforce simp: list_ex_iff)
  with r show ?lhs
    by (auto simp: Override_def RuleExistsByID_def freshID_def InsertOverride_def Let_def list_ex_iff)
qed

text \<open>
  C36. Mute and unmute take effect: an accepted override that is later than every matching
  row decides, for every candidate scope it matches, what the gate-time read returns, and
  leaves the answer for all other candidates as it was.
\<close>
theorem Override_takes_effect:
  assumes "Override c gen now req s = Inr (v, s')"
    and "\<And>v'. v' \<in> set (overrides s) \<Longrightarrow> override_matches ruleID cand v' \<Longrightarrow> o_CreatedAt v' < now"
  shows "LatestMatchingOverride Live ruleID cand s' =
    (if override_matches ruleID cand v then Inr (Some v) else LatestMatchingOverride Live ruleID cand s)"
proof -
  note ovr = Override_Inr [OF assms(1)]
  show ?thesis
    using override_log.newest_wins [OF ovr(6)] override_log.irrelevant_ignored [OF ovr(6)] assms(2) ovr(13)
    by simp
qed

definition ex_candidate :: CandidateScope where
  "ex_candidate = \<lparr>cs_RepoID = ''R'', cs_ScopeKind = ''file'', cs_Signature = ''src/a.go''\<rparr>"

theorem Override_takes_effect_witness:
  "\<exists>v s'. Override Live (Some 90) 5 ex_mute ex_store = Inr (v, s') \<and> Mute v
     \<and> LatestMatchingOverride Live ''r1'' ex_candidate s' = Inr (Some v)"
proof -
  have r: "list_ex (\<lambda>((i, _), _). i = q_RuleID ex_mute) (rules ex_store)" and none: "overrides ex_store = []"
    and valid: "validateOverrideRequest ex_mute = None"
    by code_simp+
  then have "Override Live (Some 90) 5 ex_mute ex_store \<noteq> Inl e" for e
    by (simp add: Override_def RuleExistsByID_def freshID_def InsertOverride_def Let_def)
  then obtain v s' where v: "Override Live (Some 90) 5 ex_mute ex_store = Inr (v, s')"
    by (metis sum.exhaust prod.exhaust)
  have "scopeGlobMatches ''src/*'' ''src/a.go'' = Some True" by code_simp
  then have "override_matches ''r1'' ex_candidate v"
    using Override_Inr(8,9) [OF v] by (simp add: override_matches_def ex_mute_def ex_candidate_def)
  moreover have "Mute v" using Override_Inr(10) [OF v] by (simp add: ex_mute_def)
  ultimately show ?thesis
    using Override_takes_effect [OF v, of "''r1''" ex_candidate] v none by simp
qed

text \<open>
  An activation that is later than all others decides the active policy.
\<close>
theorem Activate_takes_effect:
  assumes "store_inv s" and "Activate sg c gen now req s = Inr (pa, s')"
    and "\<And>pa'. pa' \<in> set (activations s) \<Longrightarrow> pa_CreatedAt pa' < now"
  shows "\<exists>pv. ActivePolicyVersion Live s' = Inr (Some pv) \<and> PolicyVersionID pv = a_PolicyVersionID req"
proof -
  note act = Activate_Inr [OF assms(2)]
  have latest: "LatestActivation Live s' = Inr (Some pa)"
    using activation_log.newest_wins [OF act(6)] assms(3) act(4) by simp
  obtain pv where "map_of (policyVersions s) (pa_PolicyVersionID pa) = Some pv" using act(2) by blast
  moreover from this have "PolicyVersionID pv = pa_PolicyVersionID pa"
    using assms(1) by (blast dest: version_id)
  ultimately show ?thesis
    using latest act(3,7) by (simp add: ActivePolicyVersion_def GetPolicyVersion_def)
qed

theorem Activate_takes_effect_witness:
  "\<exists>pa s'. ex_activated = Inr (pa, s')
     \<and> (\<exists>pv. ActivePolicyVersion Live s' = Inr (Some pv) \<and> PolicyVersionID pv = 50)"
proof -
  obtain pv s1 where s1: "ex_published = Inr (pv, s1)" using ex_published_ok by blast
  have inv: "store_inv s1"
    using store_inv_Publish [OF _ s1 [unfolded ex_published_def]] steward_run_inv by (simp add: ex_store_def)
  obtain pa s' where a: "ex_activated = Inr (pa, s')" using ex_activated_ok by blast
  then have act: "Activate ex_signer Live (Some 60) 4 \<lparr>a_PolicyVersionID = 50, a_ActivatedBy = ''op''\<rparr> s1 = Inr (pa, s')"
    by (simp add: ex_activated_def s1)
  have "activations ex_store = []" by code_simp
  then have "activations s1 = []"
    using Publish_Inr(10) [OF s1 [unfolded ex_published_def]] by simp
  then show ?thesis
    using Activate_takes_effect [OF inv act] a by fastforce
qed

text \<open>
  Publishing a rule pack is atomic and new: on success the pack and every rule of the
  request are stored under keys that were free, every other rule is as before, and the
  versions, thresholds and logs are untouched.
\<close>
theorem PublishRulepack_atomic:
  assumes "PublishRulepack sg c now req s = Inr ((pack, rs), s')"
  shows "GetRulePack Live (k_PackID req) (rp_Version pack) s' = Inr (Some pack)
    \<and> map rule_key rs = map (\<lambda>r. (rs_RuleID r, rs_Version r)) (Rules req)
    \<and> (\<forall>r \<in> set rs. map_of (rules s) (rule_key r) = None \<and> map_of (rules s') (rule_key r) = Some r)
    \<and> (\<forall>k. k \<notin> rule_key ` set rs \<longrightarrow> map_of (rules s') k = map_of (rules s) k)
    \<and> policyVersions s' = policyVersions s \<and> thresholds s' = thresholds s
    \<and> activations s' = activations s \<and> overrides s' = overrides s"
proof -
  note pub = PublishRulepack_Inr [OF assms]
  note ins = InsertRulePackAndRules_Inr [OF pub(1)]
  have "map rule_key rs = map (\<lambda>r. (rs_RuleID r, rs_Version r)) (Rules req)"
    unfolding pub(3) by simp
  with ins pub(4) show ?thesis by (simp add: GetRulePack_def)
qed

theorem PublishRulepack_atomic_witness:
  "\<exists>pack rs s'. PublishRulepack ex_signer Live 2 ex_pack NewInMemoryStore = Inr ((pack, rs), s')
     \<and> GetRulePack Live ''base'' (rp_Version pack) s' = Inr (Some pack)"
proof -
  have "\<not> isl (PublishRulepack ex_signer Live 2 ex_pack NewInMemoryStore)" by code_simp
  then obtain pack rs s' where p: "PublishRulepack ex_signer Live 2 ex_pack NewInMemoryStore = Inr ((pack, rs), s')"
    by (metis prod.exhaust sum.collapse(2))
  from PublishRulepack_atomic [OF p] have "GetRulePack Live (k_PackID ex_pack) (rp_Version pack) s' = Inr (Some pack)"
    by blast
  with p show ?thesis by (simp add: ex_pack_def)
qed

end
