(* ===== verification/Rule_Engine_Store.thy ===== *)
theory Rule_Engine_Store
  imports Steward Dsl_Eval
begin

text \<open>
  The rows, labels and errors of the rule engine (\<^verbatim>\<open>rule_engine/types.go\<close>) and its
  in-memory store (\<^verbatim>\<open>rule_engine/inmem_store.go\<close>), one definition per method. The SQL
  store and its transaction wrapper answer the same interface from PostgreSQL and are not
  modelled.
\<close>

section \<open>Labels\<close>

type_synonym Caller = string
type_synonym Verdict = string
type_synonym Delta = string

abbreviation (input) CallerEvalGate :: Caller where "CallerEvalGate \<equiv> ''eval_gate''"
abbreviation (input) CallerBatchRefresh :: Caller where "CallerBatchRefresh \<equiv> ''batch_refresh''"
abbreviation (input) VerdictPass :: Verdict where "VerdictPass \<equiv> ''pass''"
abbreviation (input) VerdictWarn :: Verdict where "VerdictWarn \<equiv> ''warn''"
abbreviation (input) VerdictBlock :: Verdict where "VerdictBlock \<equiv> ''block''"
abbreviation (input) DeltaNew :: Delta where "DeltaNew \<equiv> ''new''"
abbreviation (input) DeltaNewlyFailing :: Delta where "DeltaNewlyFailing \<equiv> ''newly_failing''"
abbreviation (input) DeltaUnchanged :: Delta where "DeltaUnchanged \<equiv> ''unchanged''"
abbreviation (input) DeltaResolved :: Delta where "DeltaResolved \<equiv> ''resolved''"

definition Caller_IsValid :: "Caller \<Rightarrow> bool" where
  "Caller_IsValid c \<longleftrightarrow> c = CallerEvalGate \<or> c = CallerBatchRefresh"

definition Verdict_IsValid :: "Verdict \<Rightarrow> bool" where
  "Verdict_IsValid v \<longleftrightarrow> v = VerdictPass \<or> v = VerdictWarn \<or> v = VerdictBlock"

definition Verdict_rank :: "Verdict \<Rightarrow> int" where
  "Verdict_rank v = (if v = VerdictBlock then 2 else if v = VerdictWarn then 1 else 0)"

definition Delta_IsValid :: "Delta \<Rightarrow> bool" where
  "Delta_IsValid d \<longleftrightarrow> d = DeltaNew \<or> d = DeltaNewlyFailing \<or> d = DeltaUnchanged \<or> d = DeltaResolved"

section \<open>Rows\<close>

text \<open>The engine's sample embeds the one of the rule language.\<close>

record ESample = Sample +
  ScopeSignature :: string

record Finding =
  FindingID :: uuid
  f_EvaluationRunID :: uuid
  f_RepoID :: uuid
  f_SHA :: sha
  f_ScopeID :: uuid
  f_RuleID :: string
  RuleVersion :: int
  f_PolicyVersionID :: uuid
  MetricSampleIDs :: "uuid list"
  f_Severity :: Severity
  f_Delta :: Delta
  ExplanationMD :: string
  f_CreatedAt :: time

record EvaluationRun =
  EvaluationRunID :: uuid
  r_RepoID :: uuid
  r_SHA :: sha
  r_PolicyVersionID :: uuid
  r_Caller :: Caller
  r_ScopeID :: "uuid option"
  r_CreatedAt :: time

record EvaluationVerdict =
  VerdictID :: uuid
  v_EvaluationRunID :: uuid
  v_Verdict :: Verdict
  v_Degraded :: bool
  v_DegradedReason :: string
  v_CreatedAt :: time

record RunResult =
  rr_EvaluationRunID :: uuid
  rr_EvaluationVerdictID :: uuid
  rr_FindingIDs :: "uuid list"
  rr_Verdict :: Verdict

datatype engine_error =
    ErrInvalidCaller | ErrEngineUnknownPolicyVersion | ErrEngineUnknownRuleRef | ErrEngineUnknownThresholdRef
  | ErrPredicateCompile | ErrPredicateEval | ErrSampleSourceEmpty
  | EngineContext | EngineZeroUUID | EngineEmptySHA | EngineEmptyRule | EngineBadOp | EngineMint
  | EngineDuplicate | EngineRunMismatch | EngineOverride steward_error | EngineVerdict

section \<open>Store\<close>

text \<open>The reading of the injected clock, when one is set, is part of the state.\<close>

record EngineStore =
  es_policyVersions :: "(uuid, PolicyVersion) gomap"
  es_rules :: "(string \<times> int, Rule) gomap"
  es_thresholds :: "(uuid, ThresholdRow) gomap"
  es_overrides :: "Override list"
  samples :: "(uuid \<times> sha, ESample list) gomap"
  commitParents :: "(uuid \<times> sha, sha) gomap"
  runs :: "EvaluationRun list"
  verdicts :: "EvaluationVerdict list"
  findings :: "Finding list"
  es_clock :: "time option"

definition NewEngineStore :: EngineStore where
  "NewEngineStore =
     \<lparr>es_policyVersions = [], es_rules = [], es_thresholds = [], es_overrides = [], samples = [],
      commitParents = [], runs = [], verdicts = [], findings = [], es_clock = None\<rparr>"

definition SetClock :: "time option \<Rightarrow> EngineStore \<Rightarrow> EngineStore" where
  "SetClock t s = s\<lparr>es_clock := t\<rparr>"

definition es_InsertPolicyVersion :: "PolicyVersion \<Rightarrow> EngineStore \<Rightarrow> EngineStore" where
  "es_InsertPolicyVersion pv s = s\<lparr>es_policyVersions := gomap_put (PolicyVersionID pv) pv (es_policyVersions s)\<rparr>"

definition es_InsertRule :: "Rule \<Rightarrow> EngineStore \<Rightarrow> EngineStore" where
  "es_InsertRule r s = s\<lparr>es_rules := gomap_put (RuleID r, Version r) r (es_rules s)\<rparr>"

definition es_InsertThreshold :: "ThresholdRow \<Rightarrow> EngineStore \<Rightarrow> EngineStore" where
  "es_InsertThreshold t s = s\<lparr>es_thresholds := gomap_put (ThresholdID (th_row t)) t (es_thresholds s)\<rparr>"

definition es_InsertOverride :: "Override \<Rightarrow> EngineStore \<Rightarrow> EngineStore" where
  "es_InsertOverride v s = s\<lparr>es_overrides := es_overrides s @ [v]\<rparr>"

definition samples_at :: "EngineStore \<Rightarrow> uuid \<Rightarrow> sha \<Rightarrow> ESample list" where
  "samples_at s repo h = (case map_of (samples s) (repo, h) of None \<Rightarrow> [] | Some rows \<Rightarrow> rows)"

definition InsertSamples :: "uuid \<Rightarrow> sha \<Rightarrow> ESample list \<Rightarrow> EngineStore \<Rightarrow> EngineStore" where
  "InsertSamples repo h rows s = s\<lparr>samples := gomap_put (repo, h) (samples_at s repo h @ rows) (samples s)\<rparr>"

definition RegisterCommit :: "uuid \<Rightarrow> sha \<Rightarrow> sha \<Rightarrow> EngineStore \<Rightarrow> EngineStore" where
  "RegisterCommit repo h parent s = s\<lparr>commitParents := gomap_put (repo, h) parent (commitParents s)\<rparr>"

section \<open>Reads\<close>

definition with_ectx :: "ctx \<Rightarrow> engine_error + 'a \<Rightarrow> engine_error + 'a" where
  "with_ectx c r = (case c of Cancelled \<Rightarrow> Inl EngineContext | Live \<Rightarrow> r)"

lemma with_ectx_simps [simp]: "with_ectx Live r = r" "with_ectx Cancelled r = Inl EngineContext"
  by (simp_all add: with_ectx_def)

lemma with_ectx_Inr [simp]: "with_ectx c r = Inr x \<longleftrightarrow> c = Live \<and> r = Inr x"
  by (cases c) simp_all

definition es_GetPolicyVersion :: "ctx \<Rightarrow> uuid \<Rightarrow> EngineStore \<Rightarrow> engine_error + PolicyVersion" where
  "es_GetPolicyVersion c i s =
     with_ectx c (case map_of (es_policyVersions s) i of None \<Rightarrow> Inl ErrEngineUnknownPolicyVersion | Some pv \<Rightarrow> Inr pv)"

definition GetRule :: "ctx \<Rightarrow> string \<Rightarrow> int \<Rightarrow> EngineStore \<Rightarrow> engine_error + Rule" where
  "GetRule c i n s =
     with_ectx c (case map_of (es_rules s) (i, n) of None \<Rightarrow> Inl ErrEngineUnknownRuleRef | Some r \<Rightarrow> Inr r)"

definition GetThreshold :: "ctx \<Rightarrow> uuid \<Rightarrow> EngineStore \<Rightarrow> engine_error + ThresholdRow" where
  "GetThreshold c i s =
     with_ectx c (case map_of (es_thresholds s) i of None \<Rightarrow> Inl ErrEngineUnknownThresholdRef | Some t \<Rightarrow> Inr t)"

text \<open>The override log is replayed into a fresh steward store, which is then asked.\<close>

fun replay_overrides :: "ctx \<Rightarrow> Override list \<Rightarrow> InMemoryStore \<Rightarrow> steward_error + InMemoryStore" where
  "replay_overrides c [] d = Inr d"
| "replay_overrides c (v # vs) d = bindE (InsertOverride c v d) (replay_overrides c vs)"

definition es_LatestMatchingOverride :: "ctx \<Rightarrow> string \<Rightarrow> CandidateScope \<Rightarrow> EngineStore \<Rightarrow> engine_error + Override option" where
  "es_LatestMatchingOverride c ruleID cand s =
     with_ectx c
       (case replay_overrides c (es_overrides s) NewInMemoryStore of
          Inl e \<Rightarrow> Inl (EngineOverride e)
        | Inr d \<Rightarrow>
            (case LatestMatchingOverride c ruleID cand d of Inl e \<Rightarrow> Inl (EngineOverride e) | Inr v \<Rightarrow> Inr v))"

text \<open>\<^const>\<open>None\<close> would be a nil slice, which this store never returns.\<close>

definition ListMetricSamples :: "ctx \<Rightarrow> uuid \<Rightarrow> sha \<Rightarrow> uuid option \<Rightarrow> EngineStore \<Rightarrow> engine_error + ESample list option" where
  "ListMetricSamples c repo h scope s =
     with_ectx c
       (Inr (Some (filter (\<lambda>x. case scope of None \<Rightarrow> True | Some i \<Rightarrow> s_ScopeID x = i) (samples_at s repo h))))"

definition LatestPriorFinding ::
  "ctx \<Rightarrow> uuid \<Rightarrow> sha \<Rightarrow> uuid \<Rightarrow> string \<Rightarrow> uuid \<Rightarrow> EngineStore \<Rightarrow> engine_error + Finding option" where
  "LatestPriorFinding c repo parent scope ruleID pvid s =
     with_ectx c
       (if scope = uuid_Nil then Inl EngineZeroUUID
        else if ruleID = [] then Inl EngineEmptyRule
        else if pvid = uuid_Nil then Inl EngineZeroUUID
        else if parent = [] then Inl EngineEmptySHA
        else
          Inr (latest_scan f_CreatedAt FindingID None
            (filter (\<lambda>f. f_RepoID f = repo \<and> f_SHA f = parent \<and> f_ScopeID f = scope \<and> f_RuleID f = ruleID
                        \<and> f_PolicyVersionID f = pvid) (findings s))))"

text \<open>The latest row per scope and rule, kept in a map.\<close>

fun latest_per_tuple :: "(uuid \<times> string, Finding) gomap \<Rightarrow> Finding list \<Rightarrow> (uuid \<times> string, Finding) gomap" where
  "latest_per_tuple m [] = m"
| "latest_per_tuple m (f # fs) =
     (let k = (f_ScopeID f, f_RuleID f) in
      latest_per_tuple
        (case map_of m k of
           None \<Rightarrow> gomap_put k f m
         | Some b \<Rightarrow>
             if f_CreatedAt f > f_CreatedAt b then gomap_put k f m
             else if f_CreatedAt f = f_CreatedAt b \<and> uuidCompare (FindingID f) (FindingID b) > 0
               then gomap_put k f m
             else m) fs)"

definition finding_before :: "Finding \<Rightarrow> Finding \<Rightarrow> bool" where
  "finding_before x y =
     (if f_RuleID x \<noteq> f_RuleID y then str_less (f_RuleID x) (f_RuleID y)
      else uuidCompare (f_ScopeID x) (f_ScopeID y) < 0)"

definition ListPriorBlockFindings :: "ctx \<Rightarrow> uuid \<Rightarrow> sha \<Rightarrow> uuid \<Rightarrow> EngineStore \<Rightarrow> engine_error + Finding list" where
  "ListPriorBlockFindings c repo parent pvid s =
     with_ectx c
       (if pvid = uuid_Nil then Inl EngineZeroUUID
        else if parent = [] then Inl EngineEmptySHA
        else
          Inr (go_sort finding_before
            (filter (\<lambda>f. f_Delta f \<noteq> DeltaResolved \<and> f_Severity f = SeverityBlock)
              (map snd (latest_per_tuple []
                (filter (\<lambda>f. f_RepoID f = repo \<and> f_SHA f = parent \<and> f_PolicyVersionID f = pvid) (findings s)))))))"

definition ParentSHA :: "ctx \<Rightarrow> uuid \<Rightarrow> sha \<Rightarrow> EngineStore \<Rightarrow> engine_error + sha option" where
  "ParentSHA c repo h s =
     with_ectx c
       (if h = [] then Inl EngineEmptySHA
        else
          (case map_of (commitParents s) (repo, h) of
             None \<Rightarrow> Inr None
           | Some p \<Rightarrow> if p = [] then Inr None else Inr (Some p)))"

section \<open>Appending an evaluation\<close>

fun batch_ok :: "uuid \<Rightarrow> uuid list \<Rightarrow> Finding list \<Rightarrow> Finding list \<Rightarrow> engine_error option" where
  "batch_ok runID seen persisted [] = None"
| "batch_ok runID seen persisted (f # fs) =
     (if FindingID f = uuid_Nil then Some EngineZeroUUID
      else if f_EvaluationRunID f \<noteq> runID then Some EngineRunMismatch
      else if List.member seen (FindingID f) then Some EngineDuplicate
      else if list_ex (\<lambda>e. FindingID e = FindingID f) persisted then Some EngineDuplicate
      else batch_ok runID (FindingID f # seen) persisted fs)"

definition AppendEvaluation ::
  "ctx \<Rightarrow> EvaluationRun \<Rightarrow> EvaluationVerdict \<Rightarrow> Finding list \<Rightarrow> EngineStore \<Rightarrow> engine_error + EngineStore" where
  "AppendEvaluation c run verdict fs s =
     with_ectx c
       (if EvaluationRunID run = uuid_Nil then Inl EngineZeroUUID
        else if VerdictID verdict = uuid_Nil then Inl EngineZeroUUID
        else if v_EvaluationRunID verdict \<noteq> EvaluationRunID run then Inl EngineRunMismatch
        else if list_ex (\<lambda>e. EvaluationRunID e = EvaluationRunID run) (runs s) then Inl EngineDuplicate
        else if list_ex (\<lambda>e. VerdictID e = VerdictID verdict) (verdicts s) then Inl EngineDuplicate
        else
          guardE (batch_ok (EvaluationRunID run) [] (findings s) fs)
            (Inr (s\<lparr>runs := runs s @ [run], verdicts := verdicts s @ [verdict], findings := findings s @ fs\<rparr>)))"

section \<open>Looking up a recent run\<close>

definition scopeIDsEqual :: "uuid option \<Rightarrow> uuid option \<Rightarrow> bool" where
  "scopeIDsEqual a b =
     (case (a, b) of (None, None) \<Rightarrow> True | (Some x, Some y) \<Rightarrow> x = y | _ \<Rightarrow> False)"

fun recent_scan ::
  "(EvaluationRun \<Rightarrow> bool) \<Rightarrow> EvaluationVerdict list \<Rightarrow> (EvaluationRun \<times> EvaluationVerdict) option
   \<Rightarrow> EvaluationRun list \<Rightarrow> (EvaluationRun \<times> EvaluationVerdict) option" where
  "recent_scan ok vs best [] = best"
| "recent_scan ok vs best (r # rs) =
     (if \<not> ok r then recent_scan ok vs best rs
      else
        (case find (\<lambda>v. v_EvaluationRunID v = EvaluationRunID r) vs of
           None \<Rightarrow> recent_scan ok vs best rs
         | Some v \<Rightarrow>
             if v_Degraded v then recent_scan ok vs best rs
             else
               (case best of
                  None \<Rightarrow> recent_scan ok vs (Some (r, v)) rs
                | Some (br, bv) \<Rightarrow>
                    if r_CreatedAt r > r_CreatedAt br then recent_scan ok vs (Some (r, v)) rs
                    else if r_CreatedAt r = r_CreatedAt br
                        \<and> uuidCompare (EvaluationRunID r) (EvaluationRunID br) > 0
                      then recent_scan ok vs (Some (r, v)) rs
                    else recent_scan ok vs best rs)))"

definition LookupRecentCanonicalRun ::
  "ctx \<Rightarrow> uuid \<Rightarrow> sha \<Rightarrow> uuid \<Rightarrow> Caller \<Rightarrow> uuid option \<Rightarrow> time \<Rightarrow> EngineStore \<Rightarrow> engine_error + RunResult option" where
  "LookupRecentCanonicalRun c repo h pvid caller scope since s =
     with_ectx c
       (if repo = uuid_Nil then Inl EngineZeroUUID
        else if h = [] then Inl EngineEmptySHA
        else if pvid = uuid_Nil then Inl EngineZeroUUID
        else if \<not> Caller_IsValid caller then Inl ErrInvalidCaller
        else
          (let cutoff = (case es_clock s of None \<Rightarrow> None | Some now \<Rightarrow> if since > 0 then Some (now - since) else None);
               ok = (\<lambda>r. r_RepoID r = repo \<and> r_SHA r = h \<and> r_PolicyVersionID r = pvid \<and> r_Caller r = caller
                       \<and> scopeIDsEqual (r_ScopeID r) scope
                       \<and> (case cutoff of None \<Rightarrow> True | Some t \<Rightarrow> r_CreatedAt r > t))
           in case recent_scan ok (verdicts s) None (runs s) of
                None \<Rightarrow> Inr None
              | Some (r, v) \<Rightarrow>
                  Inr (Some
                    \<lparr>rr_EvaluationRunID = EvaluationRunID r, rr_EvaluationVerdictID = VerdictID v,
                     rr_FindingIDs = go_sort (\<lambda>a b. uuidCompare a b < 0)
                       (map FindingID (filter (\<lambda>f. f_EvaluationRunID f = EvaluationRunID r) (findings s))),
                     rr_Verdict = v_Verdict v\<rparr>)))"

end
