(* ===== verification/Rule_Engine.thy ===== *)
theory Rule_Engine
  imports Rule_Engine_Store
begin

text \<open>
  The rule engine (\<^verbatim>\<open>rule_engine/engine.go\<close>): loading a policy, compiling its predicates,
  evaluating every rule at every scope, deltas against the parent commit, the verdict, and
  the two deduplication layers. A run holds the locks of its repository and commit from the
  cache lookup to the cache store, so it is one step. The identifiers and clock readings a
  run consumes are given by \<open>env\<close>: the outcome of the n-th call of the generator, and the
  three readings of the clock. The compile cache is its sequential behaviour; its
  concurrent behaviour is the subject of the cache theory. The text of identifiers and the
  parsing of threshold identifiers are the parameters \<open>uuid_String\<close> and \<open>from_string\<close>.
\<close>

section \<open>State\<close>

record run_env =
  ids :: "nat \<Rightarrow> uuid option"
  t_lookup :: time
  t_now :: time
  t_store :: time

type_synonym dsl_cache = "(uuid \<times> string, dsl_error + Predicate) gomap"

record runCacheKey =
  ck_repoID :: uuid
  ck_sha :: sha
  ck_policyVersionID :: uuid
  ck_scopeID :: uuid
  ck_caller :: Caller

record runCacheEntry =
  ce_result :: RunResult
  ce_ts :: time

record Engine =
  dslCache :: dsl_cache
  runDedupTTL :: time
  recentRuns :: "(runCacheKey, runCacheEntry) gomap"

definition DefaultRunDedupTTL :: time where
  "DefaultRunDedupTTL = 30000000000"

definition NewEngine :: "time \<Rightarrow> Engine" where
  "NewEngine ttl = \<lparr>dslCache = [], runDedupTTL = (if ttl \<le> 0 then DefaultRunDedupTTL else ttl), recentRuns = []\<rparr>"

section \<open>Verdicts and deltas\<close>

definition finding_verdict :: "Finding \<Rightarrow> Verdict" where
  "finding_verdict f =
     (if f_Severity f = SeverityBlock then VerdictBlock
      else if f_Severity f = SeverityWarn then VerdictWarn
      else VerdictPass)"

fun verdict_loop :: "Verdict \<Rightarrow> Finding list \<Rightarrow> Verdict" where
  "verdict_loop v [] = v"
| "verdict_loop v (f # fs) =
     (if f_Delta f = DeltaResolved then verdict_loop v fs
      else if Verdict_rank (finding_verdict f) > Verdict_rank v then verdict_loop (finding_verdict f) fs
      else verdict_loop v fs)"

definition computeVerdict :: "Finding list \<Rightarrow> Verdict" where
  "computeVerdict fs = verdict_loop VerdictPass fs"

definition computeDelta :: "Severity \<Rightarrow> Finding option \<Rightarrow> Delta" where
  "computeDelta sev prior =
     (case prior of
        None \<Rightarrow> DeltaNew
      | Some p \<Rightarrow>
          (let priorWasBlock = (f_Severity p = SeverityBlock \<and> f_Delta p \<noteq> DeltaResolved);
               currentIsBlock = (sev = SeverityBlock)
           in if priorWasBlock \<and> currentIsBlock then DeltaUnchanged
              else if \<not> priorWasBlock \<and> currentIsBlock then DeltaNewlyFailing
              else DeltaNew))"

section \<open>Loading a policy\<close>

fun resolver_loop :: "ctx \<Rightarrow> EngineStore \<Rightarrow> MapResolver \<Rightarrow> ThresholdRef list \<Rightarrow> engine_error + MapResolver" where
  "resolver_loop c s m [] = Inr m"
| "resolver_loop c s m (ref # refs) =
     bindE (GetThreshold c (tr_ThresholdID ref) s) (\<lambda>t.
       if \<not> op_IsValid (Op (th_row t)) then Inl EngineBadOp
       else resolver_loop c s (gomap_put (ThresholdID (th_row t)) (th_row t) m) refs)"

definition buildThresholdResolverWith :: "ctx \<Rightarrow> EngineStore \<Rightarrow> PolicyVersion \<Rightarrow> engine_error + MapResolver" where
  "buildThresholdResolverWith c s pv = resolver_loop c s [] (ThresholdRefs pv)"

definition loadRulesWith :: "ctx \<Rightarrow> EngineStore \<Rightarrow> PolicyVersion \<Rightarrow> engine_error + Rule list" where
  "loadRulesWith c s pv = mapE (\<lambda>ref. GetRule c (rr_RuleID ref) (rr_Version ref) s) (RuleRefs pv)"

record ruleBinding =
  b_rule :: Rule
  b_predicate :: Predicate

definition GetOrCompile ::
  "(string \<Rightarrow> uuid option) \<Rightarrow> uuid \<Rightarrow> string \<Rightarrow> MapResolver \<Rightarrow> dsl_cache \<Rightarrow> (dsl_error + Predicate) \<times> dsl_cache" where
  "GetOrCompile from_string pvid src resolver m =
     (case map_of m (pvid, src) of
        Some r \<Rightarrow> (r, m)
      | None \<Rightarrow>
          (let r = Compile from_string src (Some (MapResolver_Lookup resolver)) in (r, gomap_put (pvid, src) r m)))"

fun compile_rules ::
  "(string \<Rightarrow> uuid option) \<Rightarrow> uuid \<Rightarrow> MapResolver \<Rightarrow> Rule list \<Rightarrow> dsl_cache \<Rightarrow> (engine_error + ruleBinding list) \<times> dsl_cache" where
  "compile_rules from_string pvid resolver [] m = (Inr [], m)"
| "compile_rules from_string pvid resolver (r # rs) m =
     (case GetOrCompile from_string pvid (PredicateDSL r) resolver m of
        (Inl _, m') \<Rightarrow> (Inl ErrPredicateCompile, m')
      | (Inr p, m') \<Rightarrow>
          (case compile_rules from_string pvid resolver rs m' of
             (Inl e, m'') \<Rightarrow> (Inl e, m'')
           | (Inr bs, m'') \<Rightarrow> (Inr (\<lparr>b_rule = r, b_predicate = p\<rparr> # bs), m'')))"

section \<open>Evaluation\<close>

definition mint :: "run_env \<Rightarrow> nat \<Rightarrow> engine_error + uuid \<times> nat" where
  "mint env n = (case ids env n of None \<Rightarrow> Inl EngineMint | Some i \<Rightarrow> Inr (i, Suc n))"

text \<open>The coordinates of a run.\<close>

record run_ctx =
  rc_repo :: uuid
  rc_sha :: sha
  rc_parent :: "sha option"
  rc_pvid :: uuid
  rc_runID :: uuid
  rc_now :: time

text \<open>Scopes in the order of their identifiers, each with the kind and signature of its first sample.\<close>

definition scopeOrder :: "ESample list \<Rightarrow> uuid list" where
  "scopeOrder xs = go_sort (\<lambda>a b. uuidCompare a b < 0) (dedup [] (map s_ScopeID xs))"

definition scope_rows :: "ESample list \<Rightarrow> uuid \<Rightarrow> ESample list" where
  "scope_rows xs i = filter (\<lambda>x. s_ScopeID x = i) xs"

definition dslSamples :: "ESample list \<Rightarrow> uuid \<Rightarrow> Sample list" where
  "dslSamples xs i = map Sample.truncate (scope_rows xs i)"

definition candidate_of :: "(uuid \<Rightarrow> string) \<Rightarrow> uuid \<Rightarrow> ESample list \<Rightarrow> uuid \<Rightarrow> CandidateScope" where
  "candidate_of uuid_String repo xs i =
     \<lparr>cs_RepoID = uuid_String repo, cs_ScopeKind = s_ScopeKind (hd (scope_rows xs i)),
      cs_Signature = ScopeSignature (hd (scope_rows xs i))\<rparr>"

type_synonym firingKey = "string \<times> uuid"
type_synonym firing_map = "(firingKey, Finding) gomap"
type_synonym mute_cache = "(firingKey, bool) gomap"

definition is_muted ::
  "(uuid \<Rightarrow> string) \<Rightarrow> ctx \<Rightarrow> EngineStore \<Rightarrow> uuid \<Rightarrow> ESample list \<Rightarrow> string \<Rightarrow> uuid \<Rightarrow> engine_error + bool" where
  "is_muted uuid_String c s repo xs ruleID scope =
     bindE (es_LatestMatchingOverride c ruleID (candidate_of uuid_String repo xs scope) s) (\<lambda>v.
       Inr (case v of None \<Rightarrow> False | Some ov \<Rightarrow> Mute ov))"

definition muted_cached ::
  "(uuid \<Rightarrow> string) \<Rightarrow> ctx \<Rightarrow> EngineStore \<Rightarrow> uuid \<Rightarrow> ESample list \<Rightarrow> string \<Rightarrow> uuid \<Rightarrow> mute_cache \<Rightarrow> engine_error + bool \<times> mute_cache" where
  "muted_cached uuid_String c s repo xs ruleID scope mc =
     (case map_of mc (ruleID, scope) of
        Some b \<Rightarrow> Inr (b, mc)
      | None \<Rightarrow> bindE (is_muted uuid_String c s repo xs ruleID scope) (\<lambda>b. Inr (b, gomap_put (ruleID, scope) b mc)))"

definition new_finding :: "run_ctx \<Rightarrow> Rule \<Rightarrow> uuid \<Rightarrow> uuid list \<Rightarrow> uuid \<Rightarrow> Finding" where
  "new_finding rc r scope ws i =
     \<lparr>FindingID = i, f_EvaluationRunID = rc_runID rc, f_RepoID = rc_repo rc, f_SHA = rc_sha rc, f_ScopeID = scope,
      f_RuleID = RuleID r, RuleVersion = Version r, f_PolicyVersionID = rc_pvid rc, MetricSampleIDs = ws,
      f_Severity = SeverityDefault r, f_Delta = [], ExplanationMD = [], f_CreatedAt = rc_now rc\<rparr>"

type_synonym eval_state = "firing_map \<times> mute_cache \<times> nat"

fun eval_scopes ::
  "(uuid \<Rightarrow> string) \<Rightarrow> ctx \<Rightarrow> EngineStore \<Rightarrow> run_env \<Rightarrow> run_ctx \<Rightarrow> ESample list \<Rightarrow> ruleBinding \<Rightarrow> uuid list
   \<Rightarrow> eval_state \<Rightarrow> engine_error + eval_state" where
  "eval_scopes us c s env rc xs b [] st = Inr st"
| "eval_scopes us c s env rc xs b (i # is) (firing, mc, n) =
     (case EvalAtScope (b_predicate b) (dslSamples xs i) of
        Inl _ \<Rightarrow> Inl ErrPredicateEval
      | Inr (False, _) \<Rightarrow> eval_scopes us c s env rc xs b is (firing, mc, n)
      | Inr (True, ws) \<Rightarrow>
          bindE (muted_cached us c s (rc_repo rc) xs (RuleID (b_rule b)) i mc) (\<lambda>(muted, mc').
            if muted then eval_scopes us c s env rc xs b is (firing, mc', n)
            else bindE (mint env n) (\<lambda>(fid, n').
              eval_scopes us c s env rc xs b is
                (gomap_put (RuleID (b_rule b), i) (new_finding rc (b_rule b) i ws fid) firing, mc', n'))))"

fun eval_rules ::
  "(uuid \<Rightarrow> string) \<Rightarrow> ctx \<Rightarrow> EngineStore \<Rightarrow> run_env \<Rightarrow> run_ctx \<Rightarrow> ESample list \<Rightarrow> ruleBinding list
   \<Rightarrow> eval_state \<Rightarrow> engine_error + eval_state" where
  "eval_rules us c s env rc xs [] st = Inr st"
| "eval_rules us c s env rc xs (b # bs) st =
     bindE (eval_scopes us c s env rc xs b (scopeOrder xs) st) (eval_rules us c s env rc xs bs)"

definition firing_before :: "firingKey \<times> Finding \<Rightarrow> firingKey \<times> Finding \<Rightarrow> bool" where
  "firing_before x y =
     (if fst (fst x) \<noteq> fst (fst y) then str_less (fst (fst x)) (fst (fst y))
      else uuidCompare (snd (fst x)) (snd (fst y)) < 0)"

definition with_delta :: "ctx \<Rightarrow> EngineStore \<Rightarrow> run_ctx \<Rightarrow> firingKey \<times> Finding \<Rightarrow> engine_error + firingKey \<times> Finding" where
  "with_delta c s rc kf =
     (case rc_parent rc of
        None \<Rightarrow> Inr (fst kf, (snd kf)\<lparr>f_Delta := computeDelta (f_Severity (snd kf)) None\<rparr>)
      | Some parent \<Rightarrow>
          bindE (LatestPriorFinding c (rc_repo rc) parent (f_ScopeID (snd kf)) (f_RuleID (snd kf)) (rc_pvid rc) s) (\<lambda>prior.
            Inr (fst kf, (snd kf)\<lparr>f_Delta := computeDelta (f_Severity (snd kf)) prior\<rparr>)))"

definition evaluate ::
  "(uuid \<Rightarrow> string) \<Rightarrow> ctx \<Rightarrow> EngineStore \<Rightarrow> run_env \<Rightarrow> run_ctx \<Rightarrow> ruleBinding list \<Rightarrow> ESample list \<Rightarrow> nat
   \<Rightarrow> engine_error + firing_map \<times> nat" where
  "evaluate us c s env rc preds xs n =
     bindE (eval_rules us c s env rc xs preds ([], [], n)) (\<lambda>(firing, _, n').
     bindE (mapE (with_delta c s rc) (go_sort firing_before firing)) (\<lambda>firing'. Inr (firing', n')))"

definition resolved_finding :: "run_ctx \<Rightarrow> Finding \<Rightarrow> uuid \<Rightarrow> Finding" where
  "resolved_finding rc p i =
     \<lparr>FindingID = i, f_EvaluationRunID = rc_runID rc, f_RepoID = rc_repo rc, f_SHA = rc_sha rc,
      f_ScopeID = f_ScopeID p, f_RuleID = f_RuleID p, RuleVersion = RuleVersion p, f_PolicyVersionID = rc_pvid rc,
      MetricSampleIDs = [], f_Severity = SeverityInfo, f_Delta = DeltaResolved, ExplanationMD = [],
      f_CreatedAt = rc_now rc\<rparr>"

fun resolved_loop :: "run_env \<Rightarrow> run_ctx \<Rightarrow> firing_map \<Rightarrow> Finding list \<Rightarrow> nat \<Rightarrow> engine_error + Finding list \<times> nat" where
  "resolved_loop env rc firing [] n = Inr ([], n)"
| "resolved_loop env rc firing (p # ps) n =
     (if (case map_of firing (f_RuleID p, f_ScopeID p) of None \<Rightarrow> False | Some f \<Rightarrow> f_Severity f = SeverityBlock)
      then resolved_loop env rc firing ps n
      else bindE (mint env n) (\<lambda>(i, n').
             bindE (resolved_loop env rc firing ps n') (\<lambda>(out, n'').
               Inr (resolved_finding rc p i # out, n''))))"

definition computeResolved ::
  "ctx \<Rightarrow> EngineStore \<Rightarrow> run_env \<Rightarrow> run_ctx \<Rightarrow> firing_map \<Rightarrow> nat \<Rightarrow> engine_error + Finding list \<times> nat" where
  "computeResolved c s env rc firing n =
     (case rc_parent rc of
        None \<Rightarrow> Inr ([], n)
      | Some parent \<Rightarrow>
          bindE (ListPriorBlockFindings c (rc_repo rc) parent (rc_pvid rc) s) (\<lambda>ps.
            resolved_loop env rc firing ps n))"

section \<open>One run\<close>

definition load_inputs ::
  "ctx \<Rightarrow> EngineStore \<Rightarrow> uuid \<Rightarrow> sha \<Rightarrow> uuid option \<Rightarrow> uuid
   \<Rightarrow> engine_error + MapResolver \<times> Rule list \<times> ESample list \<times> sha option" where
  "load_inputs c s repo h scope pvid =
     bindE (es_GetPolicyVersion c pvid s) (\<lambda>pv.
     bindE (buildThresholdResolverWith c s pv) (\<lambda>resolver.
     bindE (loadRulesWith c s pv) (\<lambda>rs.
     bindE (ListMetricSamples c repo h scope s) (\<lambda>xs.
       if xs = None \<and> length rs > 0 then Inl ErrSampleSourceEmpty
       else bindE (ParentSHA c repo h s) (\<lambda>parent.
         Inr (resolver, rs, (case xs of None \<Rightarrow> [] | Some ys \<Rightarrow> ys), parent))))))"

definition finish_run ::
  "(uuid \<Rightarrow> string) \<Rightarrow> ctx \<Rightarrow> EngineStore \<Rightarrow> run_env \<Rightarrow> uuid \<Rightarrow> sha \<Rightarrow> uuid option \<Rightarrow> uuid \<Rightarrow> Caller
   \<Rightarrow> ruleBinding list \<Rightarrow> ESample list \<Rightarrow> sha option \<Rightarrow> engine_error + RunResult \<times> EngineStore" where
  "finish_run us c s env repo h scope pvid caller preds xs parent =
     bindE (mint env 0) (\<lambda>(runID, n1).
       let rc = \<lparr>rc_repo = repo, rc_sha = h, rc_parent = parent, rc_pvid = pvid, rc_runID = runID, rc_now = t_now env\<rparr> in
       bindE (evaluate us c s env rc preds xs n1) (\<lambda>(firing, n2).
       bindE (computeResolved c s env rc firing n2) (\<lambda>(resolved, n3).
         let allFindings = go_sort (\<lambda>x y. uuidCompare (FindingID x) (FindingID y) < 0) (map snd firing @ resolved) in
         bindE (mint env n3) (\<lambda>(verdictID, n4).
           let run = \<lparr>EvaluationRunID = runID, r_RepoID = repo, r_SHA = h, r_PolicyVersionID = pvid,
                      r_Caller = caller, r_ScopeID = scope, r_CreatedAt = t_now env\<rparr>;
               verdict = \<lparr>VerdictID = verdictID, v_EvaluationRunID = runID, v_Verdict = computeVerdict allFindings,
                          v_Degraded = False, v_DegradedReason = [], v_CreatedAt = t_now env\<rparr>
           in bindE (AppendEvaluation c run verdict allFindings s) (\<lambda>s'.
                Inr (\<lparr>rr_EvaluationRunID = runID, rr_EvaluationVerdictID = verdictID,
                      rr_FindingIDs = map FindingID allFindings, rr_Verdict = v_Verdict verdict\<rparr>, s'))))))"

definition runLocked ::
  "(string \<Rightarrow> uuid option) \<Rightarrow> (uuid \<Rightarrow> string) \<Rightarrow> ctx \<Rightarrow> run_env \<Rightarrow> uuid \<Rightarrow> sha \<Rightarrow> uuid option \<Rightarrow> uuid \<Rightarrow> Caller
   \<Rightarrow> time \<Rightarrow> EngineStore \<Rightarrow> dsl_cache \<Rightarrow> (engine_error + RunResult) \<times> EngineStore \<times> dsl_cache" where
  "runLocked fs us c env repo h scope pvid caller ttl s m =
     (case LookupRecentCanonicalRun c repo h pvid caller scope ttl s of
        Inr (Some cached) \<Rightarrow> (Inr cached, s, m)
      | _ \<Rightarrow>
          (case load_inputs c s repo h scope pvid of
             Inl e \<Rightarrow> (Inl e, s, m)
           | Inr (resolver, rs, xs, parent) \<Rightarrow>
               (case compile_rules fs pvid resolver rs m of
                  (Inl e, m') \<Rightarrow> (Inl e, s, m')
                | (Inr preds, m') \<Rightarrow>
                    (case finish_run us c s env repo h scope pvid caller preds xs parent of
                       Inl e \<Rightarrow> (Inl e, s, m')
                     | Inr (r, s') \<Rightarrow> (Inr r, s', m')))))"

definition makeRunCacheKey :: "uuid \<Rightarrow> sha \<Rightarrow> uuid \<Rightarrow> uuid option \<Rightarrow> Caller \<Rightarrow> runCacheKey" where
  "makeRunCacheKey repo h pvid scope caller =
     \<lparr>ck_repoID = repo, ck_sha = h, ck_policyVersionID = pvid,
      ck_scopeID = (case scope of None \<Rightarrow> uuid_Nil | Some i \<Rightarrow> i), ck_caller = caller\<rparr>"

definition lookupRecentRun :: "time \<Rightarrow> runCacheKey \<Rightarrow> Engine \<Rightarrow> RunResult option \<times> Engine" where
  "lookupRecentRun now k e =
     (case map_of (recentRuns e) k of
        None \<Rightarrow> (None, e)
      | Some entry \<Rightarrow>
          if now - ce_ts entry > runDedupTTL e then (None, e\<lparr>recentRuns := gomap_delete k (recentRuns e)\<rparr>)
          else (Some (ce_result entry), e))"

definition storeRecentRun :: "time \<Rightarrow> runCacheKey \<Rightarrow> RunResult \<Rightarrow> Engine \<Rightarrow> Engine" where
  "storeRecentRun now k r e = e\<lparr>recentRuns := gomap_put k \<lparr>ce_result = r, ce_ts = now\<rparr> (recentRuns e)\<rparr>"

definition run_guard :: "uuid \<Rightarrow> sha \<Rightarrow> uuid \<Rightarrow> Caller \<Rightarrow> engine_error option" where
  "run_guard repo h pvid caller =
     (if \<not> Caller_IsValid caller then Some ErrInvalidCaller
      else if repo = uuid_Nil then Some EngineZeroUUID
      else if h = [] then Some EngineEmptySHA
      else if pvid = uuid_Nil then Some EngineZeroUUID
      else None)"

definition engine_run ::
  "(string \<Rightarrow> uuid option) \<Rightarrow> (uuid \<Rightarrow> string) \<Rightarrow> ctx \<Rightarrow> run_env \<Rightarrow> uuid \<Rightarrow> sha \<Rightarrow> uuid option \<Rightarrow> uuid \<Rightarrow> Caller
   \<Rightarrow> Engine \<Rightarrow> EngineStore \<Rightarrow> (engine_error + RunResult) \<times> Engine \<times> EngineStore" where
  "engine_run fs us c env repo h scope pvid caller e s =
     (case run_guard repo h pvid caller of
        Some err \<Rightarrow> (Inl err, e, s)
      | None \<Rightarrow>
          (let k = makeRunCacheKey repo h pvid scope caller in
           case lookupRecentRun (t_lookup env) k e of
             (Some cached, e') \<Rightarrow> (Inr cached, e', s)
           | (None, e') \<Rightarrow>
               (case c of
                  Cancelled \<Rightarrow> (Inl EngineContext, e', s)
                | Live \<Rightarrow>
                    (case runLocked fs us c env repo h scope pvid caller (runDedupTTL e') s (dslCache e') of
                       (Inl err, s', m) \<Rightarrow> (Inl err, e'\<lparr>dslCache := m\<rparr>, s')
                     | (Inr r, s', m) \<Rightarrow> (Inr r, storeRecentRun (t_store env) k r (e'\<lparr>dslCache := m\<rparr>), s')))))"

definition RunSync ::
  "(string \<Rightarrow> uuid option) \<Rightarrow> (uuid \<Rightarrow> string) \<Rightarrow> ctx \<Rightarrow> run_env \<Rightarrow> uuid \<Rightarrow> sha \<Rightarrow> uuid option \<Rightarrow> uuid
   \<Rightarrow> Engine \<Rightarrow> EngineStore \<Rightarrow> (engine_error + RunResult) \<times> Engine \<times> EngineStore" where
  "RunSync fs us c env repo h scope pvid e s = engine_run fs us c env repo h scope pvid CallerEvalGate e s"

definition RunBatch ::
  "(string \<Rightarrow> uuid option) \<Rightarrow> (uuid \<Rightarrow> string) \<Rightarrow> ctx \<Rightarrow> run_env \<Rightarrow> uuid \<Rightarrow> sha \<Rightarrow> uuid
   \<Rightarrow> Engine \<Rightarrow> EngineStore \<Rightarrow> (engine_error + RunResult) \<times> Engine \<times> EngineStore" where
  "RunBatch fs us c env repo h pvid e s = engine_run fs us c env repo h None pvid CallerBatchRefresh e s"

end
