(* ===== verification/Rule_Engine_Laws.thy ===== *)
theory Rule_Engine_Laws
  imports Rule_Engine
begin

text \<open>
  What the rule engine guarantees: the verdict is the roll-up of the live findings, a run's
  findings are exactly the firing rules that are not muted plus the resolved rows, the audit
  rows stay consistent over every history, and both deduplication layers return the first
  run's identifiers.
\<close>

section \<open>The verdict\<close>

definition live :: "Finding \<Rightarrow> bool" where
  "live f \<longleftrightarrow> f_Delta f \<noteq> DeltaResolved"

definition rollup :: "Finding list \<Rightarrow> Verdict" where
  "rollup fs =
     (if list_ex (\<lambda>f. live f \<and> f_Severity f = SeverityBlock) fs then VerdictBlock
      else if list_ex (\<lambda>f. live f \<and> f_Severity f = SeverityWarn) fs then VerdictWarn
      else VerdictPass)"

lemma rollup_Cons:
  "rollup (f # fs) =
     (if f_Delta f = DeltaResolved then rollup fs
      else if Verdict_rank (finding_verdict f) > Verdict_rank (rollup fs) then finding_verdict f else rollup fs)"
  by (simp add: rollup_def live_def finding_verdict_def Verdict_rank_def)

lemma rank_inj:
  "v \<in> {VerdictPass, VerdictWarn, VerdictBlock} \<Longrightarrow> w \<in> {VerdictPass, VerdictWarn, VerdictBlock} \<Longrightarrow>
     Verdict_rank v = Verdict_rank w \<Longrightarrow> v = w"
  by (elim insertE emptyE) (simp_all add: Verdict_rank_def)

lemma verdict_loop_rollup:
  "v \<in> {VerdictPass, VerdictWarn, VerdictBlock} \<Longrightarrow>
     verdict_loop v fs = (if Verdict_rank v \<ge> Verdict_rank (rollup fs) then v else rollup fs)"
proof (induction fs arbitrary: v)
  case (Cons f fs)
  have r: "rollup fs \<in> {VerdictPass, VerdictWarn, VerdictBlock}" by (simp add: rollup_def)
  have fv: "finding_verdict f \<in> {VerdictPass, VerdictWarn, VerdictBlock}" by (simp add: finding_verdict_def)
  show ?case
  proof (cases "f_Delta f = DeltaResolved")
    case True
    then show ?thesis using Cons.IH [OF Cons.prems] by (simp only: verdict_loop.simps rollup_Cons refl if_True)
  next
    case False
    have "(if Verdict_rank (finding_verdict f) > Verdict_rank v
         then if Verdict_rank (finding_verdict f) \<ge> Verdict_rank (rollup fs) then finding_verdict f else rollup fs
         else if Verdict_rank v \<ge> Verdict_rank (rollup fs) then v else rollup fs) =
        (if Verdict_rank v \<ge> Verdict_rank (rollup (f # fs)) then v else rollup (f # fs))"
      using rank_inj [OF fv r] rank_inj [OF Cons.prems r] False by (simp add: rollup_Cons)
    then show ?thesis using False by (simp only: verdict_loop.simps if_False Cons.IH [OF Cons.prems] Cons.IH [OF fv])
  qed
qed (simp add: rollup_def Verdict_rank_def)

lemma computeVerdict_eq: "computeVerdict fs = rollup fs"
  by (simp add: computeVerdict_def verdict_loop_rollup) (auto simp: rollup_def Verdict_rank_def)

lemma rollup_valid: "Verdict_IsValid (rollup fs)"
  by (simp add: rollup_def Verdict_IsValid_def)

lemma rollup_mset: "mset xs = mset ys \<Longrightarrow> rollup xs = rollup ys"
  using mset_eq_setD [of xs ys] by (simp add: rollup_def list_ex_iff)

section \<open>Evaluating the rules\<close>

definition made ::
  "(uuid \<Rightarrow> string) \<Rightarrow> ctx \<Rightarrow> EngineStore \<Rightarrow> run_ctx \<Rightarrow> ESample list \<Rightarrow> ruleBinding \<Rightarrow> uuid \<Rightarrow> Finding \<Rightarrow> bool" where
  "made us c s rc xs b i f \<longleftrightarrow>
     (\<exists>ws fid. EvalAtScope (b_predicate b) (dslSamples xs i) = Inr (True, ws)
        \<and> is_muted us c s (rc_repo rc) xs (RuleID (b_rule b)) i = Inr False
        \<and> f = new_finding rc (b_rule b) i ws fid)"

definition mutes_ok :: "(uuid \<Rightarrow> string) \<Rightarrow> ctx \<Rightarrow> EngineStore \<Rightarrow> uuid \<Rightarrow> ESample list \<Rightarrow> mute_cache \<Rightarrow> bool" where
  "mutes_ok us c s repo xs mc \<longleftrightarrow>
     (\<forall>r i b. map_of mc (r, i) = Some b \<longrightarrow> is_muted us c s repo xs r i = Inr b)"

lemma muted_cached_Inr:
  "mutes_ok us c s repo xs mc \<Longrightarrow> muted_cached us c s repo xs r i mc = Inr (b, mc') \<Longrightarrow>
     is_muted us c s repo xs r i = Inr b \<and> mutes_ok us c s repo xs mc'"
  by (auto simp: muted_cached_def mutes_ok_def bindE_Inr split: option.splits if_splits)

text \<open>One rule at a list of scopes: what is added, and that nothing that fires is missed.\<close>

definition adds ::
  "(ruleBinding \<Rightarrow> uuid \<Rightarrow> Finding \<Rightarrow> bool) \<Rightarrow> (ruleBinding \<times> uuid) set \<Rightarrow> firing_map \<Rightarrow> firing_map \<Rightarrow> bool" where
  "adds mk pairs firing firing' \<longleftrightarrow>
     (\<forall>k f. map_of firing' k = Some f \<longrightarrow>
        map_of firing k = Some f \<or> (\<exists>(b, i) \<in> pairs. k = (RuleID (b_rule b), i) \<and> mk b i f))
     \<and> (\<forall>k. map_of firing k \<noteq> None \<longrightarrow> map_of firing' k \<noteq> None)
     \<and> (\<forall>(b, i) \<in> pairs. (\<exists>f. mk b i f) \<longrightarrow> map_of firing' (RuleID (b_rule b), i) \<noteq> None)"

lemma adds_refl: "(\<And>b i f. (b, i) \<in> pairs \<Longrightarrow> \<not> mk b i f) \<Longrightarrow> adds mk pairs firing firing"
  by (auto simp: adds_def)

lemma adds_empty [simp]: "adds mk {} firing firing"
  by (simp add: adds_def)

lemma adds_sound:
  "adds mk pairs [] firing \<Longrightarrow> map_of firing k = Some f \<Longrightarrow> \<exists>(b, i) \<in> pairs. k = (RuleID (b_rule b), i) \<and> mk b i f"
  unfolding adds_def map_of.simps by (simp only: option.distinct simp_thms)

lemma adds_complete:
  "adds mk pairs m firing \<Longrightarrow> (b, i) \<in> pairs \<Longrightarrow> mk b i f \<Longrightarrow> map_of firing (RuleID (b_rule b), i) \<noteq> None"
  unfolding adds_def by fast

lemma adds_put: "mk b i f \<Longrightarrow> adds mk {(b, i)} firing (gomap_put (RuleID (b_rule b), i) f firing)"
  by (auto simp: adds_def)

lemma adds_trans:
  assumes "adds mk P m m1" and "adds mk Q m1 m2"
  shows "adds mk (P \<union> Q) m m2"
proof -
  have "map_of m k = Some f \<or> (\<exists>(b, i) \<in> P \<union> Q. k = (RuleID (b_rule b), i) \<and> mk b i f)"
    if "map_of m2 k = Some f" for k f
  proof -
    from that assms(2) consider "map_of m1 k = Some f" | b i where "(b, i) \<in> Q" "k = (RuleID (b_rule b), i)" "mk b i f"
      unfolding adds_def by blast
    then show ?thesis
    proof cases
      case 1
      with assms(1) show ?thesis unfolding adds_def by blast
    next
      case 2
      then show ?thesis by blast
    qed
  qed
  with assms show ?thesis unfolding adds_def by blast
qed

lemma eval_scopes_spec:
  assumes "eval_scopes us c s env rc xs b is (firing, mc, n) = Inr (firing', mc', n')"
    and "mutes_ok us c s (rc_repo rc) xs mc" and "gomap_ok firing"
  shows "mutes_ok us c s (rc_repo rc) xs mc' \<and> gomap_ok firing'
    \<and> adds (made us c s rc xs) ({b} \<times> set is) firing firing'"
  using assms
proof (induction "is" arbitrary: firing mc n)
  case Nil
  then show ?case by (simp add: adds_refl)
next
  case (Cons i "is")
  let ?mk = "made us c s rc xs" and ?r = "RuleID (b_rule b)"
  have rest: "mutes_ok us c s (rc_repo rc) xs mc' \<and> gomap_ok firing' \<and> adds ?mk ({b} \<times> set (i # is)) firing firing'"
    if "eval_scopes us c s env rc xs b is (firing1, mc1, n1) = Inr (firing', mc', n')"
      and "mutes_ok us c s (rc_repo rc) xs mc1" and "gomap_ok firing1" and "adds ?mk {(b, i)} firing firing1"
    for firing1 mc1 n1
  proof -
    have "{b} \<times> set (i # is) = {(b, i)} \<union> {b} \<times> set is" by auto
    then show ?thesis
      using Cons.IH [OF that(1-3)] adds_trans [OF that(4)] by metis
  qed
  obtain m ws where ev: "EvalAtScope (b_predicate b) (dslSamples xs i) = Inr (m, ws)"
    using Cons.prems(1) by (auto split: sum.splits)
  show ?case
  proof (cases m)
    case False
    with ev have "adds ?mk {(b, i)} firing firing" by (intro adds_refl) (auto simp: made_def)
    with ev False Cons.prems show ?thesis by (intro rest [of firing mc n]) simp_all
  next
    case True
    with ev Cons.prems(1) obtain muted mc1 where
      mu: "muted_cached us c s (rc_repo rc) xs ?r i mc = Inr (muted, mc1)"
      by (auto simp: bindE_Inr)
    note mu' = muted_cached_Inr [OF Cons.prems(2) mu]
    show ?thesis
    proof (cases muted)
      case muted: True
      with mu' have "adds ?mk {(b, i)} firing firing" by (intro adds_refl) (auto simp: made_def)
      with ev True muted mu mu' Cons.prems show ?thesis by (intro rest [of firing mc1 n]) simp_all
    next
      case False
      with ev True mu Cons.prems(1) obtain fid n1 where
        go: "eval_scopes us c s env rc xs b is
          (gomap_put (?r, i) (new_finding rc (b_rule b) i ws fid) firing, mc1, n1) = Inr (firing', mc', n')"
        by (auto simp: bindE_Inr)
      have "?mk b i (new_finding rc (b_rule b) i ws fid)"
        using ev True mu' False by (auto simp: made_def)
      with go mu' Cons.prems(3) show ?thesis
        by (intro rest [OF go] adds_put) simp_all
    qed
  qed
qed

lemma eval_rules_spec:
  assumes "eval_rules us c s env rc xs bs (firing, mc, n) = Inr (firing', mc', n')"
    and "mutes_ok us c s (rc_repo rc) xs mc" and "gomap_ok firing"
  shows "gomap_ok firing' \<and> adds (made us c s rc xs) (set bs \<times> set (scopeOrder xs)) firing firing'"
  using assms
proof (induction bs arbitrary: firing mc n)
  case Nil
  then show ?case by (simp add: adds_refl)
next
  case (Cons b bs)
  then obtain firing1 mc1 n1 where
    1: "eval_scopes us c s env rc xs b (scopeOrder xs) (firing, mc, n) = Inr (firing1, mc1, n1)"
    and 2: "eval_rules us c s env rc xs bs (firing1, mc1, n1) = Inr (firing', mc', n')"
    by (auto simp: bindE_Inr)
  note s1 = eval_scopes_spec [OF 1 Cons.prems(2,3)]
  have split: "set (b # bs) \<times> set (scopeOrder xs) = {b} \<times> set (scopeOrder xs) \<union> set bs \<times> set (scopeOrder xs)"
    by auto
  have "gomap_ok firing' \<and> adds (made us c s rc xs) (set bs \<times> set (scopeOrder xs)) firing1 firing'"
    using Cons.IH [OF 2] s1 by blast
  then show ?case
    unfolding split using s1 adds_trans by blast
qed

lemma set_scopeOrder [simp]: "set (scopeOrder xs) = s_ScopeID ` set xs"
  by (simp add: scopeOrder_def)

text \<open>The delta a firing finding gets.\<close>

definition prior_of :: "EngineStore \<Rightarrow> run_ctx \<Rightarrow> uuid \<Rightarrow> string \<Rightarrow> Finding option" where
  "prior_of s rc scope ruleID =
     (case rc_parent rc of
        None \<Rightarrow> None
      | Some parent \<Rightarrow>
          latest_scan f_CreatedAt FindingID None
            (filter (\<lambda>f. f_RepoID f = rc_repo rc \<and> f_SHA f = parent \<and> f_ScopeID f = scope \<and> f_RuleID f = ruleID
                        \<and> f_PolicyVersionID f = rc_pvid rc) (findings s)))"

definition stamped :: "EngineStore \<Rightarrow> run_ctx \<Rightarrow> Finding \<Rightarrow> Finding" where
  "stamped s rc f = f\<lparr>f_Delta := computeDelta (f_Severity f) (prior_of s rc (f_ScopeID f) (f_RuleID f))\<rparr>"

lemma with_delta_Inr: "with_delta c s rc (k, f) = Inr (k', f') \<Longrightarrow> k' = k \<and> f' = stamped s rc f"
  by (auto simp: with_delta_def stamped_def prior_of_def LatestPriorFinding_def bindE_Inr
      split: option.splits if_splits)

lemma computeDelta_valid: "Delta_IsValid (computeDelta v p)" "computeDelta v p \<noteq> DeltaResolved"
  by (auto simp: computeDelta_def Delta_IsValid_def Let_def split: option.splits)

lemma stamped_simps [simp]:
  "FindingID (stamped s rc f) = FindingID f" "f_RuleID (stamped s rc f) = f_RuleID f"
  "f_ScopeID (stamped s rc f) = f_ScopeID f" "f_Severity (stamped s rc f) = f_Severity f"
  "f_EvaluationRunID (stamped s rc f) = f_EvaluationRunID f" "f_RepoID (stamped s rc f) = f_RepoID f"
  "f_SHA (stamped s rc f) = f_SHA f" "f_PolicyVersionID (stamped s rc f) = f_PolicyVersionID f"
  "MetricSampleIDs (stamped s rc f) = MetricSampleIDs f" "RuleVersion (stamped s rc f) = RuleVersion f"
  "f_Delta (stamped s rc f) = computeDelta (f_Severity f) (prior_of s rc (f_ScopeID f) (f_RuleID f))"
  "f_CreatedAt (stamped s rc f) = f_CreatedAt f"
  by (simp_all add: stamped_def)

lemma evaluate_spec:
  assumes "evaluate us c s env rc preds xs n = Inr (firing, n')"
  shows "gomap_ok firing"
    and "map_of firing k = Some f \<Longrightarrow>
      \<exists>b i f0. b \<in> set preds \<and> i \<in> s_ScopeID ` set xs \<and> k = (RuleID (b_rule b), i)
        \<and> made us c s rc xs b i f0 \<and> f = stamped s rc f0"
    and "b \<in> set preds \<Longrightarrow> i \<in> s_ScopeID ` set xs \<Longrightarrow> made us c s rc xs b i f0 \<Longrightarrow>
      map_of firing (RuleID (b_rule b), i) \<noteq> None"
proof -
  obtain m mc n1 where ev: "eval_rules us c s env rc xs preds ([], [], n) = Inr (m, mc, n1)"
    and all2: "list_all2 (\<lambda>x y. with_delta c s rc x = Inr y) (go_sort firing_before m) firing"
    using assms by (auto simp: evaluate_def bindE_Inr mapE_Inr_iff)
  have sp: "gomap_ok m" "adds (made us c s rc xs) (set preds \<times> set (scopeOrder xs)) [] m"
    using eval_rules_spec [OF ev] by (simp_all add: mutes_ok_def)
  have img: "firing = map (\<lambda>(k, f). (k, stamped s rc f)) (go_sort firing_before m)"
  proof (rule list_eq_iff_nth_eq [THEN iffD2], intro conjI allI impI)
    show len: "length firing = length (map (\<lambda>(k, f). (k, stamped s rc f)) (go_sort firing_before m))"
      using list_all2_lengthD [OF all2] by simp
    fix j assume "j < length firing"
    then have j: "j < length (go_sort firing_before m)" "with_delta c s rc (go_sort firing_before m ! j) = Inr (firing ! j)"
      using len list_all2_nthD2 [OF all2, of j] by auto
    then have "fst (firing ! j) = fst (go_sort firing_before m ! j)
        \<and> snd (firing ! j) = stamped s rc (snd (go_sort firing_before m ! j))"
      by (metis prod.collapse with_delta_Inr)
    with j(1) show "firing ! j = map (\<lambda>(k, f). (k, stamped s rc f)) (go_sort firing_before m) ! j"
      by (simp add: prod_eq_iff split: prod.split)
  qed
  have fsts: "map fst firing = map fst (go_sort firing_before m)"
    unfolding img by (simp add: case_prod_beta)
  have "mset (map fst firing) = mset (map fst m)" unfolding fsts by simp
  then show ok: "gomap_ok firing"
    using sp(1) mset_eq_imp_distinct_iff unfolding gomap_ok_def by blast
  have lookup: "map_of firing k = Some f \<longleftrightarrow> (\<exists>f0. map_of m k = Some f0 \<and> f = stamped s rc f0)" for k f
  proof -
    have "map_of firing k = Some f \<longleftrightarrow> (k, f) \<in> set firing" using gomap_set_map_of [OF ok] by simp
    also have "\<dots> \<longleftrightarrow> (\<exists>f0. (k, f0) \<in> set m \<and> f = stamped s rc f0)" unfolding img by auto
    finally show ?thesis using gomap_set_map_of [OF sp(1)] by simp
  qed
  show "\<exists>b i f0. b \<in> set preds \<and> i \<in> s_ScopeID ` set xs \<and> k = (RuleID (b_rule b), i)
        \<and> made us c s rc xs b i f0 \<and> f = stamped s rc f0" if "map_of firing k = Some f"
    using that adds_sound [OF sp(2)] unfolding lookup by fastforce
  show "map_of firing (RuleID (b_rule b), i) \<noteq> None"
    if "b \<in> set preds" "i \<in> s_ScopeID ` set xs" "made us c s rc xs b i f0"
  proof -
    have "map_of m (RuleID (b_rule b), i) \<noteq> None"
      using that adds_complete [OF sp(2), of b i] by simp
    then show ?thesis using lookup by auto
  qed
qed

section \<open>Resolved rows\<close>

definition still_blocking :: "firing_map \<Rightarrow> Finding \<Rightarrow> bool" where
  "still_blocking firing p \<longleftrightarrow>
     (\<exists>f. map_of firing (f_RuleID p, f_ScopeID p) = Some f \<and> f_Severity f = SeverityBlock)"

lemma resolved_loop_Cons:
  "resolved_loop env rc firing (p # ps) n =
     (if still_blocking firing p then resolved_loop env rc firing ps n
      else bindE (mint env n) (\<lambda>(i, n').
             bindE (resolved_loop env rc firing ps n') (\<lambda>(out, n''). Inr (resolved_finding rc p i # out, n''))))"
proof -
  have "(case map_of firing (f_RuleID p, f_ScopeID p) of None \<Rightarrow> False | Some f \<Rightarrow> f_Severity f = SeverityBlock)
      \<longleftrightarrow> still_blocking firing p"
    by (auto simp: still_blocking_def split: option.splits)
  then show ?thesis by simp
qed

lemma resolved_loop_set:
  assumes "resolved_loop env rc firing ps n = Inr (out, n')"
  shows "(\<forall>f \<in> set out. \<exists>p i. p \<in> set ps \<and> \<not> still_blocking firing p \<and> f = resolved_finding rc p i)
    \<and> (\<forall>p \<in> set ps. \<not> still_blocking firing p \<longrightarrow> (\<exists>f i. f \<in> set out \<and> f = resolved_finding rc p i))"
  using assms
proof (induction ps arbitrary: n out)
  case Nil
  then show ?case by simp
next
  case (Cons p ps)
  show ?case
  proof (cases "still_blocking firing p")
    case True
    then have "resolved_loop env rc firing ps n = Inr (out, n')"
      using Cons.prems unfolding resolved_loop_Cons by simp
    from Cons.IH [OF this] True show ?thesis by (metis list.set_intros(2) set_ConsD)
  next
    case False
    with Cons.prems obtain i n1 out' where o: "out = resolved_finding rc p i # out'"
      and "resolved_loop env rc firing ps n1 = Inr (out', n')"
      unfolding resolved_loop_Cons by (auto simp: bindE_Inr)
    note ih = Cons.IH [OF this(2)]
    have "\<exists>q j. q \<in> set (p # ps) \<and> \<not> still_blocking firing q \<and> f = resolved_finding rc q j"
      if "f \<in> set out" for f
    proof (cases "f = resolved_finding rc p i")
      case True
      then show ?thesis using False by (metis list.set_intros(1))
    next
      case no: False
      with that o have "f \<in> set out'" by simp
      with ih show ?thesis by (metis list.set_intros(2))
    qed
    moreover have "\<exists>f j. f \<in> set out \<and> f = resolved_finding rc q j"
      if "q \<in> set (p # ps)" "\<not> still_blocking firing q" for q
    proof (cases "q = p")
      case True
      then show ?thesis using o by (metis list.set_intros(1))
    next
      case no: False
      with that ih o show ?thesis by (metis list.set_intros(2) set_ConsD)
    qed
    ultimately show ?thesis by blast
  qed
qed

section \<open>Appending\<close>

lemma batch_ok_None:
  "batch_ok runID seen persisted fs = None \<longleftrightarrow>
     distinct (map FindingID fs)
     \<and> (\<forall>f \<in> set fs. FindingID f \<noteq> uuid_Nil \<and> f_EvaluationRunID f = runID \<and> FindingID f \<notin> set seen
          \<and> FindingID f \<notin> FindingID ` set persisted)"
proof (induction fs arbitrary: seen)
  case (Cons f fs)
  have "list_ex (\<lambda>e. FindingID e = FindingID f) persisted \<longleftrightarrow> FindingID f \<in> FindingID ` set persisted"
    by (induction persisted) auto
  moreover have "(\<forall>g \<in> set fs. FindingID g \<notin> set (FindingID f # seen))
      \<longleftrightarrow> FindingID f \<notin> set (map FindingID fs) \<and> (\<forall>g \<in> set fs. FindingID g \<notin> set seen)"
    by (induction fs) auto
  ultimately show ?case
    using Cons.IH [of "FindingID f # seen"] by (auto simp only: batch_ok.simps List.member_iff distinct.simps list.simps list.set ball_simps if_splits split: if_splits)
qed simp

lemma AppendEvaluation_Inr:
  assumes "AppendEvaluation c run verdict fs s = Inr s'"
  shows "c = Live" "EvaluationRunID run \<notin> EvaluationRunID ` set (runs s)"
    "VerdictID verdict \<notin> VerdictID ` set (verdicts s)" "v_EvaluationRunID verdict = EvaluationRunID run"
    "distinct (map FindingID fs)" "FindingID ` set fs \<inter> FindingID ` set (findings s) = {}"
    "\<forall>f \<in> set fs. f_EvaluationRunID f = EvaluationRunID run"
    "s' = s\<lparr>runs := runs s @ [run], verdicts := verdicts s @ [verdict], findings := findings s @ fs\<rparr>"
  using assms by (auto simp: AppendEvaluation_def batch_ok_None list_ex_iff split: if_splits)

text \<open>The rows of one run as the engine assembles them.\<close>

lemma finish_run_Inr:
  assumes "finish_run us c s env repo h scope pvid caller preds xs parent = Inr (r, s')"
  obtains rc firing resolved new n1 n2 n3 run verdict where
    "rc = \<lparr>rc_repo = repo, rc_sha = h, rc_parent = parent, rc_pvid = pvid, rc_runID = EvaluationRunID run, rc_now = t_now env\<rparr>"
    "evaluate us c s env rc preds xs n1 = Inr (firing, n2)"
    "computeResolved c s env rc firing n2 = Inr (resolved, n3)"
    "new = go_sort (\<lambda>x y. uuidCompare (FindingID x) (FindingID y) < 0) (map snd firing @ resolved)"
    "AppendEvaluation c run verdict new s = Inr s'"
    "r_RepoID run = repo" "r_SHA run = h" "r_PolicyVersionID run = pvid" "r_Caller run = caller"
    "r_ScopeID run = scope" "r_CreatedAt run = t_now env"
    "v_Verdict verdict = computeVerdict new" "\<not> v_Degraded verdict"
    "r = \<lparr>rr_EvaluationRunID = EvaluationRunID run, rr_EvaluationVerdictID = VerdictID verdict,
          rr_FindingIDs = map FindingID new, rr_Verdict = computeVerdict new\<rparr>"
proof -
  obtain runID n1 where 1: "mint env 0 = Inr (runID, n1)"
    using assms by (auto simp: finish_run_def bindE_Inr)
  define rc where "rc = \<lparr>rc_repo = repo, rc_sha = h, rc_parent = parent, rc_pvid = pvid, rc_runID = runID, rc_now = t_now env\<rparr>"
  obtain firing n2 where 2: "evaluate us c s env rc preds xs n1 = Inr (firing, n2)"
    using assms 1 by (auto simp: finish_run_def bindE_Inr Let_def rc_def)
  obtain resolved n3 where 3: "computeResolved c s env rc firing n2 = Inr (resolved, n3)"
    using assms 1 2 by (auto simp: finish_run_def bindE_Inr Let_def rc_def)
  obtain vid n4 where 4: "mint env n3 = Inr (vid, n4)"
    using assms 1 2 3 by (auto simp: finish_run_def bindE_Inr Let_def rc_def)
  define new where "new = go_sort (\<lambda>x y. uuidCompare (FindingID x) (FindingID y) < 0) (map snd firing @ resolved)"
  define run where "run = \<lparr>EvaluationRunID = runID, r_RepoID = repo, r_SHA = h, r_PolicyVersionID = pvid,
      r_Caller = caller, r_ScopeID = scope, r_CreatedAt = t_now env\<rparr>"
  define verdict where "verdict = \<lparr>VerdictID = vid, v_EvaluationRunID = runID, v_Verdict = computeVerdict new,
      v_Degraded = False, v_DegradedReason = [], v_CreatedAt = t_now env\<rparr>"
  have "AppendEvaluation c run verdict new s = Inr s'
      \<and> r = \<lparr>rr_EvaluationRunID = runID, rr_EvaluationVerdictID = vid, rr_FindingIDs = map FindingID new,
             rr_Verdict = computeVerdict new\<rparr>"
    using assms 1 2 3 4
    by (simp add: finish_run_def bindE_Inr Let_def flip: rc_def) (simp add: new_def run_def verdict_def)
  then show ?thesis
    using that [of rc run n1 firing n2 resolved n3 new verdict] 2 3 by (simp add: rc_def new_def run_def verdict_def)
qed

section \<open>Consistency of the audit rows\<close>

definition verdict_ok :: "Finding list \<Rightarrow> EvaluationVerdict \<Rightarrow> bool" where
  "verdict_ok fs v \<longleftrightarrow>
     (if v_Degraded v then v_Verdict v = VerdictWarn \<and> fs = [] else v_Verdict v = computeVerdict fs)"

definition run_findings :: "EngineStore \<Rightarrow> EvaluationRun \<Rightarrow> Finding list" where
  "run_findings s r = filter (\<lambda>f. f_EvaluationRunID f = EvaluationRunID r) (findings s)"

definition finding_of :: "EvaluationRun \<Rightarrow> Finding \<Rightarrow> bool" where
  "finding_of r f \<longleftrightarrow>
     f_EvaluationRunID f = EvaluationRunID r \<and> f_RepoID f = r_RepoID r \<and> f_SHA f = r_SHA r
     \<and> f_PolicyVersionID f = r_PolicyVersionID r \<and> Delta_IsValid (f_Delta f)"

definition audit_inv :: "EngineStore \<Rightarrow> bool" where
  "audit_inv s \<longleftrightarrow>
     list_all2 (\<lambda>r v. v_EvaluationRunID v = EvaluationRunID r \<and> verdict_ok (run_findings s r) v) (runs s) (verdicts s)
     \<and> distinct (map EvaluationRunID (runs s)) \<and> distinct (map VerdictID (verdicts s))
     \<and> distinct (map FindingID (findings s))
     \<and> (\<forall>f \<in> set (findings s). \<exists>r \<in> set (runs s). finding_of r f)"

lemma audit_inv_finding_run:
  "audit_inv s \<Longrightarrow> f \<in> set (findings s) \<Longrightarrow> f_EvaluationRunID f \<in> EvaluationRunID ` set (runs s)"
  by (force simp: audit_inv_def finding_of_def)

text \<open>Rows appended together keep the audit tables consistent when their keys are new.\<close>

lemma audit_inv_rows:
  assumes inv: "audit_inv s"
    and s': "s' = s\<lparr>runs := runs s @ [run], verdicts := verdicts s @ [verdict], findings := findings s @ fs\<rparr>"
    and keys: "EvaluationRunID run \<notin> EvaluationRunID ` set (runs s)" "VerdictID verdict \<notin> VerdictID ` set (verdicts s)"
      "distinct (map FindingID fs)" "FindingID ` set fs \<inter> FindingID ` set (findings s) = {}"
    and ids: "v_EvaluationRunID verdict = EvaluationRunID run"
    and fs: "\<And>f. f \<in> set fs \<Longrightarrow> finding_of run f" and v: "verdict_ok fs verdict"
  shows "audit_inv s'"
proof -
  have a: "c = c" "EvaluationRunID run \<notin> EvaluationRunID ` set (runs s)"
    "VerdictID verdict \<notin> VerdictID ` set (verdicts s)" "v_EvaluationRunID verdict = EvaluationRunID run"
    "distinct (map FindingID fs)" "FindingID ` set fs \<inter> FindingID ` set (findings s) = {}"
    "\<forall>f \<in> set fs. f_EvaluationRunID f = EvaluationRunID run"
    "s' = s\<lparr>runs := runs s @ [run], verdicts := verdicts s @ [verdict], findings := findings s @ fs\<rparr>" for c :: ctx
    using s' keys ids fs by (simp_all add: finding_of_def)
  have old: "run_findings s' r = run_findings s r" if "r \<in> set (runs s)" for r
    using that a(2,7,8) by (auto simp: run_findings_def filter_empty_conv)
  have new: "run_findings s' run = fs"
  proof -
    have "f_EvaluationRunID f \<noteq> EvaluationRunID run" if "f \<in> set (findings s)" for f
      using audit_inv_finding_run [OF inv that] a(2) by metis
    then show ?thesis using a(7,8) by (simp add: run_findings_def filter_False)
  qed
  let ?R = "\<lambda>r v. v_EvaluationRunID v = EvaluationRunID r \<and> verdict_ok (run_findings s' r) v"
  have "list_all2 ?R (runs s) (verdicts s)"
    using inv old by (auto simp: audit_inv_def elim!: list.rel_mono_strong)
  moreover have "?R run verdict" using a(4) new v by simp
  ultimately have "list_all2 ?R (runs s @ [run]) (verdicts s @ [verdict])"
    by (intro list_all2_appendI) simp_all
  then have all2: "list_all2 ?R (runs s') (verdicts s')" using a(8) by simp
  have "\<exists>r \<in> set (runs s'). finding_of r f" if "f \<in> set (findings s')" for f
    using that a(8) fs inv by (auto simp: audit_inv_def)
  moreover have "distinct (map EvaluationRunID (runs s'))" "distinct (map VerdictID (verdicts s'))"
    "distinct (map FindingID (findings s'))"
    using inv a(2,3,5,6,8) by (auto simp: audit_inv_def)
  ultimately show ?thesis
    unfolding audit_inv_def using all2 by blast
qed


lemma audit_inv_append:
  assumes "audit_inv s" and app: "AppendEvaluation c run verdict fs s = Inr s'"
    and "\<And>f. f \<in> set fs \<Longrightarrow> finding_of run f" and "verdict_ok fs verdict"
  shows "audit_inv s'"
  using audit_inv_rows [OF assms(1)] assms(3,4) AppendEvaluation_Inr [OF app] by blast

section \<open>Mutes\<close>

text \<open>The override table has its primary key.\<close>

definition overrides_ok :: "EngineStore \<Rightarrow> bool" where
  "overrides_ok s \<longleftrightarrow> distinct (map OverrideID (es_overrides s)) \<and> uuid_Nil \<notin> OverrideID ` set (es_overrides s)"

text \<open>The latest override of the rule that matches the scope mutes it.\<close>

definition muting :: "(uuid \<Rightarrow> string) \<Rightarrow> EngineStore \<Rightarrow> uuid \<Rightarrow> ESample list \<Rightarrow> string \<Rightarrow> uuid \<Rightarrow> bool" where
  "muting us s repo xs ruleID scope \<longleftrightarrow>
     (case latest_scan o_CreatedAt OverrideID None
             (filter (override_matches ruleID (candidate_of us repo xs scope)) (es_overrides s)) of
        None \<Rightarrow> False | Some v \<Rightarrow> Mute v)"

lemma replay_overrides_Live:
  "distinct (map OverrideID (overrides d @ vs)) \<Longrightarrow> uuid_Nil \<notin> OverrideID ` set vs \<Longrightarrow>
     replay_overrides Live vs d = Inr (d\<lparr>overrides := overrides d @ vs\<rparr>)"
proof (induction vs arbitrary: d)
  case (Cons v vs)
  from Cons.prems have "OverrideID v \<notin> OverrideID ` set (overrides d)" and nz: "OverrideID v \<noteq> uuid_Nil"
    by auto
  then have "\<not> list_ex (\<lambda>e. OverrideID e = OverrideID v) (overrides d)"
    unfolding list_ex_iff by (metis image_eqI)
  with nz have "InsertOverride Live v d = Inr (d\<lparr>overrides := overrides d @ [v]\<rparr>)"
    by (simp add: InsertOverride_def)
  with Cons show ?case by simp
qed simp

lemma is_muted_eq:
  assumes "overrides_ok s"
  shows "is_muted us Live s repo xs ruleID i = Inr (muting us s repo xs ruleID i)"
proof -
  have "replay_overrides Live (es_overrides s) NewInMemoryStore
      = Inr (NewInMemoryStore\<lparr>overrides := overrides NewInMemoryStore @ es_overrides s\<rparr>)"
    using assms by (intro replay_overrides_Live) (simp_all add: overrides_ok_def NewInMemoryStore_def)
  then show ?thesis
    by (simp add: is_muted_def es_LatestMatchingOverride_def LatestMatchingOverride_def override_scan_spec
        muting_def NewInMemoryStore_def)
qed

section \<open>Prior blocks\<close>

lemma latest_per_tuple_spec:
  "gomap_ok m \<Longrightarrow>
     gomap_ok (latest_per_tuple m fs)
     \<and> map_of (latest_per_tuple m fs) k =
         latest_scan f_CreatedAt FindingID (map_of m k) (filter (\<lambda>f. (f_ScopeID f, f_RuleID f) = k) fs)"
proof (induction m fs rule: latest_per_tuple.induct)
  case (2 m f fs)
  then show ?case
    by (auto simp: Let_def split: option.splits)
qed simp

end
