(* ===== verification/Rule_Engine_Run.thy ===== *)
theory Rule_Engine_Run
  imports Rule_Engine_Laws
begin

text \<open>
  The properties of one evaluation run: which findings it writes, with which deltas and
  witnesses, which resolved rows, and what verdict follows; and that a repeated call is
  answered with the first run by either deduplication layer.
\<close>

section \<open>Compiled rules\<close>

text \<open>
  The compile cache holds, for the policy version, only what compiling against the
  thresholds of that version gives: a policy version is immutable.
\<close>

definition cached_ok :: "(string \<Rightarrow> uuid option) \<Rightarrow> MapResolver \<Rightarrow> uuid \<Rightarrow> dsl_cache \<Rightarrow> bool" where
  "cached_ok fs resolver pvid m \<longleftrightarrow>
     (\<forall>src r. map_of m (pvid, src) = Some r \<longrightarrow> r = Compile fs src (Some (MapResolver_Lookup resolver)))"

definition compiled :: "(string \<Rightarrow> uuid option) \<Rightarrow> MapResolver \<Rightarrow> Rule \<Rightarrow> ruleBinding \<Rightarrow> bool" where
  "compiled fs resolver r b \<longleftrightarrow>
     b_rule b = r \<and> Compile fs (PredicateDSL r) (Some (MapResolver_Lookup resolver)) = Inr (b_predicate b)"

lemma GetOrCompile_cached_ok:
  assumes "cached_ok fs resolver pvid m"
  shows "fst (GetOrCompile fs pvid src resolver m) = Compile fs src (Some (MapResolver_Lookup resolver))
    \<and> cached_ok fs resolver pvid (snd (GetOrCompile fs pvid src resolver m))"
  using assms by (auto simp: GetOrCompile_def cached_ok_def Let_def split: option.splits)

lemma compile_rules_spec:
  assumes "compile_rules fs pvid resolver rs m = (Inr bs, m')" and "cached_ok fs resolver pvid m"
  shows "list_all2 (compiled fs resolver) rs bs \<and> cached_ok fs resolver pvid m'"
  using assms
proof (induction rs arbitrary: m bs)
  case Nil
  then show ?case by simp
next
  case (Cons r rs)
  obtain c m1 where g: "GetOrCompile fs pvid (PredicateDSL r) resolver m = (c, m1)" by fastforce
  with Cons.prems obtain p bs' where c: "c = Inr p" and bs: "bs = \<lparr>b_rule = r, b_predicate = p\<rparr> # bs'"
    and rest: "compile_rules fs pvid resolver rs m1 = (Inr bs', m')"
    by (auto split: sum.splits prod.splits)
  have "Compile fs (PredicateDSL r) (Some (MapResolver_Lookup resolver)) = Inr p" "cached_ok fs resolver pvid m1"
    using GetOrCompile_cached_ok [OF Cons.prems(2), of "PredicateDSL r"] g c by auto
  with Cons.IH [OF rest] bs show ?case by (simp add: compiled_def)
qed

text \<open>The rule's predicate holds at the scope.\<close>

definition rule_fires :: "(string \<Rightarrow> uuid option) \<Rightarrow> MapResolver \<Rightarrow> ESample list \<Rightarrow> Rule \<Rightarrow> uuid \<Rightarrow> bool" where
  "rule_fires fs resolver xs r i \<longleftrightarrow>
     (case Compile fs (PredicateDSL r) (Some (MapResolver_Lookup resolver)) of
        Inl _ \<Rightarrow> False | Inr p \<Rightarrow> scope_holds (root p) (dslSamples xs i))"

text \<open>A firing finding of a rule at a scope, before its delta.\<close>

definition firing_row ::
  "(uuid \<Rightarrow> string) \<Rightarrow> (string \<Rightarrow> uuid option) \<Rightarrow> MapResolver \<Rightarrow> EngineStore \<Rightarrow> run_ctx \<Rightarrow> ESample list
   \<Rightarrow> Rule \<Rightarrow> Finding \<Rightarrow> bool" where
  "firing_row us fs resolver s rc xs r f \<longleftrightarrow>
     rule_fires fs resolver xs r (f_ScopeID f) \<and> \<not> muting us s (rc_repo rc) xs (RuleID r) (f_ScopeID f)
     \<and> f_ScopeID f \<in> s_ScopeID ` set xs
     \<and> f_RuleID f = RuleID r \<and> RuleVersion f = Version r \<and> f_Severity f = SeverityDefault r
     \<and> f_Delta f = computeDelta (SeverityDefault r) (prior_of s rc (f_ScopeID f) (RuleID r))
     \<and> (\<forall>w \<in> set (MetricSampleIDs f). \<exists>x \<in> set xs. SampleID x = w \<and> s_ScopeID x = f_ScopeID f)"

lemma dslSamples_ids: "SampleID ` set (dslSamples xs i) = SampleID ` {x \<in> set xs. s_ScopeID x = i}"
  by (force simp: dslSamples_def scope_rows_def Sample.truncate_def)

lemma made_iff:
  assumes "compiled fs resolver r b" and "overrides_ok s"
  shows "(\<exists>f. made us Live s rc xs b i f) \<longleftrightarrow>
    rule_fires fs resolver xs r i \<and> \<not> muting us s (rc_repo rc) xs (RuleID r) i"
  using assms
  by (auto simp: made_def compiled_def rule_fires_def is_muted_eq EvalAtScope_spec) blast

lemma made_row:
  assumes "compiled fs resolver r b" and "overrides_ok s" and "made us Live s rc xs b i f"
    and i: "i \<in> s_ScopeID ` set xs"
  shows "firing_row us fs resolver s rc xs r (stamped s rc f) \<and> f_ScopeID f = i"
proof -
  have c: "Compile fs (PredicateDSL r) (Some (MapResolver_Lookup resolver)) = Inr (b_predicate b)" "b_rule b = r"
    using assms(1) by (simp_all add: compiled_def)
  from assms(3) obtain ws fid where
    ev: "EvalAtScope (b_predicate b) (dslSamples xs i) = Inr (True, ws)" and f: "f = new_finding rc r i ws fid"
    by (auto simp: made_def c(2))
  have "ws = dedupSortUUIDs (scope_witnesses (root (b_predicate b)) (dslSamples xs i))"
    using ev EvalAtScope_spec [OF c(1), of "dslSamples xs i"] by simp
  then have "w \<in> SampleID ` set (dslSamples xs i)" if "w \<in> set ws" for w
    using scope_witnesses_support [OF Compile_bound [OF c(1)]] that by fastforce
  then have "\<exists>x \<in> set xs. SampleID x = w \<and> s_ScopeID x = i" if "w \<in> set ws" for w
    using that unfolding dslSamples_ids by blast
  moreover have "rule_fires fs resolver xs r i \<and> \<not> muting us s (rc_repo rc) xs (RuleID r) i"
    using made_iff [OF assms(1,2)] assms(3) by blast
  ultimately show ?thesis
    using i by (simp add: firing_row_def f new_finding_def)
qed

section \<open>The rows of a run\<close>

text \<open>An unresolved block at the parent commit: the latest row of its rule and scope there.\<close>

definition prior_block :: "EngineStore \<Rightarrow> run_ctx \<Rightarrow> Finding \<Rightarrow> bool" where
  "prior_block s rc p \<longleftrightarrow>
     prior_of s rc (f_ScopeID p) (f_RuleID p) = Some p \<and> f_Severity p = SeverityBlock \<and> live p"

lemma ListPriorBlockFindings_set:
  assumes "ListPriorBlockFindings c (rc_repo rc) parent (rc_pvid rc) s = Inr ps" and "rc_parent rc = Some parent"
  shows "p \<in> set ps \<longleftrightarrow> prior_block s rc p"
proof -
  let ?fs = "filter (\<lambda>f. f_RepoID f = rc_repo rc \<and> f_SHA f = parent \<and> f_PolicyVersionID f = rc_pvid rc) (findings s)"
  let ?m = "latest_per_tuple [] ?fs"
  have ok: "gomap_ok ?m" using latest_per_tuple_spec [of "[]"] by simp
  have lookup: "map_of ?m (i, r) = prior_of s rc i r" for i r
    using latest_per_tuple_spec [of "[]" ?fs "(i, r)"] assms(2)
    by (simp add: prior_of_def conj_ac)
  have key: "f_ScopeID p = i \<and> f_RuleID p = r" if "prior_of s rc i r = Some p" for i r
    using that latest_scan_max assms(2) by (fastforce simp: prior_of_def)
  have "ps = go_sort finding_before (filter (\<lambda>f. f_Delta f \<noteq> DeltaResolved \<and> f_Severity f = SeverityBlock) (map snd ?m))"
    using assms(1) by (simp add: ListPriorBlockFindings_def split: if_splits)
  then have "set ps = {p \<in> snd ` set ?m. f_Delta p \<noteq> DeltaResolved \<and> f_Severity p = SeverityBlock}"
    by (simp only: set_go_sort set_filter set_map)
  moreover have "p \<in> snd ` set ?m \<longleftrightarrow> prior_of s rc (f_ScopeID p) (f_RuleID p) = Some p"
  proof
    assume "p \<in> snd ` set ?m"
    then obtain i r where "((i, r), p) \<in> set ?m" by force
    then have "prior_of s rc i r = Some p" using gomap_set_map_of [OF ok] lookup by simp
    with key show "prior_of s rc (f_ScopeID p) (f_RuleID p) = Some p" by metis
  next
    assume "prior_of s rc (f_ScopeID p) (f_RuleID p) = Some p"
    then have "((f_ScopeID p, f_RuleID p), p) \<in> set ?m" using gomap_set_map_of [OF ok] lookup by simp
    then show "p \<in> snd ` set ?m" by force
  qed
  ultimately show ?thesis by (auto simp: prior_block_def live_def)
qed

definition still_firing :: "Finding list \<Rightarrow> Finding \<Rightarrow> bool" where
  "still_firing new p \<longleftrightarrow>
     (\<exists>f \<in> set new. live f \<and> f_Severity f = SeverityBlock \<and> f_RuleID f = f_RuleID p \<and> f_ScopeID f = f_ScopeID p)"

lemma computeResolved_set:
  assumes "computeResolved c s env rc firing n = Inr (resolved, n')"
  shows "f \<in> set resolved \<Longrightarrow> \<exists>p i. prior_block s rc p \<and> \<not> still_blocking firing p \<and> f = resolved_finding rc p i"
    and "prior_block s rc p \<Longrightarrow> \<not> still_blocking firing p \<Longrightarrow> \<exists>i. resolved_finding rc p i \<in> set resolved"
proof -
  show "\<exists>p i. prior_block s rc p \<and> \<not> still_blocking firing p \<and> f = resolved_finding rc p i" if "f \<in> set resolved"
  proof (cases "rc_parent rc")
    case None
    then show ?thesis using assms that by (simp add: computeResolved_def)
  next
    case (Some parent)
    with assms obtain ps where ps: "ListPriorBlockFindings c (rc_repo rc) parent (rc_pvid rc) s = Inr ps"
      and "resolved_loop env rc firing ps n = Inr (resolved, n')"
      by (auto simp: computeResolved_def bindE_Inr)
    with resolved_loop_set that show ?thesis
      unfolding ListPriorBlockFindings_set [OF ps Some, symmetric] by fast
  qed
  show "\<exists>i. resolved_finding rc p i \<in> set resolved" if "prior_block s rc p" "\<not> still_blocking firing p"
  proof (cases "rc_parent rc")
    case None
    then show ?thesis using that by (simp add: prior_block_def prior_of_def)
  next
    case (Some parent)
    with assms obtain ps where ps: "ListPriorBlockFindings c (rc_repo rc) parent (rc_pvid rc) s = Inr ps"
      and loop: "resolved_loop env rc firing ps n = Inr (resolved, n')"
      by (auto simp: computeResolved_def bindE_Inr)
    then show ?thesis
      using resolved_loop_set [OF loop] that unfolding ListPriorBlockFindings_set [OF ps Some, symmetric] by fast
  qed
qed


text \<open>A run that finds no recent one to answer with.\<close>

definition no_recent ::
  "ctx \<Rightarrow> uuid \<Rightarrow> sha \<Rightarrow> uuid \<Rightarrow> Caller \<Rightarrow> uuid option \<Rightarrow> time \<Rightarrow> EngineStore \<Rightarrow> bool" where
  "no_recent c repo h pvid caller scope ttl s \<longleftrightarrow>
     (case LookupRecentCanonicalRun c repo h pvid caller scope ttl s of Inr (Some _) \<Rightarrow> False | _ \<Rightarrow> True)"

lemma runLocked_fresh:
  assumes "runLocked fs us c env repo h scope pvid caller ttl s m = (Inr r, s', m')"
    and "no_recent c repo h pvid caller scope ttl s"
    and "load_inputs c s repo h scope pvid = Inr (resolver, rs, xs, parent)"
  obtains preds where "compile_rules fs pvid resolver rs m = (Inr preds, m')"
    and "finish_run us c s env repo h scope pvid caller preds xs parent = Inr (r, s')"
proof -
  have "(case compile_rules fs pvid resolver rs m of
        (Inl e, m') \<Rightarrow> (Inl e, s, m')
      | (Inr preds, m') \<Rightarrow>
          (case finish_run us c s env repo h scope pvid caller preds xs parent of
             Inl e \<Rightarrow> (Inl e, s, m') | Inr (r, s') \<Rightarrow> (Inr r, s', m'))) = (Inr r, s', m')"
    using assms by (auto simp: runLocked_def no_recent_def split: sum.splits option.splits)
  then show ?thesis
    using that by (auto split: sum.splits prod.splits)
qed

text \<open>The coordinates of the run that produced a result.\<close>

definition coords :: "run_env \<Rightarrow> uuid \<Rightarrow> sha \<Rightarrow> sha option \<Rightarrow> uuid \<Rightarrow> RunResult \<Rightarrow> run_ctx" where
  "coords env repo h parent pvid r =
     \<lparr>rc_repo = repo, rc_sha = h, rc_parent = parent, rc_pvid = pvid, rc_runID = rr_EvaluationRunID r, rc_now = t_now env\<rparr>"

text \<open>What the rows \<open>new\<close> of a run are.\<close>

definition run_rows ::
  "(uuid \<Rightarrow> string) \<Rightarrow> (string \<Rightarrow> uuid option) \<Rightarrow> MapResolver \<Rightarrow> EngineStore \<Rightarrow> run_ctx \<Rightarrow> Rule list \<Rightarrow> ESample list
   \<Rightarrow> Finding list \<Rightarrow> bool" where
  "run_rows us fs resolver s rc rs xs new \<longleftrightarrow>
     (\<forall>f \<in> set new. live f \<longrightarrow> (\<exists>q \<in> set rs. firing_row us fs resolver s rc xs q f))
     \<and> (\<forall>q \<in> set rs. \<forall>i \<in> s_ScopeID ` set xs.
          rule_fires fs resolver xs q i \<and> \<not> muting us s (rc_repo rc) xs (RuleID q) i \<longrightarrow>
          (\<exists>f \<in> set new. live f \<and> f_RuleID f = RuleID q \<and> f_ScopeID f = i))
     \<and> (\<forall>f \<in> set new. \<not> live f \<longrightarrow>
          (\<exists>p i. prior_block s rc p \<and> \<not> still_firing new p \<and> f = resolved_finding rc p i))
     \<and> (\<forall>p. prior_block s rc p \<and> \<not> still_firing new p \<longrightarrow> (\<exists>i. resolved_finding rc p i \<in> set new))"

lemma firing_rows:
  assumes ev: "evaluate us Live s env rc preds xs n = Inr (firing, n')"
    and comp: "list_all2 (compiled fs resolver) rs preds" and ov: "overrides_ok s"
  shows "\<And>k f. map_of firing k = Some f \<Longrightarrow>
      live f \<and> (\<exists>q \<in> set rs. firing_row us fs resolver s rc xs q f) \<and> k = (f_RuleID f, f_ScopeID f)"
    and "\<forall>q \<in> set rs. \<forall>i \<in> s_ScopeID ` set xs.
      rule_fires fs resolver xs q i \<and> \<not> muting us s (rc_repo rc) xs (RuleID q) i \<longrightarrow>
      (\<exists>f. map_of firing (RuleID q, i) = Some f)"
proof -
  show "live f \<and> (\<exists>q \<in> set rs. firing_row us fs resolver s rc xs q f) \<and> k = (f_RuleID f, f_ScopeID f)"
    if k: "map_of firing k = Some f" for k f
  proof -
    from evaluate_spec(2) [OF ev k] obtain b i f0 where b: "b \<in> set preds" "i \<in> s_ScopeID ` set xs"
      "k = (RuleID (b_rule b), i)" "made us Live s rc xs b i f0" "f = stamped s rc f0" by blast
    obtain q where q: "q \<in> set rs" "compiled fs resolver q b" using list_all2_set_right [OF comp b(1)] by blast
    from made_row [OF q(2) ov b(4,2)] have row: "firing_row us fs resolver s rc xs q f" "f_ScopeID f = i"
      by (simp_all add: b(5))
    then have "k = (f_RuleID f, f_ScopeID f)" using q(2) b(3) by (simp add: firing_row_def compiled_def)
    moreover have "live f" unfolding live_def b(5) stamped_simps by (rule computeDelta_valid)
    ultimately show ?thesis using row(1) q(1) by auto
  qed
  show "\<forall>q \<in> set rs. \<forall>i \<in> s_ScopeID ` set xs.
      rule_fires fs resolver xs q i \<and> \<not> muting us s (rc_repo rc) xs (RuleID q) i \<longrightarrow>
      (\<exists>f. map_of firing (RuleID q, i) = Some f)"
  proof (intro ballI impI)
    fix q i assume q: "q \<in> set rs" and i: "i \<in> s_ScopeID ` set xs"
      and fm: "rule_fires fs resolver xs q i \<and> \<not> muting us s (rc_repo rc) xs (RuleID q) i"
    obtain b where b: "b \<in> set preds" "compiled fs resolver q b"
      using comp q by (metis in_set_conv_nth list_all2_conv_all_nth)
    with made_iff [OF b(2) ov] fm obtain f where "made us Live s rc xs b i f" by blast
    then show "\<exists>f. map_of firing (RuleID q, i) = Some f"
      using evaluate_spec(3) [OF ev b(1) i] b(2) by (auto simp: compiled_def)
  qed
qed

lemma still_blocking_firing:
  assumes ok: "gomap_ok firing" and fr: "\<And>k f. map_of firing k = Some f \<Longrightarrow> live f \<and> k = (f_RuleID f, f_ScopeID f)"
    and re: "\<forall>f \<in> set resolved. \<not> live f" and new: "set new = snd ` set firing \<union> set resolved"
  shows "still_firing new p \<longleftrightarrow> still_blocking firing p"
proof
  assume "still_firing new p"
  then obtain f where f: "f \<in> snd ` set firing" "f_Severity f = SeverityBlock"
    "f_RuleID f = f_RuleID p" "f_ScopeID f = f_ScopeID p"
    using re new unfolding still_firing_def by blast
  then obtain k where "map_of firing k = Some f" using gomap_set_map_of [OF ok] by fastforce
  with fr f show "still_blocking firing p" by (metis still_blocking_def)
next
  assume "still_blocking firing p"
  then obtain f where f: "map_of firing (f_RuleID p, f_ScopeID p) = Some f" "f_Severity f = SeverityBlock"
    by (auto simp: still_blocking_def)
  then have mem: "f \<in> snd ` set firing" by (metis image_eqI map_of_SomeD snd_conv)
  from fr [OF f(1)] have "live f" "f_RuleID f = f_RuleID p" "f_ScopeID f = f_ScopeID p" by simp_all
  then show "still_firing new p" using mem new f(2) by (auto simp: still_firing_def)
qed


lemma findings_sorted:
  "distinct (map FindingID (go_sort (\<lambda>x y. uuidCompare (FindingID x) (FindingID y) < 0) fs)) \<Longrightarrow>
     sorted_wrt (<) (map FindingID (go_sort (\<lambda>x y. uuidCompare (FindingID x) (FindingID y) < 0) fs))"
  using go_sort_key [of FindingID fs] by (simp add: strict_sorted_iff)

lemma finish_run_rows:
  assumes fin: "finish_run us c s env repo h scope pvid caller preds xs parent = Inr (r, s')"
    and comp: "list_all2 (compiled fs resolver) rs preds" and ov: "overrides_ok s"
  obtains new where "findings s' = findings s @ new" "rr_Verdict r = rollup new" "rr_FindingIDs r = map FindingID new"
    "run_rows us fs resolver s (coords env repo h parent pvid r) rs xs new"
    "sorted_wrt (<) (map FindingID new)"
proof -
  from fin obtain rc firing resolved new n1 n2 n3 run verdict where
    rc: "rc = \<lparr>rc_repo = repo, rc_sha = h, rc_parent = parent, rc_pvid = pvid, rc_runID = EvaluationRunID run, rc_now = t_now env\<rparr>"
    and ev: "evaluate us c s env rc preds xs n1 = Inr (firing, n2)"
    and res: "computeResolved c s env rc firing n2 = Inr (resolved, n3)"
    and new: "new = go_sort (\<lambda>x y. uuidCompare (FindingID x) (FindingID y) < 0) (map snd firing @ resolved)"
    and app: "AppendEvaluation c run verdict new s = Inr s'"
    and r: "r = \<lparr>rr_EvaluationRunID = EvaluationRunID run, rr_EvaluationVerdictID = VerdictID verdict,
          rr_FindingIDs = map FindingID new, rr_Verdict = computeVerdict new\<rparr>"
    by (rule finish_run_Inr)
  note a = AppendEvaluation_Inr [OF app]
  note fr = firing_rows [OF ev [unfolded a(1)] comp ov]
  have ok: "gomap_ok firing" by (rule evaluate_spec(1) [OF ev])
  have setn: "set new = snd ` set firing \<union> set resolved" by (simp add: new)
  have coords: "coords env repo h parent pvid r = rc" by (simp add: coords_def rc r)
  have re: "\<forall>f \<in> set resolved. \<not> live f"
    using computeResolved_set(1) [OF res] by (fastforce simp: live_def resolved_finding_def)
  have still: "still_firing new p \<longleftrightarrow> still_blocking firing p" for p
    using still_blocking_firing [OF ok _ re setn] fr(1) by blast
  have mem: "\<exists>k. map_of firing k = Some f" if "f \<in> set new" "live f" for f
    using that re setn gomap_set_map_of [OF ok] by fastforce
  have "run_rows us fs resolver s rc rs xs new"
    unfolding run_rows_def
  proof (intro conjI)
    show "\<forall>f \<in> set new. live f \<longrightarrow> (\<exists>q \<in> set rs. firing_row us fs resolver s rc xs q f)"
    proof (intro ballI impI)
      fix f assume "f \<in> set new" "live f"
      then obtain k where "map_of firing k = Some f" using mem by blast
      from fr(1) [OF this] show "\<exists>q \<in> set rs. firing_row us fs resolver s rc xs q f" by (elim conjE)
    qed
    show "\<forall>q \<in> set rs. \<forall>i \<in> s_ScopeID ` set xs.
        rule_fires fs resolver xs q i \<and> \<not> muting us s (rc_repo rc) xs (RuleID q) i \<longrightarrow>
        (\<exists>f \<in> set new. live f \<and> f_RuleID f = RuleID q \<and> f_ScopeID f = i)"
    proof (intro ballI impI)
      fix q i assume "q \<in> set rs" "i \<in> s_ScopeID ` set xs"
        and "rule_fires fs resolver xs q i \<and> \<not> muting us s (rc_repo rc) xs (RuleID q) i"
      with fr(2) obtain f where f: "map_of firing (RuleID q, i) = Some f" by blast
      then have "f \<in> set new" unfolding setn by (metis UnI1 image_eqI map_of_SomeD snd_conv)
      moreover from fr(1) [OF f] have "live f" "f_RuleID f = RuleID q" "f_ScopeID f = i" by simp_all
      ultimately show "\<exists>f \<in> set new. live f \<and> f_RuleID f = RuleID q \<and> f_ScopeID f = i" by blast
    qed
    show "\<forall>f \<in> set new. \<not> live f \<longrightarrow>
        (\<exists>p i. prior_block s rc p \<and> \<not> still_firing new p \<and> f = resolved_finding rc p i)"
    proof (intro ballI impI)
      fix f assume "f \<in> set new" "\<not> live f"
      moreover have "live g" if "g \<in> snd ` set firing" for g
        using that fr(1) gomap_set_map_of [OF ok] by fastforce
      ultimately have "f \<in> set resolved" using setn by blast
      with computeResolved_set(1) [OF res] still
      show "\<exists>p i. prior_block s rc p \<and> \<not> still_firing new p \<and> f = resolved_finding rc p i" by blast
    qed
    show "\<forall>p. prior_block s rc p \<and> \<not> still_firing new p \<longrightarrow> (\<exists>i. resolved_finding rc p i \<in> set new)"
      using computeResolved_set(2) [OF res] still setn by blast
  qed
  moreover have "sorted_wrt (<) (map FindingID new)"
    using a(5) unfolding new by (rule findings_sorted)
  ultimately show ?thesis
    using that [of new] a(8) r coords computeVerdict_eq by simp
qed


text \<open>A call neither deduplication layer answers.\<close>

definition fresh_call ::
  "ctx \<Rightarrow> run_env \<Rightarrow> uuid \<Rightarrow> sha \<Rightarrow> uuid option \<Rightarrow> uuid \<Rightarrow> Caller \<Rightarrow> Engine \<Rightarrow> EngineStore \<Rightarrow> bool" where
  "fresh_call c env repo h scope pvid caller e s \<longleftrightarrow>
     fst (lookupRecentRun (t_lookup env) (makeRunCacheKey repo h pvid scope caller) e) = None
     \<and> no_recent c repo h pvid caller scope (runDedupTTL e) s"

lemma lookupRecentRun_None:
  "lookupRecentRun t k e = (None, e') \<Longrightarrow> runDedupTTL e' = runDedupTTL e \<and> dslCache e' = dslCache e"
  by (auto simp: lookupRecentRun_def split: option.splits if_splits)

lemma engine_run_fresh:
  assumes run: "engine_run fs us c env repo h scope pvid caller e s = (Inr r, e', s')"
    and fresh: "fresh_call c env repo h scope pvid caller e s"
  obtains m where "runLocked fs us c env repo h scope pvid caller (runDedupTTL e) s (dslCache e) = (Inr r, s', m)"
    and "c = Live" and "run_guard repo h pvid caller = None"
proof -
  let ?k = "makeRunCacheKey repo h pvid scope caller"
  obtain e1 where look: "lookupRecentRun (t_lookup env) ?k e = (None, e1)"
    using fresh by (metis fresh_call_def prod.collapse)
  have g: "run_guard repo h pvid caller = None"
    using run by (auto simp: engine_run_def split: option.splits)
  have live: "c = Live"
    using run look g by (cases c) (simp_all add: engine_run_def Let_def)
  with run look g have "(case runLocked fs us c env repo h scope pvid caller (runDedupTTL e1) s (dslCache e1) of
        (Inl err, s', m) \<Rightarrow> (Inl err, e1\<lparr>dslCache := m\<rparr>, s')
      | (Inr r, s', m) \<Rightarrow> (Inr r, storeRecentRun (t_store env) ?k r (e1\<lparr>dslCache := m\<rparr>), s')) = (Inr r, e', s')"
    by (simp add: engine_run_def Let_def)
  then show ?thesis
    using that live g lookupRecentRun_None [OF look] by (auto split: sum.splits prod.splits)
qed

text \<open>The inputs of a run are as they should be: the cache is coherent and override identifiers are unique.\<close>

definition coherent :: "(string \<Rightarrow> uuid option) \<Rightarrow> MapResolver \<Rightarrow> uuid \<Rightarrow> Engine \<Rightarrow> EngineStore \<Rightarrow> bool" where
  "coherent fs resolver pvid e s \<longleftrightarrow> cached_ok fs resolver pvid (dslCache e) \<and> overrides_ok s"

lemma engine_run_rows:
  assumes run: "engine_run fs us c env repo h scope pvid caller e s = (Inr r, e', s')"
    and fresh: "fresh_call c env repo h scope pvid caller e s"
    and inp: "load_inputs Live s repo h scope pvid = Inr (resolver, rs, xs, parent)"
    and coh: "coherent fs resolver pvid e s"
  obtains new where "findings s' = findings s @ new" "rr_Verdict r = rollup new" "rr_FindingIDs r = map FindingID new"
    "run_rows us fs resolver s (coords env repo h parent pvid r) rs xs new"
    "sorted_wrt (<) (map FindingID new)"
proof -
  obtain m where m: "runLocked fs us c env repo h scope pvid caller (runDedupTTL e) s (dslCache e) = (Inr r, s', m)"
    and c: "c = Live"
    using engine_run_fresh [OF run fresh] by blast
  obtain preds where "compile_rules fs pvid resolver rs (dslCache e) = (Inr preds, m)"
    and "finish_run us c s env repo h scope pvid caller preds xs parent = Inr (r, s')"
    using runLocked_fresh [OF m] fresh inp c by (auto simp: fresh_call_def)
  with compile_rules_spec coh show ?thesis
    by (metis coherent_def finish_run_rows that)
qed

text \<open>With one version of each rule, a live row is there exactly when the rule fires unmuted.\<close>

lemma run_rows_fire_iff:
  assumes rows: "run_rows us fs resolver s rc rs xs new" and dist: "distinct (map RuleID rs)"
    and q: "q \<in> set rs" and i: "i \<in> s_ScopeID ` set xs"
  shows "(\<exists>f \<in> set new. live f \<and> f_RuleID f = RuleID q \<and> f_ScopeID f = i \<and> f_Severity f = SeverityDefault q) \<longleftrightarrow>
    rule_fires fs resolver xs q i \<and> \<not> muting us s (rc_repo rc) xs (RuleID q) i"
proof -
  have same: "q' = q" if "q' \<in> set rs" "RuleID q' = RuleID q" for q'
    using that q dist by (metis distinct_map inj_onD)
  have sound: "rule_fires fs resolver xs q i \<and> \<not> muting us s (rc_repo rc) xs (RuleID q) i \<and> f_Severity f = SeverityDefault q"
    if f: "f \<in> set new" "live f" "f_RuleID f = RuleID q" "f_ScopeID f = i" for f
  proof -
    obtain q' where q': "q' \<in> set rs" "firing_row us fs resolver s rc xs q' f"
      using rows f(1,2) unfolding run_rows_def by blast
    with same f(3) have "q' = q" by (simp add: firing_row_def)
    with q' f(4) show ?thesis by (simp add: firing_row_def)
  qed
  have complete: "\<exists>f \<in> set new. live f \<and> f_RuleID f = RuleID q \<and> f_ScopeID f = i"
    if "rule_fires fs resolver xs q i \<and> \<not> muting us s (rc_repo rc) xs (RuleID q) i"
    using rows q i that unfolding run_rows_def by blast
  show ?thesis using sound complete by blast
qed


lemma run_rows_severity:
  assumes rows: "run_rows us fs resolver s rc rs xs new" and dist: "distinct (map RuleID rs)"
  shows "list_ex (\<lambda>f. live f \<and> f_Severity f = sev) new \<longleftrightarrow>
    (\<exists>q \<in> set rs. SeverityDefault q = sev
       \<and> (\<exists>i \<in> s_ScopeID ` set xs. rule_fires fs resolver xs q i \<and> \<not> muting us s (rc_repo rc) xs (RuleID q) i))"
proof
  assume "list_ex (\<lambda>f. live f \<and> f_Severity f = sev) new"
  then obtain f where f: "f \<in> set new" "live f" "f_Severity f = sev" unfolding list_ex_iff by blast
  then obtain q where "q \<in> set rs" "firing_row us fs resolver s rc xs q f" using rows unfolding run_rows_def by blast
  with f(3) show "\<exists>q \<in> set rs. SeverityDefault q = sev
       \<and> (\<exists>i \<in> s_ScopeID ` set xs. rule_fires fs resolver xs q i \<and> \<not> muting us s (rc_repo rc) xs (RuleID q) i)"
    unfolding firing_row_def by metis
next
  assume "\<exists>q \<in> set rs. SeverityDefault q = sev
       \<and> (\<exists>i \<in> s_ScopeID ` set xs. rule_fires fs resolver xs q i \<and> \<not> muting us s (rc_repo rc) xs (RuleID q) i)"
  then obtain q i where "q \<in> set rs" "SeverityDefault q = sev" "i \<in> s_ScopeID ` set xs"
    "rule_fires fs resolver xs q i \<and> \<not> muting us s (rc_repo rc) xs (RuleID q) i" by blast
  with run_rows_fire_iff [OF rows dist] show "list_ex (\<lambda>f. live f \<and> f_Severity f = sev) new"
    unfolding list_ex_iff by metis
qed

section \<open>A concrete repository\<close>

definition ex_env :: "nat \<Rightarrow> time \<Rightarrow> run_env" where
  "ex_env k t = \<lparr>ids = (\<lambda>n. Some (of_nat (100 * k + n))), t_lookup = t, t_now = t, t_store = t\<rparr>"

definition ex_version :: PolicyVersion where
  "ex_version =
     \<lparr>PolicyVersionID = 50, pv_Name = ''main'', RuleRefs = [\<lparr>rr_RuleID = ''r1'', rr_Version = 1\<rparr>],
      ThresholdRefs = [\<lparr>tr_ThresholdID = 7\<rparr>], pv_RefactorWeights = ex_weights, Signature = [], pv_CreatedAt = 1\<rparr>"

definition ex_rule :: Rule where
  "ex_rule =
     \<lparr>RuleID = ''r1'', Version = 1, PackID = ''base'', PredicateDSL = ''threshold('7')'', SeverityDefault = ''block'',
      DescriptionMD = [], rule_CreatedAt = 1\<rparr>"

definition ex_esample :: "uuid \<Rightarrow> uuid \<Rightarrow> sha \<Rightarrow> rat \<Rightarrow> ESample" where
  "ex_esample i scope h v =
     \<lparr>SampleID = i, s_RepoID = 1, s_SHA = h, s_ScopeID = scope, s_ScopeKind = ''file'', s_MetricKind = ''cyclo'',
      s_MetricVersion = 1, s_Value = Fin v, HasValue = True, s_Pack = ''base'', s_Source = ''computed'',
      s_Degraded = False, s_DegradedReason = [], ScopeSignature = ''src/a.go''\<rparr>"

text \<open>Commit \<open>a1\<close> and its child \<open>b2\<close>, in which the file of scope 2 has been repaired.\<close>

definition ex_estore :: EngineStore where
  "ex_estore =
     (RegisterCommit 1 ''b2'' ''a1''
      \<circ> InsertSamples 1 ''b2'' [ex_esample 12 2 ''b2'' 5, ex_esample 13 3 ''b2'' 20]
      \<circ> InsertSamples 1 ''a1'' [ex_esample 10 2 ''a1'' 12, ex_esample 11 3 ''a1'' 4]
      \<circ> es_InsertThreshold ex_threshold \<circ> es_InsertRule ex_rule \<circ> es_InsertPolicyVersion ex_version) NewEngineStore"

definition ex_run1 :: "(engine_error + RunResult) \<times> Engine \<times> EngineStore" where
  "ex_run1 = RunSync ex_from_string ex_uuid_String Live (ex_env 1 5) 1 ''a1'' None 50 (NewEngine 0) ex_estore"

definition ex_run2 :: "(engine_error + RunResult) \<times> Engine \<times> EngineStore" where
  "ex_run2 = RunSync ex_from_string ex_uuid_String Live (ex_env 2 6) 1 ''b2'' None 50 (fst (snd ex_run1)) (snd (snd ex_run1))"

definition ex_engine1 :: Engine where
  "ex_engine1 = fst (snd ex_run1)"

definition ex_estore1 :: EngineStore where
  "ex_estore1 = snd (snd ex_run1)"

lemma ex_run2_ok:
  "fst ex_run2 = Inr \<lparr>rr_EvaluationRunID = 200, rr_EvaluationVerdictID = 203, rr_FindingIDs = [201, 202], rr_Verdict = VerdictBlock\<rparr>"
  by code_simp

lemma ex_run2_eq:
  "engine_run ex_from_string ex_uuid_String Live (ex_env 2 6) 1 ''b2'' None 50 CallerEvalGate ex_engine1 ex_estore1
     = (Inr \<lparr>rr_EvaluationRunID = 200, rr_EvaluationVerdictID = 203, rr_FindingIDs = [201, 202], rr_Verdict = VerdictBlock\<rparr>,
        fst (snd ex_run2), snd (snd ex_run2))"
  using ex_run2_ok by (simp add: prod_eq_iff ex_run2_def RunSync_def ex_engine1_def ex_estore1_def)

lemma ex_fresh: "fresh_call Live (ex_env 2 6) 1 ''b2'' None 50 CallerEvalGate ex_engine1 ex_estore1"
  by code_simp

definition ex_resolver :: MapResolver where
  "ex_resolver = [(7, th_row ex_threshold)]"

definition ex_samples :: "ESample list" where
  "ex_samples = [ex_esample 12 2 ''b2'' 5, ex_esample 13 3 ''b2'' 20]"

lemma ex_inputs: "load_inputs Live ex_estore1 1 ''b2'' None 50 = Inr (ex_resolver, [ex_rule], ex_samples, Some ''a1'')"
  by code_simp

lemma ex_coherent: "coherent ex_from_string ex_resolver 50 ex_engine1 ex_estore1"
proof -
  have "dslCache ex_engine1 = [((50, ''threshold('7')''),
      Compile ex_from_string ''threshold('7')'' (Some (MapResolver_Lookup ex_resolver)))]"
    by code_simp
  moreover have "es_overrides ex_estore1 = []" by code_simp
  ultimately show ?thesis by (simp add: coherent_def cached_ok_def overrides_ok_def)
qed

section \<open>Properties of a run\<close>

text \<open>
  C4. The verdict of a fresh run is decided by the policy: block when a rule of severity
  block fires at some scope and is not muted there, warn when only rules of severity warn
  do, pass otherwise. A rule fires at a scope when its predicate, compiled against the
  thresholds of the policy version, holds of the samples of the scope; it is muted when the
  latest matching override mutes it. Each rule is present in one version.
\<close>
theorem run_verdict:
  assumes "engine_run fs us c env repo h scope pvid caller e s = (Inr r, e', s')"
    and "fresh_call c env repo h scope pvid caller e s"
    and "load_inputs Live s repo h scope pvid = Inr (resolver, rs, xs, parent)"
    and "coherent fs resolver pvid e s" and "distinct (map RuleID rs)"
  shows "rr_Verdict r =
    (let firing = (\<lambda>sev. \<exists>q \<in> set rs. SeverityDefault q = sev
       \<and> (\<exists>i \<in> s_ScopeID ` set xs. rule_fires fs resolver xs q i \<and> \<not> muting us s repo xs (RuleID q) i))
     in if firing SeverityBlock then VerdictBlock else if firing SeverityWarn then VerdictWarn else VerdictPass)"
proof -
  obtain new where v: "rr_Verdict r = rollup new"
    and rows: "run_rows us fs resolver s (coords env repo h parent pvid r) rs xs new"
    using engine_run_rows [OF assms(1-4)] by blast
  show ?thesis
    unfolding v rollup_def Let_def run_rows_severity [OF rows assms(5)] by (simp add: coords_def)
qed

theorem run_verdict_witness:
  "VerdictBlock =
    (let firing = (\<lambda>sev. \<exists>q \<in> set [ex_rule]. SeverityDefault q = sev
       \<and> (\<exists>i \<in> s_ScopeID ` set ex_samples. rule_fires ex_from_string ex_resolver ex_samples q i
            \<and> \<not> muting ex_uuid_String ex_estore1 1 ex_samples (RuleID q) i))
     in if firing SeverityBlock then VerdictBlock else if firing SeverityWarn then VerdictWarn else VerdictPass)"
  using run_verdict [OF ex_run2_eq ex_fresh ex_inputs ex_coherent] by simp

text \<open>
  C7. The findings a fresh run writes that are not resolved rows are exact: at every scope
  with samples and for every rule of the policy there is one with the rule's severity
  exactly when the rule fires there and is not muted, and each of them belongs to a firing
  rule, carries its version, its delta against the parent commit and as witnesses only
  samples of its scope. The rows are appended in increasing order of identifiers, and the
  result lists those identifiers.
\<close>
theorem run_findings_exact:
  assumes "engine_run fs us c env repo h scope pvid caller e s = (Inr r, e', s')"
    and "fresh_call c env repo h scope pvid caller e s"
    and "load_inputs Live s repo h scope pvid = Inr (resolver, rs, xs, parent)"
    and "coherent fs resolver pvid e s" and "distinct (map RuleID rs)"
  shows "\<exists>new. findings s' = findings s @ new \<and> rr_FindingIDs r = map FindingID new
    \<and> sorted_wrt (<) (rr_FindingIDs r)
    \<and> (\<forall>q \<in> set rs. \<forall>i \<in> s_ScopeID ` set xs.
         (\<exists>f \<in> set new. live f \<and> f_RuleID f = RuleID q \<and> f_ScopeID f = i \<and> f_Severity f = SeverityDefault q)
         \<longleftrightarrow> rule_fires fs resolver xs q i \<and> \<not> muting us s repo xs (RuleID q) i)
    \<and> (\<forall>f \<in> set new. live f \<longrightarrow>
         (\<exists>q \<in> set rs. firing_row us fs resolver s (coords env repo h parent pvid r) xs q f))"
proof -
  obtain new where new: "findings s' = findings s @ new" "rr_FindingIDs r = map FindingID new"
    "sorted_wrt (<) (map FindingID new)"
    and rows: "run_rows us fs resolver s (coords env repo h parent pvid r) rs xs new"
    using engine_run_rows [OF assms(1-4)] by blast
  have "rc_repo (coords env repo h parent pvid r) = repo" by (simp add: coords_def)
  note iff = run_rows_fire_iff [OF rows assms(5), unfolded this]
  have "\<forall>f \<in> set new. live f \<longrightarrow>
      (\<exists>q \<in> set rs. firing_row us fs resolver s (coords env repo h parent pvid r) xs q f)"
    using rows by (simp add: run_rows_def)
  with new iff show ?thesis by (intro exI [of _ new]) simp
qed

theorem run_findings_exact_witness:
  "\<exists>new. findings (snd (snd ex_run2)) = findings ex_estore1 @ new \<and> map FindingID new = [201, 202]
    \<and> (\<forall>q \<in> set [ex_rule]. \<forall>i \<in> s_ScopeID ` set ex_samples.
         (\<exists>f \<in> set new. live f \<and> f_RuleID f = RuleID q \<and> f_ScopeID f = i \<and> f_Severity f = SeverityDefault q)
         \<longleftrightarrow> rule_fires ex_from_string ex_resolver ex_samples q i
             \<and> \<not> muting ex_uuid_String ex_estore1 1 ex_samples (RuleID q) i)"
proof -
  have "distinct (map RuleID [ex_rule])" by simp
  from run_findings_exact [OF ex_run2_eq ex_fresh ex_inputs ex_coherent this] show ?thesis by auto
qed

text \<open>
  C27. A fresh run writes a resolved row exactly for each rule and scope whose latest
  finding at the parent commit, under the same policy version, is an unresolved block and
  for which the run has no live block; at a root commit it writes none.
\<close>
theorem run_resolved_exact:
  assumes "engine_run fs us c env repo h scope pvid caller e s = (Inr r, e', s')"
    and "fresh_call c env repo h scope pvid caller e s"
    and "load_inputs Live s repo h scope pvid = Inr (resolver, rs, xs, parent)"
    and "coherent fs resolver pvid e s"
  shows "\<exists>new. findings s' = findings s @ new
    \<and> {(f_RuleID f, f_ScopeID f, f_Severity f) | f. f \<in> set new \<and> \<not> live f}
      = {(f_RuleID p, f_ScopeID p, SeverityInfo) | p.
           prior_block s (coords env repo h parent pvid r) p \<and> \<not> still_firing new p}
    \<and> (parent = None \<longrightarrow> list_all live new)"
proof -
  let ?rc = "coords env repo h parent pvid r"
  obtain new where new: "findings s' = findings s @ new" and rows: "run_rows us fs resolver s ?rc rs xs new"
    using engine_run_rows [OF assms] by blast
  have res: "f_RuleID (resolved_finding ?rc p i) = f_RuleID p" "f_ScopeID (resolved_finding ?rc p i) = f_ScopeID p"
    "f_Severity (resolved_finding ?rc p i) = SeverityInfo" "\<not> live (resolved_finding ?rc p i)" for p i
    by (simp_all add: resolved_finding_def live_def)
  have "\<exists>p. (f_RuleID f, f_ScopeID f, f_Severity f) = (f_RuleID p, f_ScopeID p, SeverityInfo)
      \<and> prior_block s ?rc p \<and> \<not> still_firing new p" if "f \<in> set new" "\<not> live f" for f
  proof -
    from rows that obtain p i where "prior_block s ?rc p" "\<not> still_firing new p" "f = resolved_finding ?rc p i"
      unfolding run_rows_def by blast
    then show ?thesis using res by blast
  qed
  moreover have "\<exists>f. (f_RuleID p, f_ScopeID p, SeverityInfo) = (f_RuleID f, f_ScopeID f, f_Severity f)
      \<and> f \<in> set new \<and> \<not> live f" if "prior_block s ?rc p" "\<not> still_firing new p" for p
  proof -
    from rows that obtain i where "resolved_finding ?rc p i \<in> set new" unfolding run_rows_def by blast
    then show ?thesis using res by metis
  qed
  ultimately have "{(f_RuleID f, f_ScopeID f, f_Severity f) | f. f \<in> set new \<and> \<not> live f}
      = {(f_RuleID p, f_ScopeID p, SeverityInfo) | p. prior_block s ?rc p \<and> \<not> still_firing new p}"
    by (intro equalityI subsetI) (simp_all only: mem_Collect_eq, metis+)
  moreover have "list_all live new" if "parent = None"
  proof -
    have "\<not> prior_block s ?rc p" for p using that by (simp add: prior_block_def prior_of_def coords_def)
    with rows show ?thesis unfolding run_rows_def list_all_iff by blast
  qed
  ultimately show ?thesis using new by blast
qed

theorem run_resolved_exact_witness:
  "\<exists>new. findings (snd (snd ex_run2)) = findings ex_estore1 @ new
    \<and> {(f_RuleID f, f_ScopeID f, f_Severity f) | f. f \<in> set new \<and> \<not> live f}
      = {(f_RuleID p, f_ScopeID p, SeverityInfo) | p.
           prior_block ex_estore1 (coords (ex_env 2 6) 1 ''b2'' (Some ''a1'') 50
             \<lparr>rr_EvaluationRunID = 200, rr_EvaluationVerdictID = 203, rr_FindingIDs = [201, 202], rr_Verdict = VerdictBlock\<rparr>) p
           \<and> \<not> still_firing new p}"
  using run_resolved_exact [OF ex_run2_eq ex_fresh ex_inputs ex_coherent] by blast


section \<open>Deduplication\<close>

lemma lookupRecentRun_store:
  "t - t0 \<le> runDedupTTL e \<Longrightarrow>
     lookupRecentRun t k (storeRecentRun t0 k r e) = (Some r, storeRecentRun t0 k r e)"
  by (simp add: lookupRecentRun_def storeRecentRun_def)

text \<open>
  C31. Within the deduplication window of a run, the same call is answered by the same
  engine with the same result, whatever the store holds by then, and changes nothing.
\<close>
theorem run_dedup_in_process:
  assumes run: "engine_run fs us c env repo h scope pvid caller e s = (Inr r, e', s')"
    and fresh: "fst (lookupRecentRun (t_lookup env) (makeRunCacheKey repo h pvid scope caller) e) = None"
    and window: "t_lookup env' - t_store env \<le> runDedupTTL e"
  shows "engine_run fs us c' env' repo h scope pvid caller e' s2 = (Inr r, e', s2)"
proof -
  let ?k = "makeRunCacheKey repo h pvid scope caller"
  obtain e1 where look: "lookupRecentRun (t_lookup env) ?k e = (None, e1)"
    using fresh by (metis prod.collapse)
  have g: "run_guard repo h pvid caller = None"
    using run by (auto simp: engine_run_def split: option.splits)
  have live: "c = Live" using run look g by (cases c) (simp_all add: engine_run_def Let_def)
  with run look g obtain m where e': "e' = storeRecentRun (t_store env) ?k r (e1\<lparr>dslCache := m\<rparr>)"
    by (auto simp: engine_run_def Let_def split: sum.splits prod.splits)
  have "t_lookup env' - t_store env \<le> runDedupTTL (e1\<lparr>dslCache := m\<rparr>)"
    using window lookupRecentRun_None [OF look] by simp
  from lookupRecentRun_store [OF this] g show ?thesis
    by (simp add: engine_run_def Let_def e')
qed

theorem run_dedup_in_process_witness:
  "engine_run ex_from_string ex_uuid_String Cancelled (ex_env 9 7) 1 ''b2'' None 50 CallerEvalGate (fst (snd ex_run2)) NewEngineStore
     = (Inr \<lparr>rr_EvaluationRunID = 200, rr_EvaluationVerdictID = 203, rr_FindingIDs = [201, 202], rr_Verdict = VerdictBlock\<rparr>,
        fst (snd ex_run2), NewEngineStore)"
proof (rule run_dedup_in_process [OF ex_run2_eq])
  show "fst (lookupRecentRun (t_lookup (ex_env 2 6)) (makeRunCacheKey 1 ''b2'' 50 None CallerEvalGate) ex_engine1) = None"
    using ex_fresh by (simp add: fresh_call_def)
  show "t_lookup (ex_env 9 7) - t_store (ex_env 2 6) \<le> runDedupTTL ex_engine1" by code_simp
qed

definition countable_run :: "(EvaluationRun \<Rightarrow> bool) \<Rightarrow> EvaluationVerdict list \<Rightarrow> EvaluationRun \<Rightarrow> bool" where
  "countable_run ok vs r \<longleftrightarrow>
     ok r \<and> (case find (\<lambda>v. v_EvaluationRunID v = EvaluationRunID r) vs of None \<Rightarrow> False | Some v \<Rightarrow> \<not> v_Degraded v)"

lemma recent_scan_Some: "\<exists>b'. recent_scan ok vs (Some b) rs = Some b'"
  by (induction rs arbitrary: b) (auto split: option.splits)

lemma recent_scan_None: "recent_scan ok vs None rs = None \<longleftrightarrow> list_all (\<lambda>r. \<not> countable_run ok vs r) rs"
proof (induction rs)
  case (Cons r rs)
  then show ?case
    using recent_scan_Some [of ok vs _ rs] by (auto simp: countable_run_def split: option.splits)
qed simp

lemma recent_scan_append:
  "recent_scan ok vs b (rs @ rs') = recent_scan ok vs (recent_scan ok vs b rs) rs'"
  by (induction rs arbitrary: b) (auto split: option.splits prod.splits)


text \<open>The cut-off of the store lookup and the runs it considers.\<close>

definition cutoff :: "time option \<Rightarrow> time \<Rightarrow> time option" where
  "cutoff clock ttl = (case clock of None \<Rightarrow> None | Some now \<Rightarrow> if ttl > 0 then Some (now - ttl) else None)"

definition after :: "time option \<Rightarrow> EvaluationRun \<Rightarrow> bool" where
  "after co r \<longleftrightarrow> (case co of None \<Rightarrow> True | Some t \<Rightarrow> r_CreatedAt r > t)"

definition same_call :: "uuid \<Rightarrow> sha \<Rightarrow> uuid \<Rightarrow> Caller \<Rightarrow> uuid option \<Rightarrow> EvaluationRun \<Rightarrow> bool" where
  "same_call repo h pvid caller scope r \<longleftrightarrow>
     r_RepoID r = repo \<and> r_SHA r = h \<and> r_PolicyVersionID r = pvid \<and> r_Caller r = caller \<and> r_ScopeID r = scope"

lemma scopeIDsEqual_iff [simp]: "scopeIDsEqual a b \<longleftrightarrow> a = b"
  by (simp add: scopeIDsEqual_def split: option.splits)

lemma Lookup_eq:
  assumes "run_guard repo h pvid caller = None"
  shows "LookupRecentCanonicalRun Live repo h pvid caller scope ttl s =
    Inr (case recent_scan (\<lambda>r. same_call repo h pvid caller scope r \<and> after (cutoff (es_clock s) ttl) r)
           (verdicts s) None (runs s) of
           None \<Rightarrow> None
         | Some (r, v) \<Rightarrow> Some
             \<lparr>rr_EvaluationRunID = EvaluationRunID r, rr_EvaluationVerdictID = VerdictID v,
              rr_FindingIDs = go_sort (\<lambda>a b. uuidCompare a b < 0) (map FindingID (run_findings s r)),
              rr_Verdict = v_Verdict v\<rparr>)"
proof -
  have ok: "(\<lambda>r. r_RepoID r = repo \<and> r_SHA r = h \<and> r_PolicyVersionID r = pvid \<and> r_Caller r = caller
        \<and> scopeIDsEqual (r_ScopeID r) scope
        \<and> (case cutoff (es_clock s) ttl of None \<Rightarrow> True | Some t \<Rightarrow> r_CreatedAt r > t))
      = (\<lambda>r. same_call repo h pvid caller scope r \<and> after (cutoff (es_clock s) ttl) r)"
    by (rule ext) (auto simp: same_call_def after_def)
  show ?thesis
    using assms ok
    by (simp add: LookupRecentCanonicalRun_def run_guard_def cutoff_def run_findings_def Let_def
        split: option.splits if_splits)
qed

lemma find_append: "find P (xs @ ys) = (case find P xs of None \<Rightarrow> find P ys | Some x \<Rightarrow> Some x)"
  by (induction xs) auto

lemma audit_inv_verdict_run:
  assumes "audit_inv s" and "v \<in> set (verdicts s)"
  shows "v_EvaluationRunID v \<in> EvaluationRunID ` set (runs s)"
proof -
  have "list_all2 (\<lambda>r v. v_EvaluationRunID v = EvaluationRunID r \<and> verdict_ok (run_findings s r) v) (runs s) (verdicts s)"
    using assms(1) unfolding audit_inv_def by (elim conjE)
  from list_all2_set_right [OF this assms(2)] show ?thesis by auto
qed

text \<open>What the store lookup finds once a run has been appended that it would not have found before.\<close>

lemma Lookup_after_append:
  assumes inv: "audit_inv s" and g: "run_guard repo h pvid caller = None"
    and none: "no_recent Live repo h pvid caller scope ttl s"
    and app: "AppendEvaluation c run verdict new s = Inr s'"
    and run: "same_call repo h pvid caller scope run" and v: "\<not> v_Degraded verdict"
    and sorted: "sorted_wrt (<) (map FindingID new)"
    and later: "after (cutoff t ttl) run" "\<And>r. after (cutoff t ttl) r \<Longrightarrow> after (cutoff (es_clock s) ttl) r"
  shows "LookupRecentCanonicalRun Live repo h pvid caller scope ttl (SetClock t s') =
    Inr (Some \<lparr>rr_EvaluationRunID = EvaluationRunID run, rr_EvaluationVerdictID = VerdictID verdict,
               rr_FindingIDs = map FindingID new, rr_Verdict = v_Verdict verdict\<rparr>)"
proof -
  note a = AppendEvaluation_Inr [OF app]
  let ?ok = "\<lambda>co r. same_call repo h pvid caller scope r \<and> after co r"
  have old: "list_all (\<lambda>r. \<not> countable_run (?ok (cutoff (es_clock s) ttl)) (verdicts s) r) (runs s)"
  proof (rule recent_scan_None [THEN iffD1], rule ccontr)
    assume "recent_scan (?ok (cutoff (es_clock s) ttl)) (verdicts s) None (runs s) \<noteq> None"
    then show False
      using none by (auto simp: no_recent_def Lookup_eq [OF g] split: option.splits)
  qed
  have vnew: "find (\<lambda>w. v_EvaluationRunID w = EvaluationRunID r) (verdicts s @ [verdict])
      = find (\<lambda>w. v_EvaluationRunID w = EvaluationRunID r) (verdicts s)" if "r \<in> set (runs s)" for r
    using that a(2,4) by (auto simp: find_append split: option.splits)
  have "list_all (\<lambda>r. \<not> countable_run (?ok (cutoff t ttl)) (verdicts s @ [verdict]) r) (runs s)"
    using old later(2) vnew by (auto simp: countable_run_def list_all_iff split: option.splits)
  then have scan: "recent_scan (?ok (cutoff t ttl)) (verdicts s @ [verdict]) None (runs s) = None"
    by (simp add: recent_scan_None)
  have "find (\<lambda>w. v_EvaluationRunID w = EvaluationRunID run) (verdicts s) = None"
    unfolding find_None_iff using audit_inv_verdict_run [OF inv] a(2) by metis
  then have fv: "find (\<lambda>w. v_EvaluationRunID w = EvaluationRunID run) (verdicts s @ [verdict]) = Some verdict"
    using a(4) by (simp add: find_append)
  have "f_EvaluationRunID f \<noteq> EvaluationRunID run" if "f \<in> set (findings s)" for f
    using audit_inv_finding_run [OF inv that] a(2) by metis
  then have rows: "run_findings (SetClock t s') run = new"
    using a(7,8) by (simp add: run_findings_def SetClock_def filter_False)
  have "recent_scan (?ok (cutoff t ttl)) (verdicts s @ [verdict]) None (runs s @ [run]) = Some (run, verdict)"
    unfolding recent_scan_append scan using run later(1) fv v by simp
  moreover have "go_sort (\<lambda>a b. uuidCompare a b < 0) (map FindingID new) = map FindingID new"
    unfolding go_sort_uuid using sorted by (simp add: sorted_sort_id strict_sorted_imp_sorted)
  moreover have "es_clock (SetClock t s') = t" "verdicts (SetClock t s') = verdicts s @ [verdict]"
    "runs (SetClock t s') = runs s @ [run]"
    using a(8) by (simp_all add: SetClock_def)
  ultimately show ?thesis by (simp only: Lookup_eq [OF g] rows option.case prod.case)
qed


lemma runLocked_finish:
  assumes run: "runLocked fs us c env repo h scope pvid caller ttl s m = (Inr r, s', m')"
    and none: "no_recent c repo h pvid caller scope ttl s"
  obtains preds xs parent where "finish_run us c s env repo h scope pvid caller preds xs parent = Inr (r, s')"
proof -
  obtain resolver rs xs parent where inp: "load_inputs c s repo h scope pvid = Inr (resolver, rs, xs, parent)"
    using run none by (auto simp: runLocked_def no_recent_def split: sum.splits option.splits)
  then show ?thesis using runLocked_fresh [OF run none inp] that by blast
qed

text \<open>The clock a second replica reads: none at all, or a later one still inside the window of the run.\<close>

definition clock_ok :: "time option \<Rightarrow> time option \<Rightarrow> time \<Rightarrow> time \<Rightarrow> bool" where
  "clock_ok t0 t ttl created \<longleftrightarrow>
     (case t0 of None \<Rightarrow> t = None
      | Some now \<Rightarrow> (case t of None \<Rightarrow> False | Some now' \<Rightarrow> now \<le> now' \<and> now' - ttl < created))"

lemma clock_ok_after:
  assumes "clock_ok t0 t ttl (r_CreatedAt run)"
  shows "after (cutoff t ttl) run" "after (cutoff t ttl) r \<Longrightarrow> after (cutoff t0 ttl) r"
  using assms by (auto simp: clock_ok_def after_def cutoff_def split: option.splits if_splits)

text \<open>
  C32. A second replica that makes the same call inside the window of a run, with nothing
  in its own memory, is answered by the store with the identifiers and the verdict of that
  run, and writes nothing.
\<close>
theorem run_dedup_cross_replica:
  assumes run: "engine_run fs us c env repo h scope pvid caller e s = (Inr r, e', s')"
    and fresh: "fresh_call c env repo h scope pvid caller e s" and inv: "audit_inv s"
    and clock: "clock_ok (es_clock s) t (runDedupTTL e) (t_now env)"
    and memory: "fst (lookupRecentRun (t_lookup env') (makeRunCacheKey repo h pvid scope caller) e2) = None"
    and ttl: "runDedupTTL e2 = runDedupTTL e"
  shows "\<exists>e3. engine_run fs us Live env' repo h scope pvid caller e2 (SetClock t s') = (Inr r, e3, SetClock t s')"
proof -
  obtain m where rl: "runLocked fs us c env repo h scope pvid caller (runDedupTTL e) s (dslCache e) = (Inr r, s', m)"
    and c: "c = Live" and g: "run_guard repo h pvid caller = None"
    using engine_run_fresh [OF run fresh] by blast
  have none: "no_recent Live repo h pvid caller scope (runDedupTTL e) s"
    using fresh c by (simp add: fresh_call_def)
  obtain preds xs parent where fin: "finish_run us Live s env repo h scope pvid caller preds xs parent = Inr (r, s')"
    using runLocked_finish [OF rl [unfolded c] none] by blast
  from fin obtain rc firing resolved new n1 n2 n3 row verdict where
    "rc = \<lparr>rc_repo = repo, rc_sha = h, rc_parent = parent, rc_pvid = pvid, rc_runID = EvaluationRunID row, rc_now = t_now env\<rparr>"
    and "evaluate us Live s env rc preds xs n1 = Inr (firing, n2)"
    and "computeResolved Live s env rc firing n2 = Inr (resolved, n3)"
    and new: "new = go_sort (\<lambda>x y. uuidCompare (FindingID x) (FindingID y) < 0) (map snd firing @ resolved)"
    and app: "AppendEvaluation Live row verdict new s = Inr s'"
    and row: "r_RepoID row = repo" "r_SHA row = h" "r_PolicyVersionID row = pvid" "r_Caller row = caller"
      "r_ScopeID row = scope" "r_CreatedAt row = t_now env"
    and v: "v_Verdict verdict = computeVerdict new" "\<not> v_Degraded verdict"
    and r: "r = \<lparr>rr_EvaluationRunID = EvaluationRunID row, rr_EvaluationVerdictID = VerdictID verdict,
          rr_FindingIDs = map FindingID new, rr_Verdict = computeVerdict new\<rparr>"
    by (rule finish_run_Inr)
  have "sorted_wrt (<) (map FindingID new)"
    using AppendEvaluation_Inr(5) [OF app] unfolding new by (rule findings_sorted)
  moreover have "same_call repo h pvid caller scope row" by (simp add: same_call_def row)
  ultimately have look: "LookupRecentCanonicalRun Live repo h pvid caller scope (runDedupTTL e) (SetClock t s') = Inr (Some r)"
    using Lookup_after_append [OF inv g none app _ v(2)] clock_ok_after [OF clock [folded row(6)]] r v(1) by simp
  obtain e1 where e1: "lookupRecentRun (t_lookup env') (makeRunCacheKey repo h pvid scope caller) e2 = (None, e1)"
    using memory by (metis prod.collapse)
  then have "runDedupTTL e1 = runDedupTTL e" using lookupRecentRun_None ttl by metis
  with look have "runLocked fs us Live env' repo h scope pvid caller (runDedupTTL e1) (SetClock t s') (dslCache e1)
      = (Inr r, SetClock t s', dslCache e1)"
    by (simp add: runLocked_def)
  with e1 g show ?thesis by (simp add: engine_run_def Let_def)
qed

lemma ex_audit: "audit_inv ex_estore1"
  by code_simp

theorem run_dedup_cross_replica_witness:
  "\<exists>e3. engine_run ex_from_string ex_uuid_String Live (ex_env 9 8) 1 ''b2'' None 50 CallerEvalGate (NewEngine 0)
          (SetClock None (snd (snd ex_run2)))
      = (Inr \<lparr>rr_EvaluationRunID = 200, rr_EvaluationVerdictID = 203, rr_FindingIDs = [201, 202], rr_Verdict = VerdictBlock\<rparr>,
         e3, SetClock None (snd (snd ex_run2)))"
proof (rule run_dedup_cross_replica [OF ex_run2_eq ex_fresh ex_audit])
  show "clock_ok (es_clock ex_estore1) None (runDedupTTL ex_engine1) (t_now (ex_env 2 6))" by code_simp
  show "fst (lookupRecentRun (t_lookup (ex_env 9 8)) (makeRunCacheKey 1 ''b2'' 50 None CallerEvalGate) (NewEngine 0)) = None"
    by code_simp
  show "runDedupTTL (NewEngine 0) = runDedupTTL ex_engine1" by code_simp
qed


end
