(* ===== verification/Eval_Gate.thy ===== *)
theory Eval_Gate
  imports Rule_Engine_Run
begin

text \<open>
  The evaluation gate (package \<^verbatim>\<open>evaluator\<close>, with \<^verbatim>\<open>rule_engine/evaluator_adapter.go\<close>):
  resolving the active policy, re-verifying its signature, checking that the samples of the
  commit are complete, then delegating to the rule engine, or recording a degraded run. The
  gate's ports are fields of its record, over an arbitrary world \<open>'w\<close>, absent where the
  code has a nil interface; the production wiring connects them to the steward, the rule
  engine and the audit tables. The outcome of a database transaction and of the read of a
  commit's scan status are parameters.
\<close>

section \<open>Verdicts and reasons\<close>

type_synonym DegradedReason = string

abbreviation (input) DegradedReasonSamplesPending :: DegradedReason where
  "DegradedReasonSamplesPending \<equiv> ''samples_pending''"
abbreviation (input) DegradedReasonPolicySignatureInvalid :: DegradedReason where
  "DegradedReasonPolicySignatureInvalid \<equiv> ''policy_signature_invalid''"
abbreviation (input) DegradedReasonXRepoEdgesUnavailable :: DegradedReason where
  "DegradedReasonXRepoEdgesUnavailable \<equiv> ''xrepo_edges_unavailable''"

definition gate_Verdict_IsValid :: "Verdict \<Rightarrow> bool" where
  "gate_Verdict_IsValid v \<longleftrightarrow> v = VerdictPass \<or> v = VerdictWarn \<or> v = VerdictBlock"

definition IsValidForGate :: "DegradedReason \<Rightarrow> bool" where
  "IsValidForGate r \<longleftrightarrow>
     r = DegradedReasonSamplesPending \<or> r = DegradedReasonPolicySignatureInvalid
     \<or> r = DegradedReasonXRepoEdgesUnavailable"

section \<open>Results, rows and errors\<close>

record EvaluateResult =
  ev_EvaluationRunID :: uuid
  ev_EvaluationVerdictID :: uuid
  ev_FindingIDs :: "uuid list"
  ev_Verdict :: Verdict
  Degraded :: bool
  ev_DegradedReason :: DegradedReason

definition zeroResult :: EvaluateResult where
  "zeroResult =
     \<lparr>ev_EvaluationRunID = uuid_Nil, ev_EvaluationVerdictID = uuid_Nil, ev_FindingIDs = [], ev_Verdict = [],
      Degraded = False, ev_DegradedReason = []\<rparr>"

record EngineRunResult =
  er_EvaluationRunID :: uuid
  er_EvaluationVerdictID :: uuid
  er_FindingIDs :: "uuid list"
  er_Verdict :: Verdict

record DegradedRun =
  dr_EvaluationRunID :: uuid
  dr_RepoID :: uuid
  dr_SHA :: sha
  dr_PolicyVersionID :: uuid
  dr_ScopeID :: "uuid option"
  dr_CreatedAt :: time

record DegradedVerdict =
  dv_VerdictID :: uuid
  dv_EvaluationRunID :: uuid
  dv_Verdict :: Verdict
  dv_Degraded :: bool
  dv_DegradedReason :: DegradedReason
  dv_CreatedAt :: time

text \<open>Errors of the ports, which the gate only wraps.\<close>

datatype port_error =
    PortEngine engine_error | PortSteward steward_error | ErrStoreUnwired | PortVerdict | PortZeroUUID | PortEmptySHA
  | PortMismatch | PortReason | PortDatabase

datatype gate_error =
    ErrGateUnwired | ErrEngineUnwired | ErrActivationUnwired | ErrNoActivePolicy | ErrPolicyResolver
  | ErrPolicySignatureInvalid | ErrSamplesPending | ErrInvalidGateDegradedReason
  | GateZeroUUID | GateEmptySHA | GateReadiness port_error | GateEngine port_error | GateVerdict
  | GateMint | GateAppend port_error | GateActivation port_error

section \<open>The gate\<close>

record 'w Gate =
  g_keys :: "Manager option"
  g_engine :: "(ctx \<Rightarrow> uuid \<Rightarrow> sha \<Rightarrow> uuid option \<Rightarrow> uuid \<Rightarrow> 'w \<Rightarrow> (port_error + EngineRunResult) \<times> 'w) option"
  readiness :: "(ctx \<Rightarrow> uuid \<Rightarrow> sha \<Rightarrow> 'w \<Rightarrow> port_error + bool) option"
  policyReader :: "(ctx \<Rightarrow> uuid \<Rightarrow> 'w \<Rightarrow> port_error + PolicyVersion) option"
  sigVerify :: "(ctx \<Rightarrow> PolicyVersion \<Rightarrow> 'w \<Rightarrow> port_error option) option"
  degradedStore :: "(ctx \<Rightarrow> DegradedRun \<Rightarrow> DegradedVerdict \<Rightarrow> 'w \<Rightarrow> port_error option \<times> 'w) option"
  activation :: "(ctx \<Rightarrow> 'w \<Rightarrow> port_error + uuid option) option"

definition NewGate :: "Manager option \<Rightarrow> 'w Gate" where
  "NewGate mgr =
     \<lparr>g_keys = mgr, g_engine = None, readiness = None, policyReader = None, sigVerify = None, degradedStore = None,
      activation = None\<rparr>"

text \<open>Signature verification of a bundle.\<close>

definition VerifyPolicy ::
  "ed_verify \<Rightarrow> time \<Rightarrow> 'w Gate option \<Rightarrow> ctx \<Rightarrow> uuid \<Rightarrow> string \<Rightarrow> string \<Rightarrow> gate_error option" where
  "VerifyPolicy ed now g c keyID payload sig =
     (case Option.bind g g_keys of
        None \<Rightarrow> Some ErrGateUnwired
      | Some mgr \<Rightarrow>
          if keyID = uuid_Nil then Some ErrPolicySignatureInvalid
          else if payload = [] then Some ErrPolicySignatureInvalid
          else if sig = [] then Some ErrPolicySignatureInvalid
          else (case Verify ed mgr now c keyID payload sig of Some _ \<Rightarrow> Some ErrPolicySignatureInvalid | None \<Rightarrow> None))"

definition VerifyAnyPolicySignature ::
  "ed_verify \<Rightarrow> time \<Rightarrow> 'w Gate option \<Rightarrow> ctx \<Rightarrow> string \<Rightarrow> string \<Rightarrow> gate_error + uuid" where
  "VerifyAnyPolicySignature ed now g c payload sig =
     (case Option.bind g g_keys of
        None \<Rightarrow> Inl ErrGateUnwired
      | Some mgr \<Rightarrow>
          if payload = [] then Inl ErrPolicySignatureInvalid
          else if sig = [] then Inl ErrPolicySignatureInvalid
          else (case Manager_VerifyAny ed mgr now c payload sig of Inl _ \<Rightarrow> Inl ErrPolicySignatureInvalid | Inr k \<Rightarrow> Inr k))"

text \<open>
  One evaluation. The result and the error are returned together, as the code does on the
  degraded paths. The identifiers minted on the way are \<open>gen 0\<close> and \<open>gen 1\<close>.
\<close>

type_synonym 'w outcome = "(EvaluateResult \<times> gate_error option) \<times> 'w"

definition writeDegraded ::
  "(ctx \<Rightarrow> DegradedRun \<Rightarrow> DegradedVerdict \<Rightarrow> 'w \<Rightarrow> port_error option \<times> 'w) \<Rightarrow> (nat \<Rightarrow> uuid option) \<Rightarrow> time \<Rightarrow> ctx
   \<Rightarrow> uuid \<Rightarrow> sha \<Rightarrow> uuid option \<Rightarrow> uuid \<Rightarrow> DegradedReason \<Rightarrow> gate_error \<Rightarrow> 'w \<Rightarrow> 'w outcome" where
  "writeDegraded store gen now c repo h scope pvid reason retErr w =
     (if \<not> IsValidForGate reason then ((zeroResult, Some ErrInvalidGateDegradedReason), w)
      else
        (case gen 0 of
           None \<Rightarrow> ((zeroResult, Some GateMint), w)
         | Some runID \<Rightarrow>
             (case gen 1 of
                None \<Rightarrow> ((zeroResult, Some GateMint), w)
              | Some verdictID \<Rightarrow>
                  (let run = \<lparr>dr_EvaluationRunID = runID, dr_RepoID = repo, dr_SHA = h, dr_PolicyVersionID = pvid,
                              dr_ScopeID = scope, dr_CreatedAt = now\<rparr>;
                       verdict = \<lparr>dv_VerdictID = verdictID, dv_EvaluationRunID = runID, dv_Verdict = VerdictWarn,
                                  dv_Degraded = True, dv_DegradedReason = reason, dv_CreatedAt = now\<rparr>
                   in case store c run verdict w of
                        (Some e, w') \<Rightarrow> ((zeroResult, Some (GateAppend e)), w')
                      | (None, w') \<Rightarrow>
                          ((\<lparr>ev_EvaluationRunID = runID, ev_EvaluationVerdictID = verdictID, ev_FindingIDs = [],
                             ev_Verdict = VerdictWarn, Degraded = True, ev_DegradedReason = reason\<rparr>, Some retErr), w')))))"

definition Evaluate ::
  "(nat \<Rightarrow> uuid option) \<Rightarrow> time \<Rightarrow> 'w Gate option \<Rightarrow> ctx \<Rightarrow> uuid \<Rightarrow> sha \<Rightarrow> uuid option \<Rightarrow> uuid \<Rightarrow> 'w \<Rightarrow> 'w outcome" where
  "Evaluate gen now g c repo h scope pvid w =
     (case g of
        None \<Rightarrow> ((zeroResult, Some ErrGateUnwired), w)
      | Some gate \<Rightarrow>
          (case (g_engine gate, readiness gate, policyReader gate, sigVerify gate, degradedStore gate) of
             (Some eng, Some ready, Some reader, Some verify, Some store) \<Rightarrow>
               if repo = uuid_Nil then ((zeroResult, Some GateZeroUUID), w)
               else if h = [] then ((zeroResult, Some GateEmptySHA), w)
               else if pvid = uuid_Nil then ((zeroResult, Some GateZeroUUID), w)
               else
                 (case reader c pvid w of
                    Inl _ \<Rightarrow> ((zeroResult, Some ErrPolicyResolver), w)
                  | Inr pv \<Rightarrow>
                      if PolicyVersionID pv \<noteq> pvid then ((zeroResult, Some ErrPolicyResolver), w)
                      else
                        (case verify c pv w of
                           Some _ \<Rightarrow>
                             writeDegraded store gen now c repo h scope pvid DegradedReasonPolicySignatureInvalid
                               ErrPolicySignatureInvalid w
                         | None \<Rightarrow>
                             (case ready c repo h w of
                                Inl e \<Rightarrow> ((zeroResult, Some (GateReadiness e)), w)
                              | Inr False \<Rightarrow>
                                  writeDegraded store gen now c repo h scope pvid DegradedReasonSamplesPending
                                    ErrSamplesPending w
                              | Inr True \<Rightarrow>
                                  (case eng c repo h scope pvid w of
                                     (Inl e, w') \<Rightarrow> ((zeroResult, Some (GateEngine e)), w')
                                   | (Inr out, w') \<Rightarrow>
                                       if \<not> gate_Verdict_IsValid (er_Verdict out) then ((zeroResult, Some GateVerdict), w')
                                       else
                                         ((\<lparr>ev_EvaluationRunID = er_EvaluationRunID out,
                                            ev_EvaluationVerdictID = er_EvaluationVerdictID out,
                                            ev_FindingIDs = er_FindingIDs out, ev_Verdict = er_Verdict out,
                                            Degraded = False, ev_DegradedReason = []\<rparr>, None), w')))))
           | _ \<Rightarrow> ((zeroResult, Some ErrEngineUnwired), w)))"

definition Gate_Gate ::
  "(nat \<Rightarrow> uuid option) \<Rightarrow> time \<Rightarrow> 'w Gate option \<Rightarrow> ctx \<Rightarrow> uuid \<Rightarrow> sha \<Rightarrow> uuid option \<Rightarrow> 'w \<Rightarrow> 'w outcome" where
  "Gate_Gate gen now g c repo h scope w =
     (case g of
        None \<Rightarrow> ((zeroResult, Some ErrGateUnwired), w)
      | Some gate \<Rightarrow>
          (case activation gate of
             None \<Rightarrow> ((zeroResult, Some ErrActivationUnwired), w)
           | Some act \<Rightarrow>
               (case act c w of
                  Inl e \<Rightarrow> ((zeroResult, Some (GateActivation e)), w)
                | Inr None \<Rightarrow> ((zeroResult, Some ErrNoActivePolicy), w)
                | Inr (Some pvid) \<Rightarrow>
                    if pvid = uuid_Nil then ((zeroResult, Some (GateActivation PortZeroUUID)), w)
                    else Evaluate gen now g c repo h scope pvid w)))"

section \<open>Production wiring\<close>

record World =
  w_steward :: InMemoryStore
  w_rule_engine :: Engine
  w_audit :: EngineStore

text \<open>
  How a transaction of the audit database ends: committed, rolled back, or committed with
  an error reported for the commit.
\<close>

datatype tx_outcome = TxOk | TxFailed | TxLost

type_synonym audit_db = "EngineStore \<Rightarrow> uuid \<Rightarrow> uuid \<Rightarrow> tx_outcome"

definition degraded_rows :: "DegradedRun \<Rightarrow> DegradedVerdict \<Rightarrow> EngineStore \<Rightarrow> EngineStore" where
  "degraded_rows run v s =
     s\<lparr>runs := runs s @ [\<lparr>EvaluationRunID = dr_EvaluationRunID run, r_RepoID = dr_RepoID run, r_SHA = dr_SHA run,
                          r_PolicyVersionID = dr_PolicyVersionID run, r_Caller = CallerEvalGate,
                          r_ScopeID = dr_ScopeID run, r_CreatedAt = dr_CreatedAt run\<rparr>],
       verdicts := verdicts s @ [\<lparr>VerdictID = dv_VerdictID v, v_EvaluationRunID = dv_EvaluationRunID v,
                                  v_Verdict = dv_Verdict v, v_Degraded = dv_Degraded v,
                                  v_DegradedReason = dv_DegradedReason v, v_CreatedAt = dv_CreatedAt v\<rparr>]\<rparr>"

definition AppendDegradedRun ::
  "audit_db \<Rightarrow> DegradedRun \<Rightarrow> DegradedVerdict \<Rightarrow> EngineStore \<Rightarrow> port_error option \<times> EngineStore" where
  "AppendDegradedRun db run v s =
     (if dr_EvaluationRunID run = uuid_Nil then (Some PortZeroUUID, s)
      else if dr_RepoID run = uuid_Nil then (Some PortZeroUUID, s)
      else if dr_SHA run = [] then (Some PortEmptySHA, s)
      else if dr_PolicyVersionID run = uuid_Nil then (Some PortZeroUUID, s)
      else if dv_VerdictID v = uuid_Nil then (Some PortZeroUUID, s)
      else if dv_EvaluationRunID v \<noteq> dr_EvaluationRunID run then (Some PortMismatch, s)
      else if dv_Verdict v = [] then (Some PortVerdict, s)
      else if \<not> gate_Verdict_IsValid (dv_Verdict v) then (Some PortVerdict, s)
      else if dv_Degraded v \<and> dv_Verdict v \<noteq> VerdictWarn then (Some PortVerdict, s)
      else if dv_DegradedReason v = [] then (Some PortReason, s)
      else if \<not> IsValidForGate (dv_DegradedReason v) then (Some PortReason, s)
      else
        (case db s (dr_EvaluationRunID run) (dv_VerdictID v) of
           TxOk \<Rightarrow> (None, degraded_rows run v s)
         | TxFailed \<Rightarrow> (Some PortDatabase, s)
         | TxLost \<Rightarrow> (Some PortDatabase, degraded_rows run v s)))"

text \<open>The read of \<^verbatim>\<open>commit.scan_status\<close>: a failed query, no row, or the status.\<close>

definition SamplesReady :: "(uuid \<Rightarrow> sha \<Rightarrow> unit + string option) \<Rightarrow> uuid \<Rightarrow> sha \<Rightarrow> port_error + bool" where
  "SamplesReady scan repo h =
     (if repo = uuid_Nil then Inl PortZeroUUID
      else if h = [] then Inl PortEmptySHA
      else
        (case scan repo h of
           Inl _ \<Rightarrow> Inl PortDatabase
         | Inr None \<Rightarrow> Inr False
         | Inr (Some status) \<Rightarrow> Inr (status = ''scanned'')))"

definition stewardPolicyAdapter :: "ctx \<Rightarrow> uuid \<Rightarrow> World \<Rightarrow> port_error + PolicyVersion" where
  "stewardPolicyAdapter c i w =
     (case GetPolicyVersion c i (w_steward w) of Inl e \<Rightarrow> Inl (PortSteward e) | Inr pv \<Rightarrow> Inr pv)"

definition stewardSignatureAdapter :: "(uuid \<Rightarrow> string) \<Rightarrow> Signer \<Rightarrow> ctx \<Rightarrow> PolicyVersion \<Rightarrow> port_error option" where
  "stewardSignatureAdapter us sg c pv = map_option PortSteward (VerifyPolicyVersionSignature us sg c pv)"

definition stewardActivationAdapter :: "ctx \<Rightarrow> World \<Rightarrow> port_error + uuid option" where
  "stewardActivationAdapter c w =
     (case ActivePolicyVersion c (w_steward w) of
        Inl e \<Rightarrow> Inl (PortSteward e)
      | Inr None \<Rightarrow> Inr None
      | Inr (Some pv) \<Rightarrow>
          if PolicyVersionID pv = uuid_Nil then Inl PortZeroUUID else Inr (Some (PolicyVersionID pv)))"

definition EvaluatorAdapter_RunSync ::
  "(string \<Rightarrow> uuid option) \<Rightarrow> (uuid \<Rightarrow> string) \<Rightarrow> run_env \<Rightarrow> ctx \<Rightarrow> uuid \<Rightarrow> sha \<Rightarrow> uuid option \<Rightarrow> uuid \<Rightarrow> World
   \<Rightarrow> (port_error + EngineRunResult) \<times> World" where
  "EvaluatorAdapter_RunSync fs us env c repo h scope pvid w =
     (case RunSync fs us c env repo h scope pvid (w_rule_engine w) (w_audit w) of
        (r, e', s') \<Rightarrow>
          (case r of
             Inl e \<Rightarrow> Inl (PortEngine e)
           | Inr x \<Rightarrow>
               if \<not> gate_Verdict_IsValid (rr_Verdict x) then Inl PortVerdict
               else Inr \<lparr>er_EvaluationRunID = rr_EvaluationRunID x, er_EvaluationVerdictID = rr_EvaluationVerdictID x,
                         er_FindingIDs = rr_FindingIDs x, er_Verdict = rr_Verdict x\<rparr>,
           w\<lparr>w_rule_engine := e', w_audit := s'\<rparr>))"

record gate_env =
  ge_signer :: Signer
  ge_db :: audit_db
  ge_scan :: "uuid \<Rightarrow> sha \<Rightarrow> unit + string option"
  ge_run :: run_env

definition NewProductionGate ::
  "(string \<Rightarrow> uuid option) \<Rightarrow> (uuid \<Rightarrow> string) \<Rightarrow> gate_env \<Rightarrow> Manager option \<Rightarrow> World Gate" where
  "NewProductionGate fs us ge mgr =
     \<lparr>g_keys = mgr,
      g_engine = Some (EvaluatorAdapter_RunSync fs us (ge_run ge)),
      readiness = Some (\<lambda>c repo h w. SamplesReady (ge_scan ge) repo h),
      policyReader = Some stewardPolicyAdapter,
      sigVerify = Some (\<lambda>c pv w. stewardSignatureAdapter us (ge_signer ge) c pv),
      degradedStore = Some (\<lambda>c run v w. case AppendDegradedRun (ge_db ge) run v (w_audit w) of (e, s') \<Rightarrow> (e, w\<lparr>w_audit := s'\<rparr>)),
      activation = Some stewardActivationAdapter\<rparr>"

section \<open>What an evaluation may return\<close>

text \<open>The degraded errors with their reasons.\<close>

definition degraded_pairs :: "(gate_error option \<times> DegradedReason) set" where
  "degraded_pairs =
     {(Some ErrPolicySignatureInvalid, DegradedReasonPolicySignatureInvalid),
      (Some ErrSamplesPending, DegradedReasonSamplesPending)}"

definition outcome_ok :: "EvaluateResult \<Rightarrow> gate_error option \<Rightarrow> bool" where
  "outcome_ok res err \<longleftrightarrow>
     (err = None \<and> Degraded res = False \<and> ev_DegradedReason res = [] \<and> gate_Verdict_IsValid (ev_Verdict res))
     \<or> (Degraded res \<and> ev_Verdict res = VerdictWarn \<and> ev_FindingIDs res = [] \<and> (err, ev_DegradedReason res) \<in> degraded_pairs)
     \<or> (res = zeroResult \<and> (\<exists>e. err = Some e))"

lemma writeDegraded_outcome:
  assumes "(Some retErr, reason) \<in> degraded_pairs"
    and "writeDegraded store gen now c repo h scope pvid reason retErr w = ((res, err), w')"
  shows "outcome_ok res err"
  using assms
  by (auto simp: writeDegraded_def outcome_ok_def Let_def split: if_splits option.splits prod.splits)

lemma Evaluate_outcome:
  assumes "Evaluate gen now g c repo h scope pvid w = ((res, err), w')"
  shows "outcome_ok res err"
proof -
  have deg: "outcome_ok res err"
    if "writeDegraded store gen now c repo h scope pvid reason retErr w = ((res, err), w')"
      and "(Some retErr, reason) \<in> degraded_pairs" for store reason retErr
    using writeDegraded_outcome [OF that(2,1)] .
  have zero: "outcome_ok zeroResult (Some e)" for e by (simp add: outcome_ok_def)
  show ?thesis
    using assms zero
    by (auto simp: Evaluate_def split: option.splits if_splits sum.splits bool.splits prod.splits
        intro: deg simp: degraded_pairs_def)
      (auto simp: outcome_ok_def)
qed

lemma Gate_outcome:
  assumes "Gate_Gate gen now g c repo h scope w = ((res, err), w')"
  shows "outcome_ok res err"
  using assms Evaluate_outcome [of gen now g c repo h scope _ w res err w']
  by (auto simp: Gate_Gate_def outcome_ok_def split: option.splits sum.splits if_splits)

section \<open>The production gate\<close>

abbreviation prod_eval ::
  "(string \<Rightarrow> uuid option) \<Rightarrow> (uuid \<Rightarrow> string) \<Rightarrow> gate_env \<Rightarrow> Manager option \<Rightarrow> (nat \<Rightarrow> uuid option) \<Rightarrow> time \<Rightarrow> ctx
   \<Rightarrow> uuid \<Rightarrow> sha \<Rightarrow> uuid option \<Rightarrow> uuid \<Rightarrow> World \<Rightarrow> World outcome" where
  "prod_eval fs us ge mgr gen now c repo h scope pvid w \<equiv>
     Evaluate gen now (Some (NewProductionGate fs us ge mgr)) c repo h scope pvid w"

text \<open>The five ways an evaluation by the production gate ends.\<close>

lemma prod_eval_cases:
  assumes "prod_eval fs us ge mgr gen now c repo h scope pvid w = ((res, err), w')"
  obtains (Refused) e where "err = Some e" "res = zeroResult" "w' = w"
  | (Degraded) pv reason retErr where "repo \<noteq> uuid_Nil" "h \<noteq> []" "pvid \<noteq> uuid_Nil"
      "GetPolicyVersion c pvid (w_steward w) = Inr pv" "(Some retErr, reason) \<in> degraded_pairs"
      "writeDegraded (\<lambda>c run v w. case AppendDegradedRun (ge_db ge) run v (w_audit w) of (e, s') \<Rightarrow> (e, w\<lparr>w_audit := s'\<rparr>))
         gen now c repo h scope pvid reason retErr w = ((res, err), w')"
      "retErr = ErrSamplesPending \<Longrightarrow> VerifyPolicyVersionSignature us (ge_signer ge) c pv = None
         \<and> (\<exists>st. ge_scan ge repo h = Inr st \<and> st \<noteq> Some ''scanned'')"
      "retErr = ErrPolicySignatureInvalid \<Longrightarrow> VerifyPolicyVersionSignature us (ge_signer ge) c pv \<noteq> None"
  | (Engine) pv r e' s' where "repo \<noteq> uuid_Nil" "h \<noteq> []" "pvid \<noteq> uuid_Nil"
      "GetPolicyVersion c pvid (w_steward w) = Inr pv" "PolicyVersionID pv = pvid"
      "VerifyPolicyVersionSignature us (ge_signer ge) c pv = None" "ge_scan ge repo h = Inr (Some ''scanned'')"
      "RunSync fs us c (ge_run ge) repo h scope pvid (w_rule_engine w) (w_audit w) = (r, e', s')"
      "w' = w\<lparr>w_rule_engine := e', w_audit := s'\<rparr>"
      "(\<exists>e. r = Inl e \<and> err = Some (GateEngine (PortEngine e)) \<and> res = zeroResult)
       \<or> (\<exists>x. r = Inr x \<and> \<not> gate_Verdict_IsValid (rr_Verdict x) \<and> err = Some (GateEngine PortVerdict) \<and> res = zeroResult)
       \<or> (\<exists>x. r = Inr x \<and> gate_Verdict_IsValid (rr_Verdict x) \<and> err = None
            \<and> res = \<lparr>ev_EvaluationRunID = rr_EvaluationRunID x, ev_EvaluationVerdictID = rr_EvaluationVerdictID x,
                     ev_FindingIDs = rr_FindingIDs x, ev_Verdict = rr_Verdict x, Degraded = False, ev_DegradedReason = []\<rparr>)"
proof -
  let ?store = "\<lambda>c run v w. case AppendDegradedRun (ge_db ge) run v (w_audit w) of (e, s') \<Rightarrow> (e, w\<lparr>w_audit := s'\<rparr>)"
  show thesis
  proof (cases "repo = uuid_Nil \<or> h = [] \<or> pvid = uuid_Nil")
    case True
    then have "res = zeroResult \<and> w' = w \<and> (\<exists>e. err = Some e)"
      using assms by (auto simp: Evaluate_def NewProductionGate_def split: if_splits)
    then show thesis using Refused by blast
  next
    case False
    then have args: "repo \<noteq> uuid_Nil" "h \<noteq> []" "pvid \<noteq> uuid_Nil" by simp_all
    show thesis
    proof (cases "GetPolicyVersion c pvid (w_steward w)")
      case (Inl e)
      then show thesis
        using assms args Refused [of ErrPolicyResolver] by (simp add: Evaluate_def NewProductionGate_def stewardPolicyAdapter_def)
    next
      case pv: (Inr pv)
      show thesis
      proof (cases "PolicyVersionID pv = pvid")
        case False
        with pv show thesis
          using assms args Refused [of ErrPolicyResolver] by (simp add: Evaluate_def NewProductionGate_def stewardPolicyAdapter_def)
      next
        case pid: True
        note base = args pv pid Evaluate_def NewProductionGate_def stewardPolicyAdapter_def stewardSignatureAdapter_def
        show thesis
        proof (cases "VerifyPolicyVersionSignature us (ge_signer ge) c pv")
          case (Some e)
          then have "writeDegraded ?store gen now c repo h scope pvid DegradedReasonPolicySignatureInvalid
              ErrPolicySignatureInvalid w = ((res, err), w')"
            using assms by (simp add: base)
          then show thesis
            using Degraded [of pv ErrPolicySignatureInvalid DegradedReasonPolicySignatureInvalid] args pv Some
            by (simp add: degraded_pairs_def)
        next
          case sig: None
          show thesis
          proof (cases "SamplesReady (ge_scan ge) repo h")
            case (Inl e)
            with sig show thesis using assms Refused [of "GateReadiness e"] by (simp add: base)
          next
            case (Inr b)
            show thesis
            proof (cases b)
              case False
              with Inr sig have "writeDegraded ?store gen now c repo h scope pvid DegradedReasonSamplesPending
                  ErrSamplesPending w = ((res, err), w')"
                using assms by (simp add: base)
              moreover have "\<exists>st. ge_scan ge repo h = Inr st \<and> st \<noteq> Some ''scanned''"
                using Inr False args by (auto simp: SamplesReady_def split: sum.splits option.splits)
              ultimately show thesis
                using Degraded [of pv ErrSamplesPending DegradedReasonSamplesPending] args pv sig
                by (simp add: degraded_pairs_def)
            next
              case True
              obtain r e' s' where rs: "RunSync fs us c (ge_run ge) repo h scope pvid (w_rule_engine w) (w_audit w) = (r, e', s')"
                by (metis prod_cases3)
              have scanned: "ge_scan ge repo h = Inr (Some ''scanned'')"
                using Inr True args by (auto simp: SamplesReady_def split: sum.splits option.splits)
              have "(case EvaluatorAdapter_RunSync fs us (ge_run ge) c repo h scope pvid w of
                    (Inl e, w') \<Rightarrow> ((zeroResult, Some (GateEngine e)), w')
                  | (Inr out, w') \<Rightarrow>
                      if \<not> gate_Verdict_IsValid (er_Verdict out) then ((zeroResult, Some GateVerdict), w')
                      else ((\<lparr>ev_EvaluationRunID = er_EvaluationRunID out, ev_EvaluationVerdictID = er_EvaluationVerdictID out,
                              ev_FindingIDs = er_FindingIDs out, ev_Verdict = er_Verdict out, Degraded = False,
                              ev_DegradedReason = []\<rparr>, None), w')) = ((res, err), w')"
                using assms Inr True sig by (simp add: base)
              then show thesis
                using Engine [OF _ _ _ pv pid sig scanned rs] args
                by (auto simp: EvaluatorAdapter_RunSync_def rs split: sum.splits if_splits)
            qed
          qed
        qed
      qed
    qed
  qed
qed


section \<open>Audit rows\<close>

text \<open>The primary keys of the two audit tables: a transaction that would repeat one does not commit.\<close>

definition db_keys :: "audit_db \<Rightarrow> bool" where
  "db_keys db \<longleftrightarrow>
     (\<forall>s i j. db s i j \<noteq> TxFailed \<longrightarrow>
        i \<notin> EvaluationRunID ` set (runs s) \<and> j \<notin> VerdictID ` set (verdicts s))"

lemma AppendDegradedRun_cases:
  assumes "AppendDegradedRun db run v s = (e, s')"
  obtains (Kept) "s' = s" "e \<noteq> None"
  | (Written) "s' = degraded_rows run v s" "db s (dr_EvaluationRunID run) (dv_VerdictID v) \<noteq> TxFailed"
      "dv_EvaluationRunID v = dr_EvaluationRunID run" "e \<noteq> None \<Longrightarrow> db s (dr_EvaluationRunID run) (dv_VerdictID v) = TxLost"
  using assms by (auto simp: AppendDegradedRun_def split: if_splits tx_outcome.splits)

lemma degraded_rows_audit:
  assumes "audit_inv s" and "db_keys db" and "db s (dr_EvaluationRunID run) (dv_VerdictID v) \<noteq> TxFailed"
    and "dv_EvaluationRunID v = dr_EvaluationRunID run" and "dv_Verdict v = VerdictWarn" and "dv_Degraded v"
  shows "audit_inv (degraded_rows run v s)"
proof (rule audit_inv_rows [OF assms(1), where fs = "[]"])
  show "degraded_rows run v s = s\<lparr>runs := runs s @ [\<lparr>EvaluationRunID = dr_EvaluationRunID run, r_RepoID = dr_RepoID run,
      r_SHA = dr_SHA run, r_PolicyVersionID = dr_PolicyVersionID run, r_Caller = CallerEvalGate,
      r_ScopeID = dr_ScopeID run, r_CreatedAt = dr_CreatedAt run\<rparr>],
      verdicts := verdicts s @ [\<lparr>VerdictID = dv_VerdictID v, v_EvaluationRunID = dv_EvaluationRunID v,
        v_Verdict = dv_Verdict v, v_Degraded = dv_Degraded v, v_DegradedReason = dv_DegradedReason v,
        v_CreatedAt = dv_CreatedAt v\<rparr>], findings := findings s @ []\<rparr>"
    by (simp add: degraded_rows_def)
qed (use assms in \<open>auto simp: db_keys_def verdict_ok_def\<close>)

text \<open>The degraded write of the production gate.\<close>

definition degraded_run_row ::
  "uuid \<Rightarrow> uuid \<Rightarrow> sha \<Rightarrow> uuid option \<Rightarrow> uuid \<Rightarrow> time \<Rightarrow> DegradedRun" where
  "degraded_run_row i repo h scope pvid now =
     \<lparr>dr_EvaluationRunID = i, dr_RepoID = repo, dr_SHA = h, dr_PolicyVersionID = pvid, dr_ScopeID = scope, dr_CreatedAt = now\<rparr>"

definition degraded_verdict_row :: "uuid \<Rightarrow> uuid \<Rightarrow> DegradedReason \<Rightarrow> time \<Rightarrow> DegradedVerdict" where
  "degraded_verdict_row i j reason now =
     \<lparr>dv_VerdictID = j, dv_EvaluationRunID = i, dv_Verdict = VerdictWarn, dv_Degraded = True, dv_DegradedReason = reason,
      dv_CreatedAt = now\<rparr>"

lemma writeDegraded_cases:
  assumes "writeDegraded (\<lambda>c run v w. case AppendDegradedRun db run v (w_audit w) of (e, s') \<Rightarrow> (e, w\<lparr>w_audit := s'\<rparr>))
      gen now c repo h scope pvid reason retErr w = ((res, err), w')"
    and "(Some retErr, reason) \<in> degraded_pairs"
  obtains (Kept) "w' = w" "res = zeroResult" "err \<noteq> None"
  | (Written) i j where "gen 0 = Some i" "gen 1 = Some j"
      "AppendDegradedRun db (degraded_run_row i repo h scope pvid now) (degraded_verdict_row i j reason now) (w_audit w)
         = (None, degraded_rows (degraded_run_row i repo h scope pvid now) (degraded_verdict_row i j reason now) (w_audit w))"
      "w' = w\<lparr>w_audit := degraded_rows (degraded_run_row i repo h scope pvid now) (degraded_verdict_row i j reason now) (w_audit w)\<rparr>"
      "err = Some retErr"
      "res = \<lparr>ev_EvaluationRunID = i, ev_EvaluationVerdictID = j, ev_FindingIDs = [], ev_Verdict = VerdictWarn,
              Degraded = True, ev_DegradedReason = reason\<rparr>"
  | (Lost) i j where "db (w_audit w) i j = TxLost" "res = zeroResult" "err \<noteq> None"
      "w' = w\<lparr>w_audit := degraded_rows (degraded_run_row i repo h scope pvid now) (degraded_verdict_row i j reason now) (w_audit w)\<rparr>"
proof (cases "gen 0 = None \<or> gen 1 = None")
  case True
  then have "w' = w \<and> res = zeroResult \<and> err \<noteq> None"
    using assms by (auto simp: writeDegraded_def split: if_splits option.splits)
  then show thesis using Kept by blast
next
  case False
  then obtain i j where g: "gen 0 = Some i" "gen 1 = Some j" by auto
  let ?run = "degraded_run_row i repo h scope pvid now" and ?v = "degraded_verdict_row i j reason now"
  obtain e s' where app: "AppendDegradedRun db ?run ?v (w_audit w) = (e, s')" by fastforce
  have "IsValidForGate reason" using assms(2) by (auto simp: degraded_pairs_def IsValidForGate_def)
  then have out: "(case e of
       Some x \<Rightarrow> ((zeroResult, Some (GateAppend x)), w\<lparr>w_audit := s'\<rparr>)
     | None \<Rightarrow> ((\<lparr>ev_EvaluationRunID = i, ev_EvaluationVerdictID = j, ev_FindingIDs = [], ev_Verdict = VerdictWarn,
                  Degraded = True, ev_DegradedReason = reason\<rparr>, Some retErr), w\<lparr>w_audit := s'\<rparr>)) = ((res, err), w')"
    using assms(1) g app
    by (simp add: writeDegraded_def degraded_run_row_def degraded_verdict_row_def split: option.splits)
  from app show thesis
  proof (cases rule: AppendDegradedRun_cases)
    case k: Kept
    then show thesis using out Kept by (auto split: option.splits)
  next
    case wr: Written
    show thesis
    proof (cases e)
      case None
      then show thesis using Written [OF g] out app wr(1) by simp
    next
      case (Some x)
      with wr have "db (w_audit w) i j = TxLost" by (simp add: degraded_run_row_def degraded_verdict_row_def)
      then show thesis using Lost [of i j] out wr(1) Some by auto
    qed
  qed
qed

lemma writeDegraded_audit:
  assumes "writeDegraded (\<lambda>c run v w. case AppendDegradedRun db run v (w_audit w) of (e, s') \<Rightarrow> (e, w\<lparr>w_audit := s'\<rparr>))
      gen now c repo h scope pvid reason retErr w = ((res, err), w')"
    and "(Some retErr, reason) \<in> degraded_pairs" and "audit_inv (w_audit w)" and "db_keys db"
  shows "audit_inv (w_audit w')"
proof -
  have rows: "audit_inv (degraded_rows (degraded_run_row i repo h scope pvid now) (degraded_verdict_row i j reason now) (w_audit w))"
    if "db (w_audit w) i j \<noteq> TxFailed" for i j
    using that assms(3,4) by (intro degraded_rows_audit) (simp_all add: degraded_run_row_def degraded_verdict_row_def)
  from assms(1,2) show ?thesis
  proof (cases rule: writeDegraded_cases)
    case Kept
    then show ?thesis using assms(3) by simp
  next
    case (Written i j)
    from Written(3) have "db (w_audit w) i j \<noteq> TxFailed"
    proof (cases rule: AppendDegradedRun_cases)
      case Written
      then show ?thesis by (simp add: degraded_run_row_def degraded_verdict_row_def)
    qed simp
    then show ?thesis using rows Written(4) by simp
  next
    case (Lost i j)
    then show ?thesis using rows by simp
  qed
qed


text \<open>An engine run keeps the audit rows consistent, and an error writes none.\<close>

lemma finish_run_audit:
  assumes fin: "finish_run us c s env repo h scope pvid caller preds xs parent = Inr (r, s')" and inv: "audit_inv s"
  shows "audit_inv s' \<and> Verdict_IsValid (rr_Verdict r)"
proof -
  from fin obtain rc firing resolved new n1 n2 n3 run verdict where
    rc: "rc = \<lparr>rc_repo = repo, rc_sha = h, rc_parent = parent, rc_pvid = pvid, rc_runID = EvaluationRunID run, rc_now = t_now env\<rparr>"
    and ev: "evaluate us c s env rc preds xs n1 = Inr (firing, n2)"
    and res: "computeResolved c s env rc firing n2 = Inr (resolved, n3)"
    and new: "new = go_sort (\<lambda>x y. uuidCompare (FindingID x) (FindingID y) < 0) (map snd firing @ resolved)"
    and app: "AppendEvaluation c run verdict new s = Inr s'"
    and run: "r_RepoID run = repo" "r_SHA run = h" "r_PolicyVersionID run = pvid" "r_Caller run = caller"
      "r_ScopeID run = scope" "r_CreatedAt run = t_now env"
    and v: "v_Verdict verdict = computeVerdict new" "\<not> v_Degraded verdict"
    and r: "r = \<lparr>rr_EvaluationRunID = EvaluationRunID run, rr_EvaluationVerdictID = VerdictID verdict,
          rr_FindingIDs = map FindingID new, rr_Verdict = computeVerdict new\<rparr>"
    by (rule finish_run_Inr)
  have "finding_of run f" if "f \<in> set new" for f
  proof -
    from that consider "f \<in> set resolved" | k where "map_of firing k = Some f"
      using gomap_set_map_of [OF evaluate_spec(1) [OF ev]] by (fastforce simp: new)
    then show ?thesis
    proof cases
      case 1
      then obtain p i where "f = resolved_finding rc p i" using computeResolved_set(1) [OF res] by blast
      then show ?thesis by (simp add: finding_of_def resolved_finding_def rc run Delta_IsValid_def)
    next
      case 2
      then obtain b i f0 where "made us c s rc xs b i f0" and f: "f = stamped s rc f0"
        using evaluate_spec(2) [OF ev] by blast
      then obtain ws fid where "f0 = new_finding rc (b_rule b) i ws fid" by (auto simp: made_def)
      with f computeDelta_valid(1) show ?thesis by (simp add: finding_of_def new_finding_def rc run)
    qed
  qed
  moreover have "verdict_ok new verdict" using v by (simp add: verdict_ok_def)
  ultimately have "audit_inv s'" using audit_inv_append [OF inv app] by blast
  then show ?thesis by (simp add: r computeVerdict_eq rollup_valid)
qed

lemma engine_run_audit:
  assumes "engine_run fs us c env repo h scope pvid caller e s = (r, e', s')" and "audit_inv s"
  shows "audit_inv s'" and "isl r \<Longrightarrow> s' = s" and "r = Inr x \<Longrightarrow> s' = s \<or> Verdict_IsValid (rr_Verdict x)"
proof -
  have "s' = s \<or> (\<exists>x preds xs parent. r = Inr x \<and> finish_run us c s env repo h scope pvid caller preds xs parent = Inr (x, s'))"
    using assms(1)
    by (auto simp: engine_run_def runLocked_def Let_def split: option.splits prod.splits ctx.splits sum.splits)
  then consider "s' = s" | x preds xs parent where "r = Inr x"
      "finish_run us c s env repo h scope pvid caller preds xs parent = Inr (x, s')" by blast
  then have "audit_inv s' \<and> (isl r \<longrightarrow> s' = s) \<and> (\<forall>x. r = Inr x \<longrightarrow> s' = s \<or> Verdict_IsValid (rr_Verdict x))"
  proof cases
    case 2
    then show ?thesis using finish_run_audit assms(2) by auto
  qed (use assms(2) in simp)
  then show "audit_inv s'" "isl r \<Longrightarrow> s' = s" "r = Inr x \<Longrightarrow> s' = s \<or> Verdict_IsValid (rr_Verdict x)" by auto
qed

lemma prod_eval_audit:
  assumes run: "prod_eval fs us ge mgr gen now c repo h scope pvid w = ((res, err), w')"
    and inv: "audit_inv (w_audit w)" and db: "db_keys (ge_db ge)"
  shows "audit_inv (w_audit w')"
  using run
proof (cases rule: prod_eval_cases)
  case (Refused e)
  then show ?thesis using inv by simp
next
  case (Degraded pv reason retErr)
  then show ?thesis using writeDegraded_audit inv db by blast
next
  case (Engine pv r e' s')
  then show ?thesis using engine_run_audit(1) inv by (simp add: RunSync_def)
qed

section \<open>Histories of the pipeline\<close>

text \<open>
  The steps of the system: the steward's writers, the loaders of rules, thresholds, samples
  and commits, calls of the gate, and batch runs.
\<close>

inductive pipeline_step :: "(string \<Rightarrow> uuid option) \<Rightarrow> (uuid \<Rightarrow> string) \<Rightarrow> World \<Rightarrow> World \<Rightarrow> bool" for fs us where
  steward: "pipeline_step fs us w (w\<lparr>w_steward := steward_step us op (w_steward w)\<rparr>)"
| policy: "pipeline_step fs us w (w\<lparr>w_audit := es_InsertPolicyVersion pv (w_audit w)\<rparr>)"
| rule: "pipeline_step fs us w (w\<lparr>w_audit := es_InsertRule r (w_audit w)\<rparr>)"
| threshold: "pipeline_step fs us w (w\<lparr>w_audit := es_InsertThreshold t (w_audit w)\<rparr>)"
| override: "pipeline_step fs us w (w\<lparr>w_audit := es_InsertOverride v (w_audit w)\<rparr>)"
| samples: "pipeline_step fs us w (w\<lparr>w_audit := InsertSamples repo h rows (w_audit w)\<rparr>)"
| commit: "pipeline_step fs us w (w\<lparr>w_audit := RegisterCommit repo h parent (w_audit w)\<rparr>)"
| clock: "pipeline_step fs us w (w\<lparr>w_audit := SetClock t (w_audit w)\<rparr>)"
| gate: "db_keys (ge_db ge) \<Longrightarrow>
     Gate_Gate gen now (Some (NewProductionGate fs us ge mgr)) c repo h scope w = (out, w') \<Longrightarrow> pipeline_step fs us w w'"
| batch: "RunBatch fs us c env repo h pvid (w_rule_engine w) (w_audit w) = (r, e', s') \<Longrightarrow>
     pipeline_step fs us w (w\<lparr>w_rule_engine := e', w_audit := s'\<rparr>)"



inductive reachable :: "(string \<Rightarrow> uuid option) \<Rightarrow> (uuid \<Rightarrow> string) \<Rightarrow> World \<Rightarrow> bool" for fs us where
  initial: "reachable fs us \<lparr>w_steward = NewInMemoryStore, w_rule_engine = NewEngine ttl, w_audit = NewEngineStore\<rparr>"
| step: "reachable fs us w \<Longrightarrow> pipeline_step fs us w w' \<Longrightarrow> reachable fs us w'"

lemma audit_inv_inserts [simp]:
  "audit_inv (es_InsertPolicyVersion pv s) = audit_inv s" "audit_inv (es_InsertRule r s) = audit_inv s"
  "audit_inv (es_InsertThreshold t s) = audit_inv s" "audit_inv (es_InsertOverride v s) = audit_inv s"
  "audit_inv (InsertSamples repo h rows s) = audit_inv s" "audit_inv (RegisterCommit repo h parent s) = audit_inv s"
  "audit_inv (SetClock t' s) = audit_inv s"
  by (simp_all add: audit_inv_def run_findings_def es_InsertPolicyVersion_def es_InsertRule_def es_InsertThreshold_def
      es_InsertOverride_def InsertSamples_def RegisterCommit_def SetClock_def)

lemma Gate_production:
  "Gate_Gate gen now (Some (NewProductionGate fs us ge mgr)) c repo h scope w =
     (case ActivePolicyVersion c (w_steward w) of
        Inl e \<Rightarrow> ((zeroResult, Some (GateActivation (PortSteward e))), w)
      | Inr None \<Rightarrow> ((zeroResult, Some ErrNoActivePolicy), w)
      | Inr (Some pv) \<Rightarrow>
          if PolicyVersionID pv = uuid_Nil then ((zeroResult, Some (GateActivation PortZeroUUID)), w)
          else prod_eval fs us ge mgr gen now c repo h scope (PolicyVersionID pv) w)"
proof -
  have act: "activation (NewProductionGate fs us ge mgr) = Some stewardActivationAdapter"
    by (simp add: NewProductionGate_def)
  show ?thesis
    by (cases "ActivePolicyVersion c (w_steward w)")
      (auto simp: Gate_Gate_def act stewardActivationAdapter_def split: option.splits)
qed

lemma step_audit:
  assumes "pipeline_step fs us w w'" and "audit_inv (w_audit w)"
  shows "audit_inv (w_audit w')"
  using assms
proof (induction rule: pipeline_step.induct)
  case (gate ge gen now mgr c repo h scope w out w')
  obtain res err where "out = (res, err)" by fastforce
  with gate.hyps(2) have "w' = w \<or> (\<exists>pvid. prod_eval fs us ge mgr gen now c repo h scope pvid w = ((res, err), w'))"
    by (auto simp: Gate_production split: sum.splits option.splits if_splits)
  then show ?case using prod_eval_audit gate.hyps(1) gate.prems by blast
next
  case (batch c env repo h pvid w r e' s')
  then show ?case using engine_run_audit(1) by (simp add: RunBatch_def)
qed simp_all

lemma reachable_audit: "reachable fs us w \<Longrightarrow> audit_inv (w_audit w)"
proof (induction rule: reachable.induct)
  case (initial ttl)
  then show ?case by (simp add: audit_inv_def NewEngineStore_def)
next
  case (step w w')
  then show ?case using step_audit by blast
qed


section \<open>Properties\<close>

text \<open>A world in which a policy is active, its commit scanned, and the tables are shared.\<close>

lemma publish_then_activate:
  assumes pub: "Publish us sg Live gen now req s = Inr (pv, s1)"
    and act: "Activate sg' Live gen' now' req' s1 = Inr (pa, s2)"
    and names: "a_PolicyVersionID req' = PolicyVersionID pv"
    and newest: "\<And>pa'. pa' \<in> set (activations s) \<Longrightarrow> pa_CreatedAt pa' < now'"
  shows "ActivePolicyVersion Live s2 = Inr (Some pv)" and "GetPolicyVersion Live (PolicyVersionID pv) s2 = Inr pv"
proof -
  note pub' = Publish_Inr [OF pub] and act' = Activate_Inr [OF act]
  have stored: "map_of (policyVersions s2) (PolicyVersionID pv) = Some pv"
    using pub'(10) act'(7) by simp
  then show "GetPolicyVersion Live (PolicyVersionID pv) s2 = Inr pv" by (simp add: GetPolicyVersion_def)
  have "LatestActivation Live s2 = Inr (Some pa)"
    using activation_log.newest_wins [OF act'(6)] newest act'(4) pub'(10) by simp
  with stored show "ActivePolicyVersion Live s2 = Inr (Some pv)"
    using act'(3) names by (simp add: ActivePolicyVersion_def GetPolicyVersion_def)
qed

definition ex_activated_store :: InMemoryStore where
  "ex_activated_store = (case ex_activated of Inl _ \<Rightarrow> NewInMemoryStore | Inr (_, s) \<Rightarrow> s)"

definition ex_world :: World where
  "ex_world = \<lparr>w_steward = ex_activated_store, w_rule_engine = ex_engine1, w_audit = ex_estore1\<rparr>"

definition ex_genv :: "string option \<Rightarrow> gate_env" where
  "ex_genv status =
     \<lparr>ge_signer = manager_signer ex_ed (ex_kms CHR ''a'') (fst (snd ex_keys2)) 120,
      ge_db = (\<lambda>s i j. if i \<in> EvaluationRunID ` set (runs s) \<or> j \<in> VerdictID ` set (verdicts s) then TxFailed else TxOk),
      ge_scan = (\<lambda>_ _. Inr status), ge_run = ex_env 2 6\<rparr>"

definition ex_ids :: "nat \<Rightarrow> uuid option" where
  "ex_ids n = Some (of_nat (900 + n))"

definition ex_prod :: "string option \<Rightarrow> World Gate" where
  "ex_prod status = NewProductionGate ex_from_string ex_uuid_String (ex_genv status) None"

definition ex_evaluate :: "string option \<Rightarrow> World outcome" where
  "ex_evaluate status = Evaluate ex_ids 130 (Some (ex_prod status)) Live 1 ''b2'' None 50 ex_world"

lemma ex_active:
  obtains pv where "PolicyVersionID pv = 50" "ActivePolicyVersion Live ex_activated_store = Inr (Some pv)"
    "GetPolicyVersion Live 50 ex_activated_store = Inr pv"
    "VerifyPolicyVersionSignature ex_uuid_String (ge_signer (ex_genv status)) Live pv = None"
proof -
  obtain pv s1 where s1: "ex_published = Inr (pv, s1)" using ex_published_ok by blast
  note pub = s1 [unfolded ex_published_def]
  obtain pa s2 where s2: "ex_activated = Inr (pa, s2)" using ex_activated_ok by blast
  then have act: "Activate ex_signer Live (Some 60) 4 \<lparr>a_PolicyVersionID = 50, a_ActivatedBy = ''op''\<rparr> s1 = Inr (pa, s2)"
    by (simp add: ex_activated_def s1)
  have i: "PolicyVersionID pv = 50" using Publish_Inr(8) [OF pub] by simp
  have "activations ex_store = []" by code_simp
  with publish_then_activate [OF pub act] i
  have "ActivePolicyVersion Live s2 = Inr (Some pv)" "GetPolicyVersion Live 50 s2 = Inr pv" by simp_all
  moreover have "key_window ex_fp (fst (snd ex_keys1), snd (snd ex_keys1), 111) (fst (snd ex_keys2), snd (snd ex_keys2), 120)"
    using ex_later_window by (auto simp: key_window_def)
  from key_manager.published_verifies [OF this _ _ pub, of ex_ed "ex_kms CHR ''a''" "ge_signer (ex_genv status)"]
  have "VerifyPolicyVersionSignature ex_uuid_String (ge_signer (ex_genv status)) Live pv = None"
    by (simp add: manager_signer_def ex_signer_def ex_genv_def)
  moreover have "ex_activated_store = s2" by (simp add: ex_activated_store_def s2)
  ultimately show ?thesis using that i by blast
qed

lemma ex_gate_eq: "Gate_Gate ex_ids 130 (Some (ex_prod status)) Live 1 ''b2'' None ex_world = ex_evaluate status"
proof -
  obtain pv where "PolicyVersionID pv = 50" "ActivePolicyVersion Live ex_activated_store = Inr (Some pv)"
    by (rule ex_active)
  then show ?thesis
    by (simp add: Gate_production ex_prod_def ex_evaluate_def ex_world_def)
qed

lemma ex_evaluate_scanned:
  "ex_evaluate (Some ''scanned'') =
     ((\<lparr>ev_EvaluationRunID = 200, ev_EvaluationVerdictID = 203, ev_FindingIDs = [201, 202], ev_Verdict = VerdictBlock,
       Degraded = False, ev_DegradedReason = []\<rparr>, None),
      ex_world\<lparr>w_rule_engine := fst (snd ex_run2), w_audit := snd (snd ex_run2)\<rparr>)"
proof -
  obtain pv where pv: "PolicyVersionID pv = 50" "GetPolicyVersion Live 50 ex_activated_store = Inr pv"
    "VerifyPolicyVersionSignature ex_uuid_String (ge_signer (ex_genv (Some ''scanned''))) Live pv = None"
    by (rule ex_active)
  have "RunSync ex_from_string ex_uuid_String Live (ge_run (ex_genv st)) 1 ''b2'' None 50 (w_rule_engine ex_world) (w_audit ex_world)
    = (Inr \<lparr>rr_EvaluationRunID = 200, rr_EvaluationVerdictID = 203, rr_FindingIDs = [201, 202], rr_Verdict = VerdictBlock\<rparr>,
        fst (snd ex_run2), snd (snd ex_run2))" for st
    using ex_run2_eq by (simp add: RunSync_def ex_genv_def ex_world_def)
  with pv show ?thesis
    by (simp add: ex_evaluate_def Evaluate_def ex_prod_def NewProductionGate_def stewardPolicyAdapter_def ex_world_def
        stewardSignatureAdapter_def SamplesReady_def)
      (simp add: ex_genv_def EvaluatorAdapter_RunSync_def gate_Verdict_IsValid_def split_beta)
qed

lemma ex_audit_ids:
  "EvaluationRunID ` set (runs ex_estore1) = {100}" "VerdictID ` set (verdicts ex_estore1) = {102}"
  by code_simp+

lemma ex_evaluate_pending:
  "fst (ex_evaluate (Some ''running'')) =
     (\<lparr>ev_EvaluationRunID = 900, ev_EvaluationVerdictID = 901, ev_FindingIDs = [], ev_Verdict = VerdictWarn,
       Degraded = True, ev_DegradedReason = DegradedReasonSamplesPending\<rparr>, Some ErrSamplesPending)"
proof -
  obtain pv where pv: "PolicyVersionID pv = 50" "GetPolicyVersion Live 50 ex_activated_store = Inr pv"
    "VerifyPolicyVersionSignature ex_uuid_String (ge_signer (ex_genv (Some ''running''))) Live pv = None"
    by (rule ex_active)
  have "ge_db (ex_genv st) ex_estore1 900 901 = TxOk" for st
    using ex_audit_ids by (simp add: ex_genv_def)
  with pv show ?thesis
    by (simp add: ex_evaluate_def Evaluate_def ex_prod_def NewProductionGate_def stewardPolicyAdapter_def ex_world_def
        stewardSignatureAdapter_def SamplesReady_def)
      (simp add: ex_genv_def writeDegraded_def ex_ids_def IsValidForGate_def AppendDegradedRun_def gate_Verdict_IsValid_def Let_def)
qed

text \<open>
  C29. Whatever its ports do, the gate returns one of three things: a canonical verdict of
  the engine, not degraded and with no error; a degraded warning without findings whose
  reason is the one of the error returned with it, signature invalid or samples pending; or
  the zero result with an error.
\<close>
theorem gate_outcomes:
  "case Gate_Gate gen now g c repo h scope w of ((res, err), w') \<Rightarrow> outcome_ok res err"
  using Gate_outcome by (auto split: prod.splits)

lemma Evaluate_success:
  assumes "prod_eval fs us ge mgr gen now c repo h scope pvid w = ((res, None), w')"
  obtains pv r e' s' where "GetPolicyVersion c pvid (w_steward w) = Inr pv" "PolicyVersionID pv = pvid"
    "VerifyPolicyVersionSignature us (ge_signer ge) c pv = None" "ge_scan ge repo h = Inr (Some ''scanned'')"
    "RunSync fs us c (ge_run ge) repo h scope pvid (w_rule_engine w) (w_audit w) = (Inr r, e', s')"
    "w' = w\<lparr>w_rule_engine := e', w_audit := s'\<rparr>" "ev_Verdict res = rr_Verdict r" "ev_FindingIDs res = rr_FindingIDs r"
    "ev_EvaluationRunID res = rr_EvaluationRunID r" "gate_Verdict_IsValid (rr_Verdict r)"
  using assms
proof (cases rule: prod_eval_cases)
  case (Degraded pv reason retErr)
  then show ?thesis
    by (auto simp: writeDegraded_def Let_def split: if_splits option.splits prod.splits)
next
  case (Engine pv r e' s')
  then show ?thesis using that by auto
qed simp

text \<open>
  C3. The production gate passes on a verdict only after every check: the policy version
  exists under the requested identifier, its signature verifies, and the commit is scanned;
  the result is then the one of the rule engine, and the steward's tables are untouched.
\<close>
theorem gate_success_checked:
  assumes "Evaluate gen now (Some (NewProductionGate fs us ge mgr)) c repo h scope pvid w = ((res, None), w')"
  shows "\<exists>pv r e' s'. GetPolicyVersion c pvid (w_steward w) = Inr pv \<and> PolicyVersionID pv = pvid
    \<and> VerifyPolicyVersionSignature us (ge_signer ge) c pv = None
    \<and> ge_scan ge repo h = Inr (Some ''scanned'')
    \<and> RunSync fs us c (ge_run ge) repo h scope pvid (w_rule_engine w) (w_audit w) = (Inr r, e', s')
    \<and> w' = w\<lparr>w_rule_engine := e', w_audit := s'\<rparr>
    \<and> ev_Verdict res = rr_Verdict r \<and> ev_FindingIDs res = rr_FindingIDs r
    \<and> ev_EvaluationRunID res = rr_EvaluationRunID r \<and> gate_Verdict_IsValid (rr_Verdict r)"
  by (rule Evaluate_success [OF assms]) (intro exI conjI, assumption+)

theorem gate_success_checked_witness:
  "\<exists>pv. GetPolicyVersion Live 50 (w_steward ex_world) = Inr pv
     \<and> VerifyPolicyVersionSignature ex_uuid_String (ge_signer (ex_genv (Some ''scanned''))) Live pv = None"
  using gate_success_checked [OF ex_evaluate_scanned [unfolded ex_evaluate_def ex_prod_def]] by blast

text \<open>
  C28. A degraded answer of the production gate is on record: exactly one run and one
  verdict are appended, with the identifiers returned, for the caller \<^verbatim>\<open>eval_gate\<close>, the
  scope of the call, verdict warn and the reason returned, and no finding; the rule engine
  was not invoked, its state is unchanged. The signature is reported invalid only if it does
  not verify, the samples pending only if it does and the commit is not scanned.
\<close>
theorem gate_degraded_row:
  assumes "Evaluate gen now (Some (NewProductionGate fs us ge mgr)) c repo h scope pvid w = ((res, err), w')"
    and "Degraded res"
  shows "\<exists>pv s'. w' = w\<lparr>w_audit := s'\<rparr> \<and> findings s' = findings (w_audit w)
    \<and> runs s' = runs (w_audit w) @ [\<lparr>EvaluationRunID = ev_EvaluationRunID res, r_RepoID = repo, r_SHA = h,
        r_PolicyVersionID = pvid, r_Caller = CallerEvalGate, r_ScopeID = scope, r_CreatedAt = now\<rparr>]
    \<and> verdicts s' = verdicts (w_audit w) @ [\<lparr>VerdictID = ev_EvaluationVerdictID res,
        v_EvaluationRunID = ev_EvaluationRunID res, v_Verdict = VerdictWarn, v_Degraded = True,
        v_DegradedReason = ev_DegradedReason res, v_CreatedAt = now\<rparr>]
    \<and> GetPolicyVersion c pvid (w_steward w) = Inr pv
    \<and> (if ev_DegradedReason res = DegradedReasonPolicySignatureInvalid
       then err = Some ErrPolicySignatureInvalid \<and> VerifyPolicyVersionSignature us (ge_signer ge) c pv \<noteq> None
       else err = Some ErrSamplesPending \<and> VerifyPolicyVersionSignature us (ge_signer ge) c pv = None
         \<and> ge_scan ge repo h \<noteq> Inr (Some ''scanned''))"
  using assms(1)
proof (cases rule: prod_eval_cases)
  case (Refused e)
  then show ?thesis using assms(2) by (simp add: zeroResult_def)
next
  case (Engine pv r e' s')
  then show ?thesis using assms(2) by (auto simp: zeroResult_def)
next
  case (Degraded pv reason retErr)
  from Degraded(6,5) show ?thesis
  proof (cases rule: writeDegraded_cases)
    case (Written i j)
    have "retErr = ErrSamplesPending \<or> retErr = ErrPolicySignatureInvalid"
      and reason: "(reason = DegradedReasonPolicySignatureInvalid) \<longleftrightarrow> retErr = ErrPolicySignatureInvalid"
      using Degraded(5) by (auto simp: degraded_pairs_def)
    then show ?thesis
      using Written Degraded(4,7,8)
      by (auto simp: degraded_rows_def degraded_run_row_def degraded_verdict_row_def)
  qed (use assms(2) in \<open>simp_all add: zeroResult_def\<close>)
qed

theorem gate_degraded_row_witness:
  "runs (w_audit (snd (ex_evaluate (Some ''running'')))) =
     runs (w_audit ex_world) @ [\<lparr>EvaluationRunID = 900, r_RepoID = 1, r_SHA = ''b2'',
        r_PolicyVersionID = 50, r_Caller = CallerEvalGate, r_ScopeID = None, r_CreatedAt = 130\<rparr>]"
proof -
  let ?e = "ex_evaluate (Some ''running'')"
  have "Evaluate ex_ids 130 (Some (NewProductionGate ex_from_string ex_uuid_String (ex_genv (Some ''running'')) None)) Live 1 ''b2''
      None 50 ex_world = ((fst (fst ?e), snd (fst ?e)), snd ?e)"
    by (simp add: ex_evaluate_def ex_prod_def)
  from gate_degraded_row [OF this] show ?thesis
    using ex_evaluate_pending by fastforce
qed

text \<open>
  C30. An error that is not a degraded answer leaves the audit tables as they were, unless
  the database lost the outcome of a commit.
\<close>
theorem gate_error_writes_nothing:
  assumes "Evaluate gen now (Some (NewProductionGate fs us ge mgr)) c repo h scope pvid w = ((res, Some e), w')"
    and "\<not> Degraded res" and "audit_inv (w_audit w)" and "\<And>s i j. ge_db ge s i j \<noteq> TxLost"
  shows "w_audit w' = w_audit w \<and> w_steward w' = w_steward w"
  using assms(1)
proof (cases rule: prod_eval_cases)
  case (Degraded pv reason retErr)
  from Degraded(6,5) show ?thesis
    by (cases rule: writeDegraded_cases) (use assms(2,4) in simp_all)
next
  case (Engine pv r e' s')
  have "s' = w_audit w"
    using Engine(10) engine_run_audit(2,3) [OF Engine(8) [unfolded RunSync_def] assms(3)]
    by (auto simp: gate_Verdict_IsValid_def Verdict_IsValid_def)
  then show ?thesis using Engine(9) by simp
qed simp

lemma ex_unknown_policy:
  "Evaluate ex_ids 130 (Some (NewProductionGate ex_from_string ex_uuid_String (ex_genv None) None)) Live 1 ''b2'' None 51 ex_world
   = ((zeroResult, Some ErrPolicyResolver), ex_world)"
proof -
  have "stewardPolicyAdapter Live 51 ex_world = Inl (PortSteward ErrUnknownPolicyVersion)" by code_simp
  then show ?thesis by (simp add: Evaluate_def NewProductionGate_def)
qed

theorem gate_error_writes_nothing_witness:
  "w_audit (snd (Evaluate ex_ids 130 (Some (NewProductionGate ex_from_string ex_uuid_String (ex_genv None) None)) Live 1 ''b2''
     None 51 ex_world)) = w_audit ex_world"
proof -
  have "audit_inv (w_audit ex_world)" using ex_audit by (simp add: ex_world_def)
  then show ?thesis
    using gate_error_writes_nothing [OF ex_unknown_policy] ex_unknown_policy
    by (simp add: zeroResult_def ex_genv_def)
qed




end
