(* ===== verification/Rule_Worker.thy ===== *)
theory Rule_Worker
  imports Eval_Gate
begin

text \<open>
  The batch-refresh worker of the rule engine (\<^verbatim>\<open>rule_engine/worker.go\<close>) and its durable
  catch-up (\<^verbatim>\<open>rule_engine/catchup.go\<close>). The live stream of scan events is the list of the events
  received before the channel closes. The commit table, read by the catch-up through keyset
  pages, is the one at the time of the call; a poll of the context, a query and an engine call
  each take one tick, and \<open>cs\<close>, \<open>db\<close> and \<open>env\<close> say what the context, the database and the engine's
  clock and identifiers are at a tick. The events that failed, which the code logs one by one,
  are kept as a list, whose length is the counter of the code.
\<close>

section \<open>Events and the activation reader\<close>

record ScanEvent =
  se_RepoID :: uuid
  se_SHA :: sha

datatype worker_error =
    WorkerContext | WorkerActivation port_error | WorkerZeroPolicy | WorkerRunBatch engine_error
  | WorkerReader | WorkerCursor

definition StewardActivationReader :: "ctx \<Rightarrow> InMemoryStore \<Rightarrow> port_error + uuid option" where
  "StewardActivationReader c s =
     (case c of
        Cancelled \<Rightarrow> Inl (PortSteward ErrContext)
      | Live \<Rightarrow>
          (case ActivePolicyVersion c s of
             Inl e \<Rightarrow> Inl (PortSteward e)
           | Inr None \<Rightarrow> Inr None
           | Inr (Some pv) \<Rightarrow>
               if PolicyVersionID pv = uuid_Nil then Inl PortZeroUUID else Inr (Some (PolicyVersionID pv))))"

section \<open>One event\<close>

definition processWithPolicy ::
  "(string \<Rightarrow> uuid option) \<Rightarrow> (uuid \<Rightarrow> string) \<Rightarrow> ctx \<Rightarrow> run_env \<Rightarrow> ScanEvent \<Rightarrow> uuid \<Rightarrow> World
   \<Rightarrow> worker_error option \<times> World" where
  "processWithPolicy fs us c env ev pvid w =
     (if se_RepoID ev = uuid_Nil \<or> se_SHA ev = [] then (None, w)
      else if pvid = uuid_Nil then (Some WorkerZeroPolicy, w)
      else
        (case RunBatch fs us c env (se_RepoID ev) (se_SHA ev) pvid (w_rule_engine w) (w_audit w) of
           (r, e', s') \<Rightarrow>
             (case r of Inl e \<Rightarrow> Some (WorkerRunBatch e) | Inr _ \<Rightarrow> None, w\<lparr>w_rule_engine := e', w_audit := s'\<rparr>)))"

definition process ::
  "(string \<Rightarrow> uuid option) \<Rightarrow> (uuid \<Rightarrow> string) \<Rightarrow> ctx \<Rightarrow> run_env \<Rightarrow> ScanEvent \<Rightarrow> World \<Rightarrow> worker_error option \<times> World" where
  "process fs us c env ev w =
     (if se_RepoID ev = uuid_Nil \<or> se_SHA ev = [] then (None, w)
      else
        (case StewardActivationReader c (w_steward w) of
           Inl e \<Rightarrow> (Some (WorkerActivation e), w)
         | Inr None \<Rightarrow> (None, w)
         | Inr (Some pvid) \<Rightarrow> processWithPolicy fs us c env ev pvid w))"

section \<open>The live stream\<close>

record worker_state =
  tick :: nat
  processed :: nat
  failed :: "ScanEvent list"
  world :: World

definition attempted :: "ScanEvent \<Rightarrow> worker_error option \<times> World \<Rightarrow> worker_state \<Rightarrow> worker_state" where
  "attempted ev out st =
     (case out of
        (None, w') \<Rightarrow> st\<lparr>tick := tick st + 2, processed := processed st + 1, world := w'\<rparr>
      | (Some _, w') \<Rightarrow> st\<lparr>tick := tick st + 2, failed := failed st @ [ev], world := w'\<rparr>)"

fun Worker_Run ::
  "(string \<Rightarrow> uuid option) \<Rightarrow> (uuid \<Rightarrow> string) \<Rightarrow> (nat \<Rightarrow> ctx) \<Rightarrow> (nat \<Rightarrow> run_env) \<Rightarrow> ScanEvent list \<Rightarrow> worker_state
   \<Rightarrow> worker_error option \<times> worker_state" where
  "Worker_Run fs us cs env [] st =
     (case cs (tick st) of Cancelled \<Rightarrow> (Some WorkerContext, st) | Live \<Rightarrow> (None, st))"
| "Worker_Run fs us cs env (ev # evs) st =
     (case cs (tick st) of
        Cancelled \<Rightarrow> (Some WorkerContext, st)
      | Live \<Rightarrow>
          Worker_Run fs us cs env evs
            (attempted ev (process fs us (cs (tick st + 1)) (env (tick st + 1)) ev (world st)) st))"

section \<open>The backlog\<close>

record Commit =
  cm_RepoID :: uuid
  cm_SHA :: sha
  committed_at :: time
  scan_status :: string

record PendingScanCursor =
  CommittedAt :: time
  cu_RepoID :: uuid
  cu_SHA :: sha

definition cursor_of :: "Commit \<Rightarrow> PendingScanCursor" where
  "cursor_of c = \<lparr>CommittedAt = committed_at c, cu_RepoID = cm_RepoID c, cu_SHA = cm_SHA c\<rparr>"

text \<open>Row comparison of \<open>(committed_at, repo_id, sha)\<close>.\<close>

definition cursor_less :: "PendingScanCursor \<Rightarrow> PendingScanCursor \<Rightarrow> bool" where
  "cursor_less a b \<longleftrightarrow>
     CommittedAt a < CommittedAt b
     \<or> (CommittedAt a = CommittedAt b
         \<and> (cu_RepoID a < cu_RepoID b \<or> (cu_RepoID a = cu_RepoID b \<and> str_less (cu_SHA a) (cu_SHA b))))"

definition commit_before :: "Commit \<Rightarrow> Commit \<Rightarrow> bool" where
  "commit_before a b \<longleftrightarrow> cursor_less (cursor_of a) (cursor_of b)"

definition after_cursor :: "PendingScanCursor option \<Rightarrow> Commit \<Rightarrow> bool" where
  "after_cursor cu c \<longleftrightarrow> (case cu of None \<Rightarrow> True | Some k \<Rightarrow> cursor_less k (cursor_of c))"

definition event_of :: "Commit \<Rightarrow> ScanEvent" where
  "event_of c = \<lparr>se_RepoID = cm_RepoID c, se_SHA = cm_SHA c\<rparr>"

text \<open>The anti-join: a run of the batch refresh under the version, with a verdict that is not degraded.\<close>

definition refreshed :: "EngineStore \<Rightarrow> uuid \<Rightarrow> ScanEvent \<Rightarrow> bool" where
  "refreshed s pvid ev \<longleftrightarrow>
     list_ex (\<lambda>r. r_RepoID r = se_RepoID ev \<and> r_SHA r = se_SHA ev \<and> r_PolicyVersionID r = pvid \<and> r_Caller r = CallerBatchRefresh
                \<and> list_ex (\<lambda>v. v_EvaluationRunID v = EvaluationRunID r \<and> \<not> v_Degraded v) (verdicts s))
       (runs s)"

definition pending_rows :: "Commit list \<Rightarrow> uuid \<Rightarrow> PendingScanCursor option \<Rightarrow> EngineStore \<Rightarrow> Commit list" where
  "pending_rows cms pvid cu s =
     go_sort commit_before
       (filter (\<lambda>c. scan_status c = ''scanned'' \<and> after_cursor cu c \<and> \<not> refreshed s pvid (event_of c)) cms)"

definition CatchupDefaultLimit :: int where
  "CatchupDefaultLimit = 100"

definition page_size :: "int \<Rightarrow> nat" where
  "page_size limit = nat (if limit \<le> 0 then CatchupDefaultLimit else limit)"

definition PendingScans ::
  "bool \<Rightarrow> Commit list \<Rightarrow> uuid \<Rightarrow> int \<Rightarrow> PendingScanCursor option \<Rightarrow> EngineStore
   \<Rightarrow> worker_error + ScanEvent list \<times> PendingScanCursor option" where
  "PendingScans up cms pvid limit cu s =
     (if pvid = uuid_Nil then Inl WorkerZeroPolicy
      else if (case cu of None \<Rightarrow> False | Some k \<Rightarrow> cu_SHA k = [] \<or> cu_RepoID k = uuid_Nil) then Inl WorkerCursor
      else if \<not> up then Inl WorkerReader
      else
        (let rows = take (page_size limit) (pending_rows cms pvid cu s)
         in Inr (map event_of rows, if rows = [] then None else Some (cursor_of (last rows)))))"

section \<open>Catch-up\<close>

fun process_page ::
  "(string \<Rightarrow> uuid option) \<Rightarrow> (uuid \<Rightarrow> string) \<Rightarrow> (nat \<Rightarrow> ctx) \<Rightarrow> (nat \<Rightarrow> run_env) \<Rightarrow> uuid \<Rightarrow> ScanEvent list \<Rightarrow> worker_state
   \<Rightarrow> worker_error option \<times> worker_state" where
  "process_page fs us cs env pvid [] st = (None, st)"
| "process_page fs us cs env pvid (ev # evs) st =
     (case cs (tick st) of
        Cancelled \<Rightarrow> (Some WorkerContext, st)
      | Live \<Rightarrow>
          process_page fs us cs env pvid evs
            (attempted ev (processWithPolicy fs us (cs (tick st + 1)) (env (tick st + 1)) ev pvid (world st)) st))"

lemma cursor_less_trans: "cursor_less a b \<Longrightarrow> cursor_less b c \<Longrightarrow> cursor_less a c"
  by (auto simp: cursor_less_def intro: str_less_trans)

lemma cursor_less_irrefl [simp]: "\<not> cursor_less a a"
  by (simp add: cursor_less_def)

lemma pending_rows_in:
  "c \<in> set (pending_rows cms pvid cu s) \<longleftrightarrow>
     c \<in> set cms \<and> scan_status c = ''scanned'' \<and> after_cursor cu c \<and> \<not> refreshed s pvid (event_of c)"
  by (auto simp: pending_rows_def)

text \<open>A page that is not empty moves the cursor past at least one more commit.\<close>

lemma PendingScans_advances:
  assumes "PendingScans up cms pvid limit cu s = Inr (page, next)" and "page \<noteq> []"
  shows "length (filter (after_cursor next) cms) < length (filter (after_cursor cu) cms)"
proof -
  let ?rows = "take (page_size limit) (pending_rows cms pvid cu s)"
  have rows: "?rows \<noteq> []" "next = Some (cursor_of (last ?rows))"
    using assms by (auto simp: PendingScans_def Let_def split: if_splits)
  then have "last ?rows \<in> set (pending_rows cms pvid cu s)" by (meson in_set_takeD last_in_set)
  then have c: "last ?rows \<in> set cms" "after_cursor cu (last ?rows)" by (simp_all add: pending_rows_in)
  have sub: "after_cursor cu d" if "after_cursor next d" for d
    using that c(2) rows(2) by (auto simp: after_cursor_def intro: cursor_less_trans split: option.splits)
  have "\<not> after_cursor next (last ?rows)" using rows(2) by (simp add: after_cursor_def)
  with c have "length (filter (after_cursor next) (filter (after_cursor cu) cms)) < length (filter (after_cursor cu) cms)"
    by (intro length_filter_less [where x = "last ?rows"]) simp_all
  moreover have "filter (after_cursor next) (filter (after_cursor cu) cms) = filter (after_cursor next) cms"
    using sub by (auto intro: filter_cong)
  ultimately show ?thesis by simp
qed

function catchup_loop ::
  "(string \<Rightarrow> uuid option) \<Rightarrow> (uuid \<Rightarrow> string) \<Rightarrow> (nat \<Rightarrow> ctx) \<Rightarrow> (nat \<Rightarrow> run_env) \<Rightarrow> (nat \<Rightarrow> bool) \<Rightarrow> Commit list \<Rightarrow> uuid \<Rightarrow> int
   \<Rightarrow> PendingScanCursor option \<Rightarrow> worker_state \<Rightarrow> worker_error option \<times> worker_state" where
  "catchup_loop fs us cs env db cms pvid limit cu st =
     (case cs (tick st) of
        Cancelled \<Rightarrow> (Some WorkerContext, st)
      | Live \<Rightarrow>
          (case PendingScans (db (tick st)) cms pvid limit cu (w_audit (world st)) of
             Inl e \<Rightarrow> (Some e, st)
           | Inr (page, next) \<Rightarrow>
               if page = [] then (None, st)
               else
                 (case process_page fs us cs env pvid page (st\<lparr>tick := tick st + 1\<rparr>) of
                    (Some e, st') \<Rightarrow> (Some e, st')
                  | (None, st') \<Rightarrow>
                      if length page < page_size limit then (None, st')
                      else catchup_loop fs us cs env db cms pvid limit next st')))"
  by pat_completeness auto
termination
  by (relation "measure (\<lambda>(_, _, _, _, _, cms, _, _, cu, _). length (filter (after_cursor cu) cms))")
    (auto dest: PendingScans_advances)

declare catchup_loop.simps [simp del]

definition Catchup ::
  "(string \<Rightarrow> uuid option) \<Rightarrow> (uuid \<Rightarrow> string) \<Rightarrow> (nat \<Rightarrow> ctx) \<Rightarrow> (nat \<Rightarrow> run_env) \<Rightarrow> (nat \<Rightarrow> bool) \<Rightarrow> Commit list \<Rightarrow> int \<Rightarrow> World
   \<Rightarrow> worker_error option \<times> worker_state" where
  "Catchup fs us cs env db cms limit w =
     (let st = \<lparr>tick = 1, processed = 0, failed = [], world = w\<rparr> in
      case StewardActivationReader (cs 0) (w_steward w) of
        Inl e \<Rightarrow> (Some (WorkerActivation e), st)
      | Inr None \<Rightarrow> (None, st)
      | Inr (Some pvid) \<Rightarrow> catchup_loop fs us cs env db cms pvid limit None st)"

section \<open>What a run does to the backlog\<close>

lemma refreshed_mono:
  assumes "refreshed s pvid ev" and "runs s' = runs s @ rs" and "verdicts s' = verdicts s @ vs"
  shows "refreshed s' pvid ev"
  using assms by (fastforce simp: refreshed_def list_ex_iff)

text \<open>A run appended with its verdict refreshes its own commit and nothing else.\<close>

lemma AppendEvaluation_refreshed:
  assumes inv: "audit_inv s" and app: "AppendEvaluation c run verdict fs s = Inr s'" and good: "\<not> v_Degraded verdict"
  shows "refreshed s' p ev \<longleftrightarrow> refreshed s p ev
    \<or> (r_Caller run = CallerBatchRefresh \<and> p = r_PolicyVersionID run \<and> se_RepoID ev = r_RepoID run \<and> se_SHA ev = r_SHA run)"
proof
  note a = AppendEvaluation_Inr [OF app]
  assume "refreshed s' p ev"
  then obtain r v where r: "r \<in> set (runs s @ [run])" "r_RepoID r = se_RepoID ev" "r_SHA r = se_SHA ev" "r_PolicyVersionID r = p"
      "r_Caller r = CallerBatchRefresh" "v \<in> set (verdicts s @ [verdict])" "v_EvaluationRunID v = EvaluationRunID r" "\<not> v_Degraded v"
    using a(8) by (auto simp: refreshed_def list_ex_iff)
  show "refreshed s p ev
    \<or> (r_Caller run = CallerBatchRefresh \<and> p = r_PolicyVersionID run \<and> se_RepoID ev = r_RepoID run \<and> se_SHA ev = r_SHA run)"
  proof (cases "r \<in> set (runs s)")
    case True
    then have "v \<noteq> verdict" using a(2,4) r(7) by (metis image_eqI)
    with True r show ?thesis by (auto simp: refreshed_def list_ex_iff)
  next
    case False
    with r show ?thesis by auto
  qed
next
  note a = AppendEvaluation_Inr [OF app]
  assume "refreshed s p ev
    \<or> (r_Caller run = CallerBatchRefresh \<and> p = r_PolicyVersionID run \<and> se_RepoID ev = r_RepoID run \<and> se_SHA ev = r_SHA run)"
  then show "refreshed s' p ev"
  proof
    assume "refreshed s p ev"
    with a(8) show ?thesis by (auto intro: refreshed_mono)
  qed (use a(4,8) good in \<open>simp add: refreshed_def\<close>)
qed

lemma engine_run_store:
  assumes "engine_run fs us c env repo h scope pvid caller e s = (r, e', s')"
  obtains (Same) "s' = s"
  | (Ran) x preds xs parent where "r = Inr x" "finish_run us c s env repo h scope pvid caller preds xs parent = Inr (x, s')"
  using assms
  by (auto simp: engine_run_def runLocked_def Let_def split: option.splits prod.splits ctx.splits sum.splits)

lemma finish_run_refreshed:
  assumes "audit_inv s" and "finish_run us c s env repo h scope pvid caller preds xs parent = Inr (x, s')"
  shows "refreshed s' p ev \<longleftrightarrow> refreshed s p ev
    \<or> (caller = CallerBatchRefresh \<and> p = pvid \<and> se_RepoID ev = repo \<and> se_SHA ev = h)"
  using assms(2) AppendEvaluation_refreshed [OF assms(1), of c _ _ _ s' p ev]
  by (elim finish_run_Inr) metis

lemma engine_run_frame:
  assumes "engine_run fs us c env repo h scope pvid caller e s = (r, e', s')" and "audit_inv s"
  shows "refreshed s p ev \<Longrightarrow> refreshed s' p ev"
    and "refreshed s' p ev \<Longrightarrow> refreshed s p ev
      \<or> (\<not> isl r \<and> caller = CallerBatchRefresh \<and> p = pvid \<and> se_RepoID ev = repo \<and> se_SHA ev = h)"
  using assms(1) finish_run_refreshed [OF assms(2), of us c env repo h scope pvid caller _ _ _ _ s' p ev]
  by (cases rule: engine_run_store; auto)+

lemma recent_scan_found:
  "recent_scan ok vs b rs = Some (r, v) \<Longrightarrow>
     b = Some (r, v) \<or> (r \<in> set rs \<and> ok r \<and> v \<in> set vs \<and> v_EvaluationRunID v = EvaluationRunID r \<and> \<not> v_Degraded v)"
proof (induction rs arbitrary: b)
  case (Cons r' rs)
  let ?f = "find (\<lambda>v. v_EvaluationRunID v = EvaluationRunID r') vs"
  have f: "w \<in> set vs \<and> v_EvaluationRunID w = EvaluationRunID r'" if "?f = Some w" for w
    using that by (metis (mono_tags, lifting) find_Some_iff nth_mem)
  consider "recent_scan ok vs b rs = Some (r, v)"
    | w where "?f = Some w" "ok r'" "\<not> v_Degraded w" "recent_scan ok vs (Some (r', w)) rs = Some (r, v)"
    using Cons.prems by (auto split: if_splits option.splits)
  then show ?case
  proof cases
    case 1
    then show ?thesis using Cons.IH by auto
  next
    case (2 w)
    from Cons.IH [OF 2(4)] f [OF 2(1)] 2(2,3) show ?thesis by auto
  qed
qed simp

lemma Lookup_refreshed:
  assumes "LookupRecentCanonicalRun c repo h pvid CallerBatchRefresh None ttl s = Inr (Some x)"
  shows "refreshed s pvid \<lparr>se_RepoID = repo, se_SHA = h\<rparr>"
  using assms
  by (auto simp: LookupRecentCanonicalRun_def refreshed_def list_ex_iff Let_def
      split: ctx.splits if_splits option.splits prod.splits dest!: recent_scan_found)

text \<open>Every batch result in the engine's memory is backed by a recorded run.\<close>

definition cache_backed :: "Engine \<Rightarrow> EngineStore \<Rightarrow> bool" where
  "cache_backed e s \<longleftrightarrow>
     (\<forall>k x. map_of (recentRuns e) k = Some x \<longrightarrow> ck_caller k = CallerBatchRefresh \<longrightarrow>
        refreshed s (ck_policyVersionID k) \<lparr>se_RepoID = ck_repoID k, se_SHA = ck_sha k\<rparr>)"

lemma cache_backed_mono:
  assumes "cache_backed e s" and "\<And>p ev. refreshed s p ev \<Longrightarrow> refreshed s' p ev"
    and "\<And>k x. map_of (recentRuns e') k = Some x \<Longrightarrow> ck_caller k = CallerBatchRefresh \<Longrightarrow>
      (\<exists>y. map_of (recentRuns e) k = Some y) \<or> refreshed s' (ck_policyVersionID k) \<lparr>se_RepoID = ck_repoID k, se_SHA = ck_sha k\<rparr>"
  shows "cache_backed e' s'"
  using assms unfolding cache_backed_def by blast

lemma lookupRecentRun_cache:
  assumes "lookupRecentRun t k e = (hit, e')"
  shows "map_of (recentRuns e') k' = Some x \<Longrightarrow> map_of (recentRuns e) k' = Some x"
    and "hit \<noteq> None \<Longrightarrow> \<exists>x. map_of (recentRuns e) k = Some x"
  using assms by (auto simp: lookupRecentRun_def split: option.splits if_splits)

text \<open>A successful batch run leaves its commit refreshed, from whichever layer it was answered.\<close>

lemma engine_run_refreshes:
  assumes run: "engine_run fs us c env repo h None pvid CallerBatchRefresh e s = (Inr x, e', s')"
    and inv: "audit_inv s" and backed: "cache_backed e s"
  shows "refreshed s' pvid \<lparr>se_RepoID = repo, se_SHA = h\<rparr>"
proof -
  let ?k = "makeRunCacheKey repo h pvid None CallerBatchRefresh"
  obtain hit e1 where look: "lookupRecentRun (t_lookup env) ?k e = (hit, e1)" by fastforce
  have g: "run_guard repo h pvid CallerBatchRefresh = None"
    using run by (auto simp: engine_run_def split: option.splits)
  show ?thesis
  proof (cases hit)
    case (Some y)
    then have "s' = s" using run look g by (simp add: engine_run_def)
    moreover obtain z where "map_of (recentRuns e) ?k = Some z"
      using lookupRecentRun_cache(2) [OF look] Some by blast
    ultimately show ?thesis using backed by (auto simp: cache_backed_def makeRunCacheKey_def)
  next
    case None
    then have live: "c = Live" using run look g by (cases c) (simp_all add: engine_run_def)
    have rl: "\<exists>m. runLocked fs us c env repo h None pvid CallerBatchRefresh (runDedupTTL e1) s (dslCache e1) = (Inr x, s', m)"
      using run look g None live by (auto simp: engine_run_def split: prod.splits sum.splits)
    then show ?thesis
    proof (cases "\<exists>y. LookupRecentCanonicalRun c repo h pvid CallerBatchRefresh None (runDedupTTL e1) s = Inr (Some y)")
      case True
      then have "refreshed s pvid \<lparr>se_RepoID = repo, se_SHA = h\<rparr>" using Lookup_refreshed by blast
      moreover have "s' = s" using True rl by (auto simp: runLocked_def)
      ultimately show ?thesis by simp
    next
      case False
      then have "no_recent c repo h pvid CallerBatchRefresh None (runDedupTTL e1) s"
        by (auto simp: no_recent_def split: sum.splits option.splits)
      then obtain preds xs parent where
        "finish_run us c s env repo h None pvid CallerBatchRefresh preds xs parent = Inr (x, s')"
        using rl runLocked_finish by metis
      then show ?thesis using finish_run_refreshed [OF inv] by simp
    qed
  qed
qed

lemma engine_run_cache:
  assumes run: "engine_run fs us c env repo h scope pvid caller e s = (r, e', s')"
    and "map_of (recentRuns e') k = Some x"
  shows "(\<exists>y. map_of (recentRuns e) k = Some y) \<or> (k = makeRunCacheKey repo h pvid scope caller \<and> \<not> isl r)"
proof -
  obtain hit e1 where look: "lookupRecentRun (t_lookup env) (makeRunCacheKey repo h pvid scope caller) e = (hit, e1)" by fastforce
  note lookupRecentRun_cache(1) [OF look]
  moreover have "recentRuns e' = recentRuns e \<or> recentRuns e' = recentRuns e1
    \<or> (\<not> isl r \<and> (\<exists>y. recentRuns e' = gomap_put (makeRunCacheKey repo h pvid scope caller) y (recentRuns e1)))"
    using run look
    by (auto simp: engine_run_def Let_def storeRecentRun_def split: option.splits ctx.splits prod.splits sum.splits)
  ultimately show ?thesis using assms(2) by (auto split: if_splits)
qed

lemma engine_run_backed:
  assumes run: "engine_run fs us c env repo h scope pvid caller e s = (r, e', s')"
    and inv: "audit_inv s" and backed: "cache_backed e s" and scope: "caller = CallerBatchRefresh \<Longrightarrow> scope = None"
  shows "cache_backed e' s'"
proof (rule cache_backed_mono [OF backed engine_run_frame(1) [OF run inv]])
  fix k x assume k: "map_of (recentRuns e') k = Some x" "ck_caller k = CallerBatchRefresh"
  from engine_run_cache [OF run k(1)]
  show "(\<exists>y. map_of (recentRuns e) k = Some y) \<or> refreshed s' (ck_policyVersionID k) \<lparr>se_RepoID = ck_repoID k, se_SHA = ck_sha k\<rparr>"
  proof
    assume new: "k = makeRunCacheKey repo h pvid scope caller \<and> \<not> isl r"
    then have "caller = CallerBatchRefresh" using k(2) by (simp add: makeRunCacheKey_def)
    moreover from new obtain x' where "r = Inr x'" by (cases r) auto
    ultimately show ?thesis
      using engine_run_refreshes [OF _ inv backed] run scope new by (simp add: makeRunCacheKey_def)
  qed simp
qed


lemma prod_eval_backed:
  assumes run: "prod_eval fs us ge mgr gen now c repo h scope pvid w = ((res, err), w')"
    and inv: "audit_inv (w_audit w)" and backed: "cache_backed (w_rule_engine w) (w_audit w)"
  shows "cache_backed (w_rule_engine w') (w_audit w')"
  using run
proof (cases rule: prod_eval_cases)
  case (Degraded pv reason retErr)
  have grown: "cache_backed (w_rule_engine w) (degraded_rows run v (w_audit w))" for run v
    by (rule cache_backed_mono [OF backed]) (auto simp: degraded_rows_def intro: refreshed_mono)
  from Degraded(6,5) show ?thesis
    by (cases rule: writeDegraded_cases) (simp_all add: backed grown)
next
  case (Engine pv r e' s')
  then show ?thesis
    using engine_run_backed [OF Engine(8) [unfolded RunSync_def] inv backed] by simp
qed (simp add: backed)

lemma refreshed_inserts [simp]:
  "refreshed (es_InsertPolicyVersion pv s) = refreshed s" "refreshed (es_InsertRule r s) = refreshed s"
  "refreshed (es_InsertThreshold t s) = refreshed s" "refreshed (es_InsertOverride v s) = refreshed s"
  "refreshed (InsertSamples repo h rows s) = refreshed s" "refreshed (RegisterCommit repo h parent s) = refreshed s"
  "refreshed (SetClock t' s) = refreshed s"
  by (simp_all add: fun_eq_iff refreshed_def es_InsertPolicyVersion_def es_InsertRule_def es_InsertThreshold_def
      es_InsertOverride_def InsertSamples_def RegisterCommit_def SetClock_def)

text \<open>The worker's invariant: consistent audit tables, and a memory that is backed by them.\<close>

definition worker_inv :: "World \<Rightarrow> bool" where
  "worker_inv w \<longleftrightarrow> audit_inv (w_audit w) \<and> cache_backed (w_rule_engine w) (w_audit w)"

lemma step_backed:
  assumes "pipeline_step fs us w w'" and "worker_inv w"
  shows "cache_backed (w_rule_engine w') (w_audit w')"
  using assms
proof (induction rule: pipeline_step.induct)
  case (gate ge gen now mgr c repo h scope w out w')
  obtain res err where "out = (res, err)" by fastforce
  with gate.hyps(2) have "w' = w \<or> (\<exists>pvid. prod_eval fs us ge mgr gen now c repo h scope pvid w = ((res, err), w'))"
    by (auto simp: Gate_production split: sum.splits option.splits if_splits)
  then show ?case using prod_eval_backed gate.prems by (auto simp: worker_inv_def)
next
  case (batch c env repo h pvid w r e' s')
  then show ?case using engine_run_backed by (simp add: RunBatch_def worker_inv_def)
qed (simp_all add: worker_inv_def cache_backed_def)

lemma reachable_inv: "reachable fs us w \<Longrightarrow> worker_inv w"
proof (induction rule: reachable.induct)
  case (initial ttl)
  then show ?case by (simp add: worker_inv_def cache_backed_def audit_inv_def NewEngine_def NewEngineStore_def)
next
  case (step w w')
  then show ?case using step_backed step_audit unfolding worker_inv_def by blast
qed

section \<open>Working through a list of events\<close>

text \<open>
  What the two loops of the worker rely on: an attempt that succeeds settles its event, one
  that fails settles nothing, and no attempt touches another event.
\<close>

locale event_runner =
  fixes attempt :: "nat \<Rightarrow> ScanEvent \<Rightarrow> 'w \<Rightarrow> 'err option \<times> 'w"
    and settled :: "'w \<Rightarrow> ScanEvent \<Rightarrow> bool"
    and ok :: "'w \<Rightarrow> bool"
    and proper :: "ScanEvent \<Rightarrow> bool"
  assumes keeps: "ok w \<Longrightarrow> ok (snd (attempt n ev w))"
    and success: "ok w \<Longrightarrow> proper ev \<Longrightarrow> attempt n ev w = (None, w') \<Longrightarrow> settled w' ev"
    and failure: "ok w \<Longrightarrow> attempt n ev w = (Some e, w') \<Longrightarrow> settled w' ev = settled w ev"
    and frame: "ok w \<Longrightarrow> ev' \<noteq> ev \<Longrightarrow> settled (snd (attempt n ev w)) ev' = settled w ev'"
    and stable: "ok w \<Longrightarrow> settled w ev' \<Longrightarrow> settled (snd (attempt n ev w)) ev'"
begin

primrec failures :: "ScanEvent list \<Rightarrow> nat \<Rightarrow> 'w \<Rightarrow> ScanEvent list" where
  "failures [] n w = []"
| "failures (ev # evs) n w =
     (case attempt n ev w of (None, w') \<Rightarrow> failures evs (n + 2) w' | (Some _, w') \<Rightarrow> ev # failures evs (n + 2) w')"

primrec final :: "ScanEvent list \<Rightarrow> nat \<Rightarrow> 'w \<Rightarrow> 'w" where
  "final [] n w = w"
| "final (ev # evs) n w = final evs (n + 2) (snd (attempt n ev w))"

lemma final_ok: "ok w \<Longrightarrow> ok (final evs n w)"
  by (induction evs arbitrary: n w) (simp_all add: keeps)

lemma final_frame: "ok w \<Longrightarrow> ev \<notin> set evs \<Longrightarrow> settled (final evs n w) ev = settled w ev"
  by (induction evs arbitrary: n w) (simp_all add: keeps frame)

lemma final_stable: "ok w \<Longrightarrow> settled w ev \<Longrightarrow> settled (final evs n w) ev"
  by (induction evs arbitrary: n w) (simp_all add: keeps stable)

text \<open>Each event once, none of them settled before: what failed is what is left.\<close>

lemma failures_exact:
  "ok w \<Longrightarrow> distinct evs \<Longrightarrow> list_all proper evs \<Longrightarrow> list_all (\<lambda>ev. \<not> settled w ev) evs \<Longrightarrow>
     failures evs n w = filter (\<lambda>ev. \<not> settled (final evs n w) ev) evs"
proof (induction evs arbitrary: n w)
  case (Cons ev evs)
  obtain out w' where out: "attempt n ev w = (out, w')" by fastforce
  have ok': "ok w'" using keeps [of w n ev] Cons.prems out by simp
  have "settled w' e = settled w e" if "e \<in> set evs" for e
    using frame [of w e ev n] Cons.prems out that by auto
  then have "list_all (\<lambda>ev. \<not> settled w' ev) evs"
    using Cons.prems by (simp add: list_all_iff)
  then have IH: "failures evs (n + 2) w' = filter (\<lambda>ev. \<not> settled (final evs (n + 2) w') ev) evs"
    using Cons.IH [OF ok'] Cons.prems by simp
  have "settled (final evs (n + 2) w') ev = settled w' ev" using final_frame [OF ok'] Cons.prems by simp
  then show ?case
    using out IH success [of w ev n w'] failure [of w n ev _ w'] Cons.prems by (cases out) simp_all
qed simp

text \<open>With repeated events: what is not settled at the end has failed.\<close>

lemma failures_complete:
  "ok w \<Longrightarrow> ev \<in> set evs \<Longrightarrow> proper ev \<Longrightarrow> settled (final evs n w) ev \<or> ev \<in> set (failures evs n w)"
proof (induction evs arbitrary: n w)
  case (Cons e evs)
  obtain out w' where out: "attempt n e w = (out, w')" by fastforce
  have ok': "ok w'" using keeps [of w n e] Cons.prems out by simp
  show ?case
  proof (cases "ev \<in> set evs")
    case True
    then show ?thesis using Cons.IH [OF ok'] Cons.prems out by (auto split: option.splits)
  next
    case False
    then have e: "e = ev" using Cons.prems by simp
    then show ?thesis
      using out success [of w ev n w'] final_stable [OF ok'] Cons.prems by (cases out) auto
  qed
qed simp

end


definition proper_event :: "ScanEvent \<Rightarrow> bool" where
  "proper_event ev \<longleftrightarrow> se_RepoID ev \<noteq> uuid_Nil \<and> se_SHA ev \<noteq> []"

lemma processWithPolicy_inv: "worker_inv w \<Longrightarrow> worker_inv (snd (processWithPolicy fs us c env ev pvid w))"
  using engine_run_audit(1) engine_run_backed
  by (fastforce simp: processWithPolicy_def worker_inv_def RunBatch_def split: prod.splits)

lemma processWithPolicy_settles:
  assumes inv: "worker_inv w" and out: "processWithPolicy fs us c env ev pvid w = (res, w')"
  shows "proper_event ev \<Longrightarrow> res = None \<Longrightarrow> refreshed (w_audit w') pvid ev"
    and "refreshed (w_audit w) p ev' \<Longrightarrow> refreshed (w_audit w') p ev'"
    and "refreshed (w_audit w') p ev' \<Longrightarrow> refreshed (w_audit w) p ev' \<or> (res = None \<and> ev' = ev)"
    and "w_steward w' = w_steward w"
proof -
  have "(proper_event ev \<longrightarrow> res = None \<longrightarrow> refreshed (w_audit w') pvid ev)
    \<and> (refreshed (w_audit w) p ev' \<longrightarrow> refreshed (w_audit w') p ev')
    \<and> (refreshed (w_audit w') p ev' \<longrightarrow> refreshed (w_audit w) p ev' \<or> (res = None \<and> ev' = ev)) \<and> w_steward w' = w_steward w"
  proof (cases "proper_event ev \<and> pvid \<noteq> uuid_Nil")
    case False
    then show ?thesis using out by (auto simp: processWithPolicy_def proper_event_def split: if_splits)
  next
    case True
    obtain r e' s' where run: "engine_run fs us c env (se_RepoID ev) (se_SHA ev) None pvid CallerBatchRefresh (w_rule_engine w) (w_audit w)
        = (r, e', s')" by (metis prod_cases3)
    have w': "w' = w\<lparr>w_rule_engine := e', w_audit := s'\<rparr>" "(res = None) = (\<not> isl r)"
      using out True run by (auto simp: processWithPolicy_def proper_event_def RunBatch_def split: sum.splits)
    have fr: "refreshed (w_audit w) p ev' \<longrightarrow> refreshed s' p ev'"
      "refreshed s' p ev' \<longrightarrow> refreshed (w_audit w) p ev' \<or> (\<not> isl r \<and> se_RepoID ev' = se_RepoID ev \<and> se_SHA ev' = se_SHA ev)"
      using engine_run_frame [OF run] inv by (auto simp: worker_inv_def)
    have "refreshed s' pvid ev" if "\<not> isl r"
    proof -
      from that obtain x where "r = Inr x" by (cases r) auto
      with run inv have "refreshed s' pvid \<lparr>se_RepoID = se_RepoID ev, se_SHA = se_SHA ev\<rparr>"
        using engine_run_refreshes by (fastforce simp: worker_inv_def)
      then show ?thesis by (simp add: refreshed_def)
    qed
    with w' fr show ?thesis by (auto intro: ScanEvent.equality)
  qed
  then show "proper_event ev \<Longrightarrow> res = None \<Longrightarrow> refreshed (w_audit w') pvid ev"
    "refreshed (w_audit w) p ev' \<Longrightarrow> refreshed (w_audit w') p ev'"
    "refreshed (w_audit w') p ev' \<Longrightarrow> refreshed (w_audit w) p ev' \<or> (res = None \<and> ev' = ev)"
    "w_steward w' = w_steward w"
    by blast+
qed

interpretation batch: event_runner
  "\<lambda>n ev w. processWithPolicy fs us Live (env (Suc n)) ev pvid w" "\<lambda>w. refreshed (w_audit w) pvid" worker_inv proper_event
  for fs us env pvid
proof
  fix w w' :: World and n ev ev' and e :: worker_error
  let ?p = "processWithPolicy fs us Live (env (Suc n)) ev pvid w"
  assume inv: "worker_inv w"
  note settles = processWithPolicy_settles [where fs = fs and us = us and c = Live and env = "env (Suc n)" and ev = ev and pvid = pvid,
      OF inv surjective_pairing]
  show "worker_inv (snd ?p)" using inv by (rule processWithPolicy_inv)
  show "proper_event ev \<Longrightarrow> ?p = (None, w') \<Longrightarrow> refreshed (w_audit w') pvid ev"
    "?p = (Some e, w') \<Longrightarrow> refreshed (w_audit w') pvid ev = refreshed (w_audit w) pvid ev"
    "ev' \<noteq> ev \<Longrightarrow> refreshed (w_audit (snd ?p)) pvid ev' = refreshed (w_audit w) pvid ev'"
    "refreshed (w_audit w) pvid ev' \<Longrightarrow> refreshed (w_audit (snd ?p)) pvid ev'"
    using settles by force+
qed

text \<open>On the live stream an event is settled under whatever version is active; with none it is skipped.\<close>

definition settled_live :: "World \<Rightarrow> ScanEvent \<Rightarrow> bool" where
  "settled_live w ev \<longleftrightarrow>
     (case StewardActivationReader Live (w_steward w) of
        Inl _ \<Rightarrow> False | Inr None \<Rightarrow> True | Inr (Some pvid) \<Rightarrow> refreshed (w_audit w) pvid ev)"

lemma process_cases:
  obtains (Skipped) "process fs us Live env ev w = (None, w)" "proper_event ev \<Longrightarrow> settled_live w ev"
  | (Refused) e where "process fs us Live env ev w = (Some e, w)"
  | (Processed) pvid where "process fs us Live env ev w = processWithPolicy fs us Live env ev pvid w"
      "\<And>w'. w_steward w' = w_steward w \<Longrightarrow> settled_live w' = refreshed (w_audit w') pvid"
proof (cases "se_RepoID ev = uuid_Nil \<or> se_SHA ev = []")
  case True
  then show ?thesis using Skipped by (auto simp: process_def proper_event_def)
next
  case False
  note p = process_def [of fs us Live env ev w]
  show ?thesis
  proof (cases "StewardActivationReader Live (w_steward w)")
    case (Inl e)
    then show ?thesis using Refused False by (auto simp: p)
  next
    case (Inr v)
    show ?thesis
    proof (cases v)
      case None
      then show ?thesis using Skipped False Inr by (auto simp: p settled_live_def)
    next
      case (Some pvid)
      then show ?thesis using Processed [of pvid] False Inr by (auto simp: p settled_live_def fun_eq_iff)
    qed
  qed
qed

interpretation stream: event_runner "\<lambda>n ev w. process fs us Live (env (Suc n)) ev w" settled_live worker_inv proper_event
  for fs us env
proof
  fix w w' :: World and n ev ev' and e :: worker_error
  let ?p = "process fs us Live (env (Suc n)) ev w"
  assume inv: "worker_inv w"
  have "worker_inv (snd ?p) \<and> (proper_event ev \<longrightarrow> ?p = (None, w') \<longrightarrow> settled_live w' ev)
    \<and> (?p = (Some e, w') \<longrightarrow> settled_live w' ev = settled_live w ev)
    \<and> (ev' \<noteq> ev \<longrightarrow> settled_live (snd ?p) ev' = settled_live w ev')
    \<and> (settled_live w ev' \<longrightarrow> settled_live (snd ?p) ev')"
  proof (cases rule: process_cases [of fs us "env (Suc n)" ev w])
    case (Processed pvid)
    have same: "w_steward (snd ?p) = w_steward w"
      unfolding Processed(1) by (rule processWithPolicy_settles(4) [OF inv surjective_pairing])
    have at: "settled_live w = refreshed (w_audit w) pvid" "settled_live (snd ?p) = refreshed (w_audit (snd ?p)) pvid"
      using Processed(2) same by simp_all
    moreover have "worker_inv (snd ?p)" unfolding Processed(1) using inv by (rule batch.keeps)
    moreover have "proper_event ev \<longrightarrow> ?p = (None, w') \<longrightarrow> refreshed (w_audit w') pvid ev"
      using batch.success [OF inv, where fs = fs and us = us and env = env and n = n and pvid = pvid and w' = w'] Processed(1) by simp
    moreover have "?p = (Some e, w') \<longrightarrow> refreshed (w_audit w') pvid ev = refreshed (w_audit w) pvid ev"
      using batch.failure [OF inv, where fs = fs and us = us and env = env and n = n and pvid = pvid and ev = ev and e = e and w' = w'] Processed(1) by simp
    moreover have "ev' \<noteq> ev \<longrightarrow> refreshed (w_audit (snd ?p)) pvid ev' = refreshed (w_audit w) pvid ev'"
      using batch.frame [OF inv, where fs = fs and us = us and env = env and n = n and pvid = pvid and ev = ev and ev' = ev'] Processed(1) by simp
    moreover have "refreshed (w_audit w) pvid ev' \<longrightarrow> refreshed (w_audit (snd ?p)) pvid ev'"
      using batch.stable [OF inv, where fs = fs and us = us and env = env and n = n and pvid = pvid and ev = ev and ev' = ev'] Processed(1) by simp
    ultimately show ?thesis by auto
  qed (use inv in auto)
  then show "worker_inv (snd ?p)" "proper_event ev \<Longrightarrow> ?p = (None, w') \<Longrightarrow> settled_live w' ev"
    "?p = (Some e, w') \<Longrightarrow> settled_live w' ev = settled_live w ev"
    "ev' \<noteq> ev \<Longrightarrow> settled_live (snd ?p) ev' = settled_live w ev'"
    "settled_live w ev' \<Longrightarrow> settled_live (snd ?p) ev'"
    by blast+
qed

section \<open>Draining the backlog\<close>

lemma process_page_live:
  "\<exists>st'. process_page fs us (\<lambda>_. Live) env pvid evs st = (None, st')
    \<and> failed st' = failed st @ batch.failures fs us env pvid evs (tick st) (world st)
    \<and> world st' = batch.final fs us env pvid evs (tick st) (world st)
    \<and> processed st' + length (failed st') = processed st + length (failed st) + length evs"
proof (induction evs arbitrary: st)
  case (Cons ev evs)
  obtain out w' where out: "processWithPolicy fs us Live (env (Suc (tick st))) ev pvid (world st) = (out, w')" by fastforce
  let ?st1 = "attempted ev (out, w') st"
  from Cons.IH [of ?st1] obtain st' where
    "process_page fs us (\<lambda>_. Live) env pvid evs ?st1 = (None, st')"
    "failed st' = failed ?st1 @ batch.failures fs us env pvid evs (tick ?st1) (world ?st1)"
    "world st' = batch.final fs us env pvid evs (tick ?st1) (world ?st1)"
    "processed st' + length (failed st') = processed ?st1 + length (failed ?st1) + length evs"
    by blast
  then show ?case
    using out by (cases out) (simp_all add: attempted_def)
qed simp

lemma Worker_Run_live:
  "\<exists>st'. Worker_Run fs us (\<lambda>_. Live) env evs st = (None, st')
    \<and> failed st' = failed st @ stream.failures fs us env evs (tick st) (world st)
    \<and> world st' = stream.final fs us env evs (tick st) (world st)
    \<and> processed st' + length (failed st') = processed st + length (failed st) + length evs"
proof (induction evs arbitrary: st)
  case (Cons ev evs)
  obtain out w' where out: "process fs us Live (env (Suc (tick st))) ev (world st) = (out, w')" by fastforce
  let ?st1 = "attempted ev (out, w') st"
  from Cons.IH [of ?st1] obtain st' where
    "Worker_Run fs us (\<lambda>_. Live) env evs ?st1 = (None, st')"
    "failed st' = failed ?st1 @ stream.failures fs us env evs (tick ?st1) (world ?st1)"
    "world st' = stream.final fs us env evs (tick ?st1) (world ?st1)"
    "processed st' + length (failed st') = processed ?st1 + length (failed ?st1) + length evs"
    by blast
  then show ?case
    using out by (cases out) (simp_all add: attempted_def)
qed simp

text \<open>
  The rows \<open>P\<close> have been worked through between two states: what failed is what is left of
  them, everything else was counted, and no other commit was touched.
\<close>

definition drained :: "uuid \<Rightarrow> Commit list \<Rightarrow> worker_state \<Rightarrow> worker_state \<Rightarrow> bool" where
  "drained pvid P st st' \<longleftrightarrow>
     failed st' = failed st @ map event_of (filter (\<lambda>c. \<not> refreshed (w_audit (world st')) pvid (event_of c)) P)
     \<and> processed st' + length (failed st') = processed st + length (failed st) + length P
     \<and> worker_inv (world st')
     \<and> (\<forall>ev. ev \<notin> event_of ` set P \<longrightarrow>
          refreshed (w_audit (world st')) pvid ev = refreshed (w_audit (world st)) pvid ev)
     \<and> (\<forall>ev. refreshed (w_audit (world st)) pvid ev \<longrightarrow> refreshed (w_audit (world st')) pvid ev)"

lemma drained_tick [simp]: "drained pvid P (st\<lparr>tick := n\<rparr>) st' = drained pvid P st st'"
  by (simp add: drained_def)

lemma drained_append:
  assumes "drained pvid P st st1" and "drained pvid Q st1 st'" and "distinct (map event_of (P @ Q))"
  shows "drained pvid (P @ Q) st st'"
proof -
  have "refreshed (w_audit (world st')) pvid (event_of c) = refreshed (w_audit (world st1)) pvid (event_of c)" if "c \<in> set P" for c
    using assms(2,3) that by (fastforce simp: drained_def)
  then have "filter (\<lambda>c. \<not> refreshed (w_audit (world st1)) pvid (event_of c)) P
      = filter (\<lambda>c. \<not> refreshed (w_audit (world st')) pvid (event_of c)) P"
    by (auto intro: filter_cong)
  with assms(1,2) show ?thesis by (auto simp: drained_def image_Un)
qed

lemma page_drained:
  assumes inv: "worker_inv (world st)" and dist: "distinct (map event_of P)"
    and P: "\<And>c. c \<in> set P \<Longrightarrow> proper_event (event_of c) \<and> \<not> refreshed (w_audit (world st)) pvid (event_of c)"
  shows "\<exists>st'. process_page fs us (\<lambda>_. Live) env pvid (map event_of P) st = (None, st') \<and> drained pvid P st st'"
proof -
  let ?evs = "map event_of P"
  obtain st' where st': "process_page fs us (\<lambda>_. Live) env pvid ?evs st = (None, st')"
    "failed st' = failed st @ batch.failures fs us env pvid ?evs (tick st) (world st)"
    "world st' = batch.final fs us env pvid ?evs (tick st) (world st)"
    "processed st' + length (failed st') = processed st + length (failed st) + length ?evs"
    using process_page_live by blast
  have "batch.failures fs us env pvid ?evs (tick st) (world st)
      = filter (\<lambda>ev. \<not> refreshed (w_audit (world st')) pvid ev) ?evs"
    unfolding st'(3) by (rule batch.failures_exact [OF inv dist]) (auto simp: list_all_iff P)
  then have "drained pvid P st st'"
    using st' batch.final_ok [OF inv] batch.final_frame [OF inv] batch.final_stable [OF inv]
    by (auto simp: drained_def filter_map o_def)
  with st'(1) show ?thesis by blast
qed

text \<open>The commit table: one row per repository and commit, with real identifiers.\<close>

definition commits_ok :: "Commit list \<Rightarrow> bool" where
  "commits_ok cms \<longleftrightarrow> distinct (map event_of cms) \<and> list_all (\<lambda>c. proper_event (event_of c)) cms"

lemma cursor_less_total: "a \<noteq> b \<Longrightarrow> cursor_less a b \<or> cursor_less b a"
  using str_less_total by (cases a; cases b) (auto simp: cursor_less_def)

lemma event_of_cursor: "cursor_of c = cursor_of d \<Longrightarrow> event_of c = event_of d"
  by (simp add: cursor_of_def event_of_def)

lemma commit_before_sort:
  shows "transp commit_before" "asymp commit_before"
    "\<not> commit_before y x \<Longrightarrow> \<not> commit_before z y \<Longrightarrow> \<not> commit_before z x"
proof -
  show "transp commit_before" by (rule transpI) (auto simp: commit_before_def intro: cursor_less_trans)
  show "asymp commit_before" by (rule asympI) (auto simp: commit_before_def dest: cursor_less_trans)
  show "\<not> commit_before z x" if "\<not> commit_before y x" "\<not> commit_before z y"
    using that cursor_less_total cursor_less_trans unfolding commit_before_def by metis
qed

lemma pending_rows_sorted:
  assumes "commits_ok cms"
  shows "sorted_wrt commit_before (pending_rows cms pvid cu s)" and "distinct (map event_of (pending_rows cms pvid cu s))"
proof -
  let ?P = "pending_rows cms pvid cu s"
  have "distinct (map event_of (filter Q cms))" for Q
    using assms by (auto simp: commits_ok_def distinct_map inj_on_def)
  then show d: "distinct (map event_of ?P)" by (auto simp: pending_rows_def distinct_map)
  have weak: "sorted_wrt (\<lambda>x y. \<not> commit_before y x) ?P"
    unfolding pending_rows_def by (rule go_sort_sorted [OF commit_before_sort])
  show "sorted_wrt commit_before ?P"
  proof (rule sorted_wrt_iff_nth_less [THEN iffD2], intro allI impI)
    fix i j assume ij: "i < j" "j < length ?P"
    then have "event_of (?P ! i) \<noteq> event_of (?P ! j)"
      using d nth_eq_iff_index_eq [OF d, of i j] by simp
    then have "cursor_of (?P ! i) \<noteq> cursor_of (?P ! j)" using event_of_cursor by metis
    moreover have "\<not> commit_before (?P ! j) (?P ! i)" using weak ij by (simp add: sorted_wrt_iff_nth_less)
    ultimately show "commit_before (?P ! i) (?P ! j)" using cursor_less_total unfolding commit_before_def by metis
  qed
qed

lemma sorted_wrt_last: "sorted_wrt R xs \<Longrightarrow> x \<in> set xs \<Longrightarrow> x = last xs \<or> R x (last xs)"
  by (induction xs) auto

text \<open>After a page, the rows past its last one are the rest of the backlog.\<close>

lemma pending_rest:
  assumes ok: "commits_ok cms" and P: "P = pending_rows cms pvid cu s" and rows: "take k P \<noteq> []"
    and same: "\<And>ev. ev \<notin> event_of ` set (take k P) \<Longrightarrow> refreshed s1 pvid ev = refreshed s pvid ev"
    and mono: "\<And>ev. refreshed s pvid ev \<Longrightarrow> refreshed s1 pvid ev"
  shows "pending_rows cms pvid (Some (cursor_of (last (take k P)))) s1 = drop k P"
proof -
  let ?l = "last (take k P)" and ?Q = "pending_rows cms pvid (Some (cursor_of (last (take k P)))) s1"
  note sP = pending_rows_sorted [OF ok, of pvid cu s, folded P]
  have split: "sorted_wrt commit_before (take k P @ drop k P)" "distinct (map event_of (take k P @ drop k P))"
    using sP by simp_all
  then have parts: "sorted_wrt commit_before (take k P)" "sorted_wrt commit_before (drop k P)"
      "\<And>x y. x \<in> set (take k P) \<Longrightarrow> y \<in> set (drop k P) \<Longrightarrow> commit_before x y"
      "event_of ` set (take k P) \<inter> event_of ` set (drop k P) = {}"
    unfolding sorted_wrt_append map_append distinct_append by auto
  have l: "?l \<in> set (take k P)" using rows by simp
  then have lP: "?l \<in> set P" by (meson in_set_takeD)
  have "set ?Q = set (drop k P)"
  proof
    show "set (drop k P) \<subseteq> set ?Q"
    proof
      fix c assume c: "c \<in> set (drop k P)"
      then have "c \<in> set P" by (meson in_set_dropD)
      moreover have "commit_before ?l c" using parts(3) l c by blast
      moreover have "event_of c \<notin> event_of ` set (take k P)" using parts(4) c by blast
      ultimately show "c \<in> set ?Q"
        using same by (simp add: P pending_rows_in after_cursor_def commit_before_def)
    qed
    show "set ?Q \<subseteq> set (drop k P)"
    proof
      fix c assume c: "c \<in> set ?Q"
      have "after_cursor cu c"
        using c lP by (auto simp: P pending_rows_in after_cursor_def intro: cursor_less_trans split: option.splits)
      with c mono have "c \<in> set P" by (auto simp: P pending_rows_in)
      moreover have "c \<notin> set (take k P)"
      proof
        assume "c \<in> set (take k P)"
        then have "c = ?l \<or> commit_before c ?l" by (rule sorted_wrt_last [OF parts(1)])
        moreover have "commit_before ?l c" using c by (simp add: pending_rows_in after_cursor_def commit_before_def)
        ultimately show False using cursor_less_trans cursor_less_irrefl unfolding commit_before_def by metis
      qed
      ultimately show "c \<in> set (drop k P)" by (metis Un_iff append_take_drop_id set_append)
    qed
  qed
  moreover have "distinct ?Q" "distinct (drop k P)"
    using pending_rows_sorted(2) [OF ok] sP(2) by (auto simp: distinct_map intro: distinct_drop)
  ultimately have "mset ?Q = mset (drop k P)" by (simp add: set_eq_iff_mset_eq_distinct)
  then show ?thesis
    using parts(2) pending_rows_sorted(1) [OF ok] commit_before_sort(2) by (metis asympD sorted_wrt_unique)
qed


lemma catchup_loop_drains:
  assumes ok: "commits_ok cms" and pvid: "pvid \<noteq> uuid_Nil"
  shows "worker_inv (world st) \<Longrightarrow> (\<And>k. cu = Some k \<Longrightarrow> cu_SHA k \<noteq> [] \<and> cu_RepoID k \<noteq> uuid_Nil) \<Longrightarrow>
    \<exists>st'. catchup_loop fs us (\<lambda>_. Live) env (\<lambda>_. True) cms pvid limit cu st = (None, st')
      \<and> drained pvid (pending_rows cms pvid cu (w_audit (world st))) st st'"
proof (induction "length (filter (after_cursor cu) cms)" arbitrary: cu st rule: less_induct)
  case less
  define P k where "P = pending_rows cms pvid cu (w_audit (world st))" and "k = page_size limit"
  let ?st0 = "st\<lparr>tick := tick st + 1\<rparr>" and ?next = "Some (cursor_of (last (take k P)))"
  have scan: "PendingScans True cms pvid limit cu (w_audit (world st)) =
      Inr (map event_of (take k P), if take k P = [] then None else ?next)"
    using pvid less.prems(2) by (auto simp: PendingScans_def P_def k_def Let_def split: option.splits)
  have k: "0 < k" by (simp add: k_def page_size_def CatchupDefaultLimit_def)
  show ?case
  proof (cases "take k P = []")
    case True
    then have "P = []" using k by simp
    with scan True show ?thesis
      unfolding P_def [symmetric]
      by (subst catchup_loop.simps) (simp add: drained_def less.prems(1))
  next
    case False
    have P: "proper_event (event_of c) \<and> \<not> refreshed (w_audit (world ?st0)) pvid (event_of c)" if "c \<in> set P" for c
      using that ok by (auto simp: P_def pending_rows_in commits_ok_def list_all_iff)
    have dist: "distinct (map event_of P)" unfolding P_def by (rule pending_rows_sorted(2) [OF ok])
    obtain st1 where st1: "process_page fs us (\<lambda>_. Live) env pvid (map event_of (take k P)) ?st0 = (None, st1)"
      "drained pvid (take k P) ?st0 st1"
      using page_drained [of ?st0 "take k P" pvid fs us env] less.prems(1) P dist
      by (auto simp: take_map [symmetric] intro: distinct_take dest: in_set_takeD)
    then have d1: "drained pvid (take k P) st st1" by simp
    have unfold: "catchup_loop fs us (\<lambda>_. Live) env (\<lambda>_. True) cms pvid limit cu st =
        (if length (take k P) < k then (None, st1)
         else catchup_loop fs us (\<lambda>_. Live) env (\<lambda>_. True) cms pvid limit ?next st1)"
      using scan False st1(1) by (subst catchup_loop.simps) (simp add: k_def)
    show ?thesis
    proof (cases "length (take k P) < k")
      case True
      then have "take k P = P" by simp
      moreover have "catchup_loop fs us (\<lambda>_. Live) env (\<lambda>_. True) cms pvid limit cu st = (None, st1)"
        using unfold True by (simp only: if_True)
      ultimately show ?thesis using d1 P_def by metis
    next
      case full: False
      have rest: "pending_rows cms pvid ?next (w_audit (world st1)) = drop k P"
        using d1 by (intro pending_rest [OF ok P_def False]) (auto simp: drained_def)
      have "last (take k P) \<in> set P" using False by (meson in_set_takeD last_in_set)
      then have "proper_event (event_of (last (take k P)))" using P by blast
      moreover have "length (filter (after_cursor ?next) cms) < length (filter (after_cursor cu) cms)"
        using PendingScans_advances [OF scan] False by simp
      ultimately obtain st' where "catchup_loop fs us (\<lambda>_. Live) env (\<lambda>_. True) cms pvid limit ?next st1 = (None, st')"
        "drained pvid (drop k P) st1 st'"
        using less.hyps [of ?next st1] d1 rest
        by (auto simp: drained_def [of pvid "take k P"] proper_event_def event_of_def cursor_of_def)
      moreover from this(2) have "drained pvid (take k P @ drop k P) st st'"
        using d1 dist by (intro drained_append [of _ _ _ st1]) simp_all
      ultimately show ?thesis using unfold full by (simp add: P_def)
    qed
  qed
qed


lemma pending_rows_later:
  assumes ok: "commits_ok cms" and mono: "\<And>ev. refreshed s pvid ev \<Longrightarrow> refreshed s' pvid ev"
  shows "pending_rows cms pvid cu s' = filter (\<lambda>c. \<not> refreshed s' pvid (event_of c)) (pending_rows cms pvid cu s)"
    (is "?Q = filter ?left ?P")
proof -
  have "set ?Q = set (filter ?left ?P)" using mono by (auto simp: pending_rows_in)
  moreover have "distinct ?Q" "distinct (filter ?left ?P)"
    using pending_rows_sorted(2) [OF ok] by (auto simp: distinct_map)
  ultimately have "mset ?Q = mset (filter ?left ?P)" using set_eq_iff_mset_eq_distinct by blast
  moreover have "sorted_wrt commit_before (filter ?left ?P)"
    using pending_rows_sorted(1) [OF ok] by (rule sorted_wrt_filter)
  ultimately show ?thesis
    using pending_rows_sorted(1) [OF ok] commit_before_sort(2) by (metis asympD sorted_wrt_unique)
qed

section \<open>Properties\<close>

text \<open>
  C16. A catch-up that is not interrupted, in any state the pipeline reaches and with any
  page size, ends without an error, and what is then left of the backlog of the active
  version is exactly the list of commits whose run failed, in order; all others have left
  it and are counted. A commit whose run fails does not keep later ones from being tried.
\<close>
theorem catchup_drains:
  assumes "reachable fs us w" and "StewardActivationReader Live (w_steward w) = Inr (Some pvid)" and "commits_ok cms"
  shows "\<exists>st'. Catchup fs us (\<lambda>_. Live) env (\<lambda>_. True) cms limit w = (None, st')
    \<and> map event_of (pending_rows cms pvid None (w_audit (world st'))) = failed st'
    \<and> processed st' + length (failed st') = length (pending_rows cms pvid None (w_audit w))"
proof -
  have pvid: "pvid \<noteq> uuid_Nil"
    using assms(2) by (auto simp: StewardActivationReader_def split: sum.splits option.splits if_splits)
  let ?st = "\<lparr>tick = 1, processed = 0, failed = [], world = w\<rparr>"
  obtain st' where "catchup_loop fs us (\<lambda>_. Live) env (\<lambda>_. True) cms pvid limit None ?st = (None, st')"
    and d: "drained pvid (pending_rows cms pvid None (w_audit w)) ?st st'"
    using catchup_loop_drains [OF assms(3) pvid, of ?st None fs us env limit] reachable_inv [OF assms(1)] by auto
  then have "Catchup fs us (\<lambda>_. Live) env (\<lambda>_. True) cms limit w = (None, st')"
    using assms(2) by (simp add: Catchup_def)
  with d show ?thesis
    using pending_rows_later [OF assms(3), of "w_audit w" pvid "w_audit (world st')" None] by (auto simp: drained_def)
qed

text \<open>A deployment with a backlog of three commits, the oldest of them without samples.\<close>

definition ex_fresh_world :: World where
  "ex_fresh_world = \<lparr>w_steward = ex_activated_store, w_rule_engine = NewEngine 0, w_audit = ex_estore\<rparr>"

definition ex_commits :: "Commit list" where
  "ex_commits =
     [\<lparr>cm_RepoID = 1, cm_SHA = ''b2'', committed_at = 3, scan_status = ''scanned''\<rparr>,
      \<lparr>cm_RepoID = 1, cm_SHA = ''a1'', committed_at = 2, scan_status = ''scanned''\<rparr>,
      \<lparr>cm_RepoID = 1, cm_SHA = ''c0'', committed_at = 1, scan_status = ''scanned''\<rparr>]"

lemma reachable_steward: "reachable fs us w \<Longrightarrow> reachable fs us (w\<lparr>w_steward := fold (steward_step us) ops (w_steward w)\<rparr>)"
proof (induction ops arbitrary: w)
  case (Cons op ops)
  from Cons.IH [OF reachable.step [OF Cons.prems pipeline_step.steward [of fs us w op]]] show ?case by simp
qed simp

lemma ex_fresh_reachable: "reachable ex_from_string ex_uuid_String ex_fresh_world"
proof -
  let ?w = "\<lparr>w_steward = NewInMemoryStore, w_rule_engine = NewEngine 0, w_audit = ex_estore\<rparr>"
  let ?ops = "ex_setup @ [OpPublish ex_signer Live (Some 50) 3 ex_publish,
    OpActivate ex_signer Live (Some 60) 4 \<lparr>a_PolicyVersionID = 50, a_ActivatedBy = ''op''\<rparr>]"
  have "reachable ex_from_string ex_uuid_String \<lparr>w_steward = NewInMemoryStore, w_rule_engine = NewEngine 0, w_audit = NewEngineStore\<rparr>"
    by (rule reachable.initial)
  note a = this reachable.step [OF this pipeline_step.policy [where pv = ex_version]]
  note b = reachable.step [OF a(2) pipeline_step.rule [where r = ex_rule]]
  note c = reachable.step [OF b pipeline_step.threshold [where t = ex_threshold]]
  note d = reachable.step [OF c pipeline_step.samples [where repo = 1 and h = "''a1''"
        and rows = "[ex_esample 10 2 ''a1'' 12, ex_esample 11 3 ''a1'' 4]"]]
  note e = reachable.step [OF d pipeline_step.samples [where repo = 1 and h = "''b2''"
        and rows = "[ex_esample 12 2 ''b2'' 5, ex_esample 13 3 ''b2'' 20]"]]
  have audit: "reachable ex_from_string ex_uuid_String ?w"
    using reachable.step [OF e pipeline_step.commit [where repo = 1 and h = "''b2''" and parent = "''a1''"]]
    by (simp add: ex_estore_def)
  obtain pv s1 where s1: "ex_published = Inr (pv, s1)" using ex_published_ok by blast
  obtain pa s2 where s2: "ex_activated = Inr (pa, s2)" using ex_activated_ok by blast
  have "fold (steward_step ex_uuid_String) ?ops NewInMemoryStore = ex_activated_store"
    using s1 s2 by (simp add: ex_store_def steward_run_def keep_def ex_published_def ex_activated_def ex_activated_store_def)
  with reachable_steward [OF audit, of ?ops] show ?thesis by (simp add: ex_fresh_world_def)
qed


lemma ex_fresh_active: "StewardActivationReader Live (w_steward ex_fresh_world) = Inr (Some 50)"
proof -
  obtain pv where "PolicyVersionID pv = 50" "ActivePolicyVersion Live ex_activated_store = Inr (Some pv)" by (rule ex_active)
  then show ?thesis by (simp add: StewardActivationReader_def ex_fresh_world_def)
qed

theorem catchup_drains_witness:
  "\<exists>st'. Catchup ex_from_string ex_uuid_String (\<lambda>_. Live) (\<lambda>n. ex_env (n + 1) (int n)) (\<lambda>_. True) ex_commits 1 ex_fresh_world
      = (None, st')
    \<and> map event_of (pending_rows ex_commits 50 None (w_audit (world st'))) = failed st'
    \<and> processed st' + length (failed st') = 3"
proof -
  have "commits_ok ex_commits" by code_simp
  moreover have "length (pending_rows ex_commits 50 None (w_audit ex_fresh_world)) = 3" by code_simp
  ultimately show ?thesis
    using catchup_drains [OF ex_fresh_reachable ex_fresh_active, of ex_commits "\<lambda>n. ex_env (n + 1) (int n)" 1] by simp
qed

text \<open>
  C38. The live worker serves every event of the stream: when the channel closes, each event
  with real identifiers has a batch run under the active version, or its processing is among
  the failures that were logged, or no version is active. A failure does not stop the stream.
\<close>
theorem worker_serves_stream:
  assumes "reachable fs us w"
  shows "\<exists>st'. Worker_Run fs us (\<lambda>_. Live) env evs \<lparr>tick = 0, processed = 0, failed = [], world = w\<rparr> = (None, st')
    \<and> processed st' + length (failed st') = length evs
    \<and> (\<forall>ev \<in> set evs. proper_event ev \<longrightarrow> settled_live (world st') ev \<or> ev \<in> set (failed st'))"
proof -
  let ?st = "\<lparr>tick = 0, processed = 0, failed = [], world = w\<rparr>"
  obtain st' where "Worker_Run fs us (\<lambda>_. Live) env evs ?st = (None, st')"
    "failed st' = stream.failures fs us env evs 0 w" "world st' = stream.final fs us env evs 0 w"
    "processed st' + length (failed st') = length evs"
    using Worker_Run_live [of fs us env evs ?st] by auto
  moreover have "\<forall>ev \<in> set evs. proper_event ev \<longrightarrow>
      settled_live (stream.final fs us env evs 0 w) ev \<or> ev \<in> set (stream.failures fs us env evs 0 w)"
    using stream.failures_complete [OF reachable_inv [OF assms]] by blast
  ultimately show ?thesis by auto
qed

theorem worker_serves_stream_witness:
  "\<exists>st'. Worker_Run ex_from_string ex_uuid_String (\<lambda>_. Live) (\<lambda>n. ex_env (n + 1) (int n))
      [\<lparr>se_RepoID = 1, se_SHA = ''c0''\<rparr>, \<lparr>se_RepoID = 1, se_SHA = ''a1''\<rparr>]
      \<lparr>tick = 0, processed = 0, failed = [], world = ex_fresh_world\<rparr> = (None, st')
    \<and> processed st' + length (failed st') = 2
    \<and> (settled_live (world st') \<lparr>se_RepoID = 1, se_SHA = ''a1''\<rparr> \<or> \<lparr>se_RepoID = 1, se_SHA = ''a1''\<rparr> \<in> set (failed st'))"
  using worker_serves_stream [OF ex_fresh_reachable, of "\<lambda>n. ex_env (n + 1) (int n)"
      "[\<lparr>se_RepoID = 1, se_SHA = ''c0''\<rparr>, \<lparr>se_RepoID = 1, se_SHA = ''a1''\<rparr>]"]
  by (simp add: proper_event_def)

end
