(* ===== verification/Go_Json.thy ===== *)
theory Go_Json
  imports Steward_Json
begin

text \<open>
  What the audit log uses of \<^verbatim>\<open>encoding/json\<close> and \<^verbatim>\<open>encoding/base64\<close>: the scanner
  and its tree (string literals are kept as written, because \<^verbatim>\<open>time.Time\<close> reads them
  raw), unquoting, the encoder of strings and trees, and the decoding of fields into Go
  values. The scanner recurses on fuel; \<open>scan_fuel_enough\<close> shows that twice the length of
  the input is as good as any larger amount.
\<close>

section \<open>The scanner\<close>

datatype jvalue =
    VNull | VBool bool | VNum string | VStr string | VArr "jvalue list" | VObj "(string \<times> jvalue) list"

abbreviation (input) quote_char :: char where "quote_char \<equiv> CHR 0x22"
abbreviation (input) backslash :: char where "backslash \<equiv> CHR 0x5C"

definition is_ws :: "char \<Rightarrow> bool" where
  "is_ws c \<longleftrightarrow> c = CHR '' '' \<or> c = CHR 0x09 \<or> c = CHR 0x0D \<or> c = CHR 0x0A"

definition skip_ws :: "string \<Rightarrow> string" where
  "skip_ws s = dropWhile is_ws s"

definition hex_val :: "char \<Rightarrow> int option" where
  "hex_val c =
     (let b = byte_of c in
      if 48 \<le> b \<and> b \<le> 57 then Some (b - 48)
      else if 97 \<le> b \<and> b \<le> 102 then Some (b - 87)
      else if 65 \<le> b \<and> b \<le> 70 then Some (b - 55)
      else None)"

definition is_hex :: "char \<Rightarrow> bool" where
  "is_hex c \<longleftrightarrow> hex_val c \<noteq> None"

definition consed :: "string \<Rightarrow> (string \<times> string) option \<Rightarrow> (string \<times> string) option" where
  "consed p r = map_option (\<lambda>(b, t). (p @ b, t)) r"

text \<open>From behind the opening quote to behind the closing one: the literal and the rest.\<close>

fun scan_string :: "string \<Rightarrow> (string \<times> string) option" where
  "scan_string [] = None"
| "scan_string (c # s) =
     (if c = quote_char then Some ([], s)
      else if c = backslash then
        (case s of
           [] \<Rightarrow> None
         | e # t \<Rightarrow>
             if e \<in> set [quote_char, backslash, CHR ''/'', CHR ''b'', CHR ''f'', CHR ''n'', CHR ''r'', CHR ''t'']
             then consed [c, e] (scan_string t)
             else if e = CHR ''u'' then
               (case t of
                  h1 # h2 # h3 # h4 # u \<Rightarrow>
                    if is_hex h1 \<and> is_hex h2 \<and> is_hex h3 \<and> is_hex h4
                    then consed [c, e, h1, h2, h3, h4] (scan_string u) else None
                | _ \<Rightarrow> None)
             else None)
      else if byte_of c < 32 then None
      else consed [c] (scan_string s))"

definition is_digit :: "char \<Rightarrow> bool" where
  "is_digit c \<longleftrightarrow> 48 \<le> byte_of c \<and> byte_of c \<le> 57"

text \<open>The parts of a number, each with what follows it.\<close>

definition num_int :: "string \<Rightarrow> (string \<times> string) option" where
  "num_int s =
     (case s of
        [] \<Rightarrow> None
      | c # r \<Rightarrow>
          if c = CHR ''0'' then Some ([c], r)
          else if is_digit c then Some (takeWhile is_digit s, dropWhile is_digit s)
          else None)"

definition num_digits :: "string \<Rightarrow> (string \<times> string) option" where
  "num_digits s = (if takeWhile is_digit s = [] then None else Some (takeWhile is_digit s, dropWhile is_digit s))"

definition num_frac :: "string \<Rightarrow> (string \<times> string) option" where
  "num_frac s =
     (case s of
        [] \<Rightarrow> Some ([], s)
      | c # r \<Rightarrow> if c = CHR ''.'' then consed [c] (num_digits r) else Some ([], s))"

definition num_exp :: "string \<Rightarrow> (string \<times> string) option" where
  "num_exp s =
     (case s of
        [] \<Rightarrow> Some ([], s)
      | c # r \<Rightarrow>
          if c = CHR ''e'' \<or> c = CHR ''E'' then
            (case r of
               [] \<Rightarrow> None
             | g # t \<Rightarrow> if g = CHR ''+'' \<or> g = CHR ''-'' then consed [c, g] (num_digits t) else consed [c] (num_digits r))
          else Some ([], s))"

definition num_abs :: "string \<Rightarrow> (string \<times> string) option" where
  "num_abs s =
     Option.bind (num_int s) (\<lambda>(i, r). Option.bind (num_frac r) (\<lambda>(f, t). consed (i @ f) (num_exp t)))"

definition scan_number :: "string \<Rightarrow> (string \<times> string) option" where
  "scan_number s =
     (case s of
        [] \<Rightarrow> None
      | c # r \<Rightarrow> if c = CHR ''-'' then consed [c] (num_abs r) else num_abs s)"

definition scan_word :: "string \<Rightarrow> jvalue \<Rightarrow> string \<Rightarrow> (jvalue \<times> string) option" where
  "scan_word w v s = (if take (length w) s = w then Some (v, drop (length w) s) else None)"

definition maxNestingDepth :: int where
  "maxNestingDepth = 10000"

text \<open>
  A value, the elements of a non-empty array, the members of a non-empty object; \<open>d\<close> counts
  the containers already open.
\<close>

fun scan_value :: "nat \<Rightarrow> int \<Rightarrow> string \<Rightarrow> (jvalue \<times> string) option"
  and scan_elems :: "nat \<Rightarrow> int \<Rightarrow> string \<Rightarrow> (jvalue list \<times> string) option"
  and scan_members :: "nat \<Rightarrow> int \<Rightarrow> string \<Rightarrow> ((string \<times> jvalue) list \<times> string) option" where
  "scan_value 0 d s = None"
| "scan_value (Suc n) d s =
     (case s of
        [] \<Rightarrow> None
      | c # r \<Rightarrow>
          if c = quote_char then map_option (map_prod VStr (\<lambda>x. x)) (scan_string r)
          else if c = CHR ''['' then
            (if d \<ge> maxNestingDepth then None
             else
               (case skip_ws r of
                  [] \<Rightarrow> None
                | e # t \<Rightarrow> if e = CHR '']'' then Some (VArr [], t)
                           else map_option (map_prod VArr (\<lambda>x. x)) (scan_elems n (d + 1) r)))
          else if c = CHR ''{'' then
            (if d \<ge> maxNestingDepth then None
             else
               (case skip_ws r of
                  [] \<Rightarrow> None
                | e # t \<Rightarrow> if e = CHR ''}'' then Some (VObj [], t)
                           else map_option (map_prod VObj (\<lambda>x. x)) (scan_members n (d + 1) r)))
          else if c = CHR ''t'' then scan_word ''true'' (VBool True) s
          else if c = CHR ''f'' then scan_word ''false'' (VBool False) s
          else if c = CHR ''n'' then scan_word ''null'' VNull s
          else map_option (map_prod VNum (\<lambda>x. x)) (scan_number s))"
| "scan_elems 0 d s = None"
| "scan_elems (Suc n) d s =
     (case scan_value n d (skip_ws s) of
        None \<Rightarrow> None
      | Some (v, r) \<Rightarrow>
          (case skip_ws r of
             [] \<Rightarrow> None
           | c # t \<Rightarrow>
               if c = CHR '','' then map_option (map_prod ((#) v) (\<lambda>x. x)) (scan_elems n d t)
               else if c = CHR '']'' then Some ([v], t)
               else None))"
| "scan_members 0 d s = None"
| "scan_members (Suc n) d s =
     (case skip_ws s of
        [] \<Rightarrow> None
      | q # r0 \<Rightarrow>
          if q \<noteq> quote_char then None
          else
            (case scan_string r0 of
               None \<Rightarrow> None
             | Some (k, r1) \<Rightarrow>
                 (case skip_ws r1 of
                    [] \<Rightarrow> None
                  | p # r2 \<Rightarrow>
                      if p \<noteq> CHR '':'' then None
                      else
                        (case scan_value n d (skip_ws r2) of
                           None \<Rightarrow> None
                         | Some (v, r) \<Rightarrow>
                             (case skip_ws r of
                                [] \<Rightarrow> None
                              | c # t \<Rightarrow>
                                  if c = CHR '','' then map_option (map_prod ((#) (k, v)) (\<lambda>x. x)) (scan_members n d t)
                                  else if c = CHR ''}'' then Some ([(k, v)], t)
                                  else None)))))"

definition parse_json :: "string \<Rightarrow> jvalue option" where
  "parse_json s =
     (case scan_value (2 * length s + 1) 0 (skip_ws s) of
        None \<Rightarrow> None
      | Some (v, r) \<Rightarrow> if skip_ws r = [] then Some v else None)"

definition json_Valid :: "string \<Rightarrow> bool" where
  "json_Valid s \<longleftrightarrow> parse_json s \<noteq> None"

section \<open>The encoder\<close>

text \<open>\<^verbatim>\<open>json.Marshal\<close> also escapes the three characters HTML treats specially.\<close>

definition escape_rune_html :: "rune \<Rightarrow> string" where
  "escape_rune_html r =
     (if r = 60 \<or> r = 62 \<or> r = 38 then backslash # ''u00'' @ [hex_digit (r div 16), hex_digit (r mod 16)]
      else escape_rune r)"

function json_escape :: "string \<Rightarrow> string" where
  "json_escape s =
     (if s = [] then []
      else (case decode_rune s of
              (r, w) \<Rightarrow> (if r = RuneError \<and> w = 1 then backslash # ''ufffd'' else escape_rune_html r)
                        @ json_escape (drop w s)))"
  by pat_completeness auto
termination
proof (relation "measure length", goal_cases)
  case (2 s x y)
  then show ?case using decode_rune_width_pos [of s] by (cases s) (auto simp: prod_eq_iff)
qed simp

declare json_escape.simps [simp del]

definition jstr :: "string \<Rightarrow> jvalue" where
  "jstr s = VStr (json_escape s)"

definition jint :: "int \<Rightarrow> jvalue" where
  "jint n = VNum (format_int n)"

definition field_before :: "string \<times> jvalue \<Rightarrow> string \<times> jvalue \<Rightarrow> bool" where
  "field_before x y = str_less (fst x) (fst y)"

text \<open>A struct keeps the order of its declaration; a map is written with sorted keys.\<close>

definition jstruct :: "(string \<times> jvalue) list \<Rightarrow> jvalue" where
  "jstruct fs = VObj (map (\<lambda>(k, v). (json_escape k, v)) fs)"

definition jmap :: "(string \<times> jvalue) list \<Rightarrow> jvalue" where
  "jmap fs = jstruct (go_sort field_before fs)"

fun marshal :: "jvalue \<Rightarrow> string" where
  "marshal VNull = ''null''"
| "marshal (VBool b) = (if b then ''true'' else ''false'')"
| "marshal (VNum s) = s"
| "marshal (VStr s) = quote_char # s @ [quote_char]"
| "marshal (VArr vs) = CHR ''['' # join (map marshal vs) @ '']''"
| "marshal (VObj fs) =
     CHR ''{'' # join (map (\<lambda>(k, v). quote_char # k @ [quote_char, CHR '':''] @ marshal v) fs) @ ''}''"

section \<open>Unquoting\<close>

definition u4 :: "string \<Rightarrow> int" where
  "u4 s = foldl (\<lambda>a c. 16 * a + (case hex_val c of None \<Rightarrow> 0 | Some d \<Rightarrow> d)) 0 (take 4 s)"

definition unescape :: "char \<Rightarrow> char" where
  "unescape e =
     (if e = CHR ''b'' then CHR 0x08 else if e = CHR ''f'' then CHR 0x0C else if e = CHR ''n'' then CHR 0x0A
      else if e = CHR ''r'' then CHR 0x0D else if e = CHR ''t'' then CHR 0x09 else e)"

text \<open>The second half of a surrogate pair, when the literal goes on with one.\<close>

definition low_surrogate :: "string \<Rightarrow> int option" where
  "low_surrogate s =
     (if take 2 s = [backslash, CHR ''u''] \<and> 56320 \<le> u4 (drop 2 s) \<and> u4 (drop 2 s) < 57344
      then Some (u4 (drop 2 s)) else None)"

function unquote :: "string \<Rightarrow> string" where
  "unquote s =
     (case s of
        [] \<Rightarrow> []
      | c # t \<Rightarrow>
          if c = backslash then
            (case t of
               [] \<Rightarrow> []
             | e # u \<Rightarrow>
                 if e = CHR ''u'' then
                   (let r = u4 u in
                    if 55296 \<le> r \<and> r < 57344 then
                      (case low_surrogate (drop 4 u) of
                         Some r2 \<Rightarrow>
                           if r < 56320
                           then encode_rune ((r - 55296) * 1024 + (r2 - 56320) + 65536) @ unquote (drop 10 u)
                           else encode_rune RuneError @ unquote (drop 4 u)
                       | None \<Rightarrow> encode_rune RuneError @ unquote (drop 4 u))
                    else encode_rune r @ unquote (drop 4 u))
                 else unescape e # unquote u)
          else
            (case decode_rune s of
               (r, w) \<Rightarrow> (if r = RuneError \<and> w = 1 then encode_rune RuneError else take w s) @ unquote (drop w s)))"
  by pat_completeness auto
termination
proof (relation "measure length", goal_cases)
  case (7 s c t x y)
  then show ?case using decode_rune_width_pos [of s] by (auto simp: prod_eq_iff)
qed auto

declare unquote.simps [simp del]

function valid_utf8 :: "string \<Rightarrow> bool" where
  "valid_utf8 s =
     (if s = [] then True
      else (case decode_rune s of (r, w) \<Rightarrow> \<not> (r = RuneError \<and> w = 1) \<and> valid_utf8 (drop w s)))"
  by pat_completeness auto
termination
proof (relation "measure length", goal_cases)
  case (2 s x y)
  then show ?case using decode_rune_width_pos [of s] by (cases s) (auto simp: prod_eq_iff)
qed simp

declare valid_utf8.simps [simp del]

section \<open>Base64\<close>

definition b64_char :: "int \<Rightarrow> char" where
  "b64_char n =
     char_of (if n < 26 then 65 + n else if n < 52 then 71 + n else if n < 62 then n - 4
              else if n = 62 then 43 else (47 :: int))"

definition b64_val :: "char \<Rightarrow> int option" where
  "b64_val c =
     (let b = byte_of c in
      if 65 \<le> b \<and> b \<le> 90 then Some (b - 65)
      else if 97 \<le> b \<and> b \<le> 122 then Some (b - 71)
      else if 48 \<le> b \<and> b \<le> 57 then Some (b + 4)
      else if b = 43 then Some 62
      else if b = 47 then Some 63
      else None)"

fun b64_encode :: "string \<Rightarrow> string" where
  "b64_encode [] = []"
| "b64_encode [x] = [b64_char (byte_of x div 4), b64_char (byte_of x mod 4 * 16), CHR ''='', CHR ''='']"
| "b64_encode [x, y] =
     [b64_char (byte_of x div 4), b64_char (byte_of x mod 4 * 16 + byte_of y div 16),
      b64_char (byte_of y mod 16 * 4), CHR ''='']"
| "b64_encode (x # y # z # s) =
     [b64_char (byte_of x div 4), b64_char (byte_of x mod 4 * 16 + byte_of y div 16),
      b64_char (byte_of y mod 16 * 4 + byte_of z div 64), b64_char (byte_of z mod 64)] @ b64_encode s"

text \<open>Quanta of four; padding ends the input, the bits it leaves over are not looked at.\<close>

fun b64_quanta :: "string \<Rightarrow> string option" where
  "b64_quanta [] = Some []"
| "b64_quanta (a # b # c # d # s) =
     (case (b64_val a, b64_val b) of
        (Some x, Some y) \<Rightarrow>
          if d = CHR ''='' \<and> c = CHR ''='' then
            (if s = [] then Some [char_of (x * 4 + y div 16)] else None)
          else
            (case b64_val c of
               None \<Rightarrow> None
             | Some z \<Rightarrow>
                 if d = CHR ''='' then
                   (if s = [] then Some [char_of (x * 4 + y div 16), char_of (y mod 16 * 16 + z div 4)] else None)
                 else
                   (case b64_val d of
                      None \<Rightarrow> None
                    | Some v \<Rightarrow>
                        map_option
                          (\<lambda>t. [char_of (x * 4 + y div 16), char_of (y mod 16 * 16 + z div 4), char_of (z mod 4 * 64 + v)] @ t)
                          (b64_quanta s)))
      | _ \<Rightarrow> None)"
| "b64_quanta _ = None"

definition b64_decode :: "string \<Rightarrow> string option" where
  "b64_decode s = b64_quanta (filter (\<lambda>c. c \<noteq> CHR 0x0D \<and> c \<noteq> CHR 0x0A) s)"

section \<open>Decoding into Go values\<close>

text \<open>
  A JSON \<^verbatim>\<open>null\<close> leaves a field as it was, or makes a pointer or slice nil; any other
  value of the wrong kind is an error. Identifiers are read by the third-party parser
  \<open>fs\<close>.
\<close>

definition parse_int64 :: "string \<Rightarrow> int option" where
  "parse_int64 s =
     (let (sgn, ds) = (case s of [] \<Rightarrow> (1, []) | c # t \<Rightarrow> if c = CHR ''-'' then (-1, t) else (1, s)) in
      if ds \<noteq> [] \<and> list_all is_dec ds \<and> - (2 ^ 63) \<le> sgn * dec_val ds \<and> sgn * dec_val ds < 2 ^ 63
      then Some (sgn * dec_val ds) else None)"

definition parse_uint8 :: "string \<Rightarrow> int option" where
  "parse_uint8 s = (if s \<noteq> [] \<and> list_all is_dec s \<and> dec_val s < 256 then Some (dec_val s) else None)"

fun dec_string :: "jvalue \<Rightarrow> string \<Rightarrow> string option" where
  "dec_string VNull old = Some old"
| "dec_string (VStr s) old = Some (unquote s)"
| "dec_string _ old = None"

fun dec_bool :: "jvalue \<Rightarrow> bool \<Rightarrow> bool option" where
  "dec_bool VNull old = Some old"
| "dec_bool (VBool b) old = Some b"
| "dec_bool _ old = None"

fun dec_int :: "jvalue \<Rightarrow> int \<Rightarrow> int option" where
  "dec_int VNull old = Some old"
| "dec_int (VNum s) old = parse_int64 s"
| "dec_int _ old = None"

fun dec_uuid :: "(string \<Rightarrow> uuid option) \<Rightarrow> jvalue \<Rightarrow> uuid \<Rightarrow> uuid option" where
  "dec_uuid fs VNull old = Some old"
| "dec_uuid fs (VStr s) old = fs (unquote s)"
| "dec_uuid fs _ old = None"

fun dec_uuid_ptr :: "(string \<Rightarrow> uuid option) \<Rightarrow> jvalue \<Rightarrow> uuid option option" where
  "dec_uuid_ptr fs VNull = Some None"
| "dec_uuid_ptr fs (VStr s) = map_option Some (fs (unquote s))"
| "dec_uuid_ptr fs _ = None"

text \<open>Elements of a slice are decoded over those already there.\<close>

fun dec_elems :: "(jvalue \<Rightarrow> 'a \<Rightarrow> 'a option) \<Rightarrow> 'a \<Rightarrow> jvalue list \<Rightarrow> 'a list \<Rightarrow> 'a list option" where
  "dec_elems f zero [] olds = Some []"
| "dec_elems f zero (v # vs) olds =
     (case f v (case olds of [] \<Rightarrow> zero | x # _ \<Rightarrow> x) of
        None \<Rightarrow> None
      | Some x \<Rightarrow> map_option ((#) x) (dec_elems f zero vs (tl olds)))"

fun dec_uuids :: "(string \<Rightarrow> uuid option) \<Rightarrow> jvalue \<Rightarrow> uuid list \<Rightarrow> uuid list option" where
  "dec_uuids fs VNull olds = Some []"
| "dec_uuids fs (VArr vs) olds = dec_elems (dec_uuid fs) uuid_Nil vs olds"
| "dec_uuids fs _ olds = None"

fun dec_byte :: "jvalue \<Rightarrow> char \<Rightarrow> char option" where
  "dec_byte VNull old = Some old"
| "dec_byte (VNum s) old = map_option char_of (parse_uint8 s)"
| "dec_byte _ old = None"

fun dec_bytes :: "jvalue \<Rightarrow> string \<Rightarrow> string option" where
  "dec_bytes VNull old = Some []"
| "dec_bytes (VStr s) old = b64_decode (unquote s)"
| "dec_bytes (VArr vs) old = dec_elems dec_byte (char_of (0 :: int)) vs old"
| "dec_bytes _ old = None"

text \<open>
  A key selects the field with exactly its name, or else one that differs from it only by
  case folding; next to the letters of ASCII two further runes fold to one of them.
\<close>

definition fold_rune :: "rune \<Rightarrow> rune" where
  "fold_rune r = (if 97 \<le> r \<and> r \<le> 122 then r - 32 else if r = 383 then 83 else if r = 8490 then 75 else r)"

definition fold_name :: "string \<Rightarrow> rune list" where
  "fold_name s = map fold_rune (runes s)"

definition find_field :: "string list \<Rightarrow> string \<Rightarrow> string option" where
  "find_field names key =
     (if key \<in> set names then Some key else find (\<lambda>n. fold_name n = fold_name key) names)"

fun decode_fields ::
  "bool \<Rightarrow> string list \<Rightarrow> (string \<Rightarrow> jvalue \<Rightarrow> 'a \<Rightarrow> 'a option) \<Rightarrow> (string \<times> jvalue) list \<Rightarrow> 'a \<Rightarrow> 'a option" where
  "decode_fields strict names put [] a = Some a"
| "decode_fields strict names put ((k, v) # fs) a =
     (case find_field names (unquote k) of
        None \<Rightarrow> if strict then None else decode_fields strict names put fs a
      | Some n \<Rightarrow> (case put n v a of None \<Rightarrow> None | Some b \<Rightarrow> decode_fields strict names put fs b))"

fun decode_struct ::
  "bool \<Rightarrow> string list \<Rightarrow> (string \<Rightarrow> jvalue \<Rightarrow> 'a \<Rightarrow> 'a option) \<Rightarrow> jvalue \<Rightarrow> 'a \<Rightarrow> 'a option" where
  "decode_struct strict names put VNull a = Some a"
| "decode_struct strict names put (VObj fs) a = decode_fields strict names put fs a"
| "decode_struct strict names put _ a = None"

section \<open>Runes and bytes\<close>

lemma byte_of_bounds [simp]: "0 \<le> byte_of c" "byte_of c < 256"
  using of_char_mod_256 [of c, where ?'a = int] by (metis pos_mod_sign zero_less_numeral, metis pos_mod_bound zero_less_numeral)

lemma char_of_byte_of [simp]: "char_of (byte_of c) = c"
  by simp

lemma byte_of_char_of: "0 \<le> n \<Longrightarrow> n < 256 \<Longrightarrow> byte_of (char_of n) = n"
  by simp

text \<open>A properly decoded rune is encoded by the bytes it was read from, and they alone determine it.\<close>

lemma take_nth: "n < length s \<Longrightarrow> take (Suc n) s = take n s @ [s ! n]"
  by (simp add: take_Suc_conv_app_nth)

lemma byte_at_take: "i < n \<Longrightarrow> n \<le> length s \<Longrightarrow> byte_at (take n s @ t) i = byte_at s i"
  by (simp add: byte_at_def nth_append)

lemma char_byte_at: "i < length s \<Longrightarrow> char_of (byte_at s i) = s ! i"
  by (simp add: byte_at_def)

definition decodes_to :: "string \<Rightarrow> rune \<Rightarrow> nat \<Rightarrow> bool" where
  "decodes_to s r w \<longleftrightarrow> s \<noteq> [] \<and> decode_rune s = (r, w) \<and> \<not> (r = RuneError \<and> w = 1)"


lemma sextet:
  fixes q x :: int
  assumes "0 \<le> x" and "x < 64"
  shows "(q * 64 + x) div 64 = q" and "(q * 64 + x) mod 64 = x"
  using assms by (auto simp: div_add1_eq mod_add_eq [symmetric])

lemma div_sextets: "(r :: int) div 4096 = r div 64 div 64" "r div 262144 = r div 64 div 64 div 64"
  by (simp_all add: zdiv_zmult2_eq [symmetric])

lemma take_bytes:
  "1 < length s \<Longrightarrow> take 2 s = [s ! 0, s ! 1]"
  "2 < length s \<Longrightarrow> take 3 s = [s ! 0, s ! 1, s ! 2]"
  "3 < length s \<Longrightarrow> take 4 s = [s ! 0, s ! 1, s ! 2, s ! 3]"
  by (auto simp: numeral_eq_Suc Suc_le_eq [symmetric] Suc_le_length_iff)

lemma encode_decode_rune:
  assumes "decodes_to s r w"
  shows "encode_rune r = take w s"
proof -
  have ne: "s \<noteq> []" and d: "decode_rune s = (r, w)" and ok: "\<not> (r = RuneError \<and> w = 1)"
    using assms by (auto simp: decodes_to_def)
  define b where "b i = byte_at s i" for i
  have bb: "0 \<le> b i" "b i < 256" for i by (simp_all add: b_def byte_at_def)
  have ch: "i < length s \<Longrightarrow> s ! i = char_of (b i)" for i by (simp add: b_def byte_at_def)
  have ln: "0 < length s" using ne by simp
  consider (1) "b 0 < 128" "r = b 0" "w = 1"
    | (2) "194 \<le> b 0" "b 0 < 224" "cont_byte (b 1)" "r = (b 0 - 192) * 64 + (b 1 - 128)" "w = 2"
    | (3) "224 \<le> b 0" "b 0 < 240" "second_ok (b 0) (b 1)" "cont_byte (b 2)"
        "r = (b 0 - 224) * 4096 + (b 1 - 128) * 64 + (b 2 - 128)" "w = 3"
    | (4) "240 \<le> b 0" "b 0 < 245" "second_ok (b 0) (b 1)" "cont_byte (b 2)" "cont_byte (b 3)"
        "r = (b 0 - 240) * 262144 + (b 1 - 128) * 4096 + (b 2 - 128) * 64 + (b 3 - 128)" "w = 4"
    using d ok ne unfolding decode_rune_def Let_def b_def by (auto split: if_splits)
  then show ?thesis
  proof cases
    case 1
    then show ?thesis using ln ch [of 0] by (cases s) (auto simp: encode_rune_def b_def)
  next
    case 2
    have l: "1 < length s" using 2(3) cont_byte_at unfolding b_def by blast
    have r: "r = (b 0 - 192) * 64 + (b 1 - 128)" using 2 by simp
    have x: "0 \<le> b 1 - 128" "b 1 - 128 < 64" using 2 by (auto simp: cont_byte_def)
    have "128 \<le> r" "r < 2048" using 2 x by auto
    moreover have "r div 64 = b 0 - 192" "r mod 64 = b 1 - 128" unfolding r by (rule sextet [OF x])+
    ultimately have "encode_rune r = [char_of (b 0), char_of (b 1)]" by (simp add: encode_rune_def)
    then show ?thesis using l ln 2(5) ch [of 0] ch [of 1] take_bytes(1) [OF l] by simp
  next
    case 3
    have c1: "cont_byte (b 1)" using 3(3) by (auto simp: second_ok_def cont_byte_def split: if_splits)
    have l: "2 < length s" using 3(4) cont_byte_at unfolding b_def by blast
    have rng: "2048 \<le> r" "r < 65536" "\<not> (55296 \<le> r \<and> r < 57344)"
      using 3 c1 by (auto simp: cont_byte_def second_ok_def split: if_splits)
    have r: "r = ((b 0 - 224) * 64 + (b 1 - 128)) * 64 + (b 2 - 128)" using 3 by simp
    have x: "0 \<le> b 1 - 128" "b 1 - 128 < 64" "0 \<le> b 2 - 128" "b 2 - 128 < 64"
      using 3 c1 by (auto simp: cont_byte_def)
    have "r div 64 = (b 0 - 224) * 64 + (b 1 - 128)" "r mod 64 = b 2 - 128"
      unfolding r by (rule sextet [OF x(3,4)])+
    then have "r div 4096 = b 0 - 224" "r div 64 mod 64 = b 1 - 128" "r mod 64 = b 2 - 128"
      by (simp_all only: div_sextets sextet [OF x(1,2)])
    then have "encode_rune r = [char_of (b 0), char_of (b 1), char_of (b 2)]"
      using rng by (auto simp: encode_rune_def)
    then show ?thesis using l ln 3(6) ch [of 0] ch [of 1] ch [of 2] take_bytes(2) [OF l] by simp
  next
    case 4
    have c1: "cont_byte (b 1)" using 4(3) by (auto simp: second_ok_def cont_byte_def split: if_splits)
    have l: "3 < length s" using 4(5) cont_byte_at unfolding b_def by blast
    have rng: "65536 \<le> r" "r < 1114112"
      using 4 c1 by (auto simp: cont_byte_def second_ok_def split: if_splits)
    have r: "r = (((b 0 - 240) * 64 + (b 1 - 128)) * 64 + (b 2 - 128)) * 64 + (b 3 - 128)" using 4 by simp
    have x: "0 \<le> b 1 - 128" "b 1 - 128 < 64" "0 \<le> b 2 - 128" "b 2 - 128 < 64" "0 \<le> b 3 - 128" "b 3 - 128 < 64"
      using 4 c1 by (auto simp: cont_byte_def)
    have d1: "r div 64 = ((b 0 - 240) * 64 + (b 1 - 128)) * 64 + (b 2 - 128)" "r mod 64 = b 3 - 128"
      unfolding r by (rule sextet [OF x(5,6)])+
    then have d2: "r div 4096 = (b 0 - 240) * 64 + (b 1 - 128)" "r div 64 mod 64 = b 2 - 128"
      by (simp_all only: div_sextets sextet [OF x(3,4)])
    then have q: "r div 262144 = b 0 - 240" "r div 4096 mod 64 = b 1 - 128"
      by (simp_all only: div_sextets sextet [OF x(1,2)])
    have "encode_rune r = [char_of (b 0), char_of (b 1), char_of (b 2), char_of (b 3)]"
      unfolding encode_rune_def d1(2) d2(2) q using rng by simp
    then show ?thesis using l ln 4(7) ch [of 0] ch [of 1] ch [of 2] ch [of 3] take_bytes(3) [OF l] by simp
  qed
qed

lemma decode_rune_prefix:
  assumes "decodes_to s r w"
  shows "decode_rune (take w s @ t) = (r, w)"
proof -
  have ne: "s \<noteq> []" and d: "decode_rune s = (r, w)" and ok: "\<not> (r = RuneError \<and> w = 1)"
    using assms by (auto simp: decodes_to_def)
  have w: "0 < w" "w \<le> length s" using decode_rune_width_pos [OF ne] decode_rune_width_le [of s] d by auto
  then have ne': "take w s @ t \<noteq> []" by auto
  have eq: "i < w \<Longrightarrow> byte_at (take w s @ t) i = byte_at s i" for i using w(2) by (simp add: byte_at_take)
  from d ok show ?thesis
    using eq [of 0] eq [of 1] eq [of 2] eq [of 3] ne ne' w
    unfolding decode_rune_def Let_def by (auto split: if_splits)
qed


text \<open>The encoder writes one piece per rune; scanning and unquoting take it as a whole.\<close>

lemma valid_utf8_step:
  assumes "valid_utf8 s" and "s \<noteq> []"
  obtains r w where "decodes_to s r w" "valid_utf8 (drop w s)" "json_escape s = escape_rune_html r @ json_escape (drop w s)"
proof -
  obtain r w where d: "decode_rune s = (r, w)" by (cases "decode_rune s") auto
  then have "\<not> (r = RuneError \<and> w = 1)" "valid_utf8 (drop w s)"
    using assms valid_utf8.simps [of s] by auto
  moreover have "json_escape s = escape_rune_html r @ json_escape (drop w s)"
    using assms(2) d calculation(1) json_escape.simps [of s] by (auto simp: Let_def)
  ultimately show ?thesis using that d assms(2) by (simp add: decodes_to_def)
qed

lemma scan_string_plain:
  "list_all (\<lambda>c. 32 \<le> byte_of c \<and> c \<noteq> quote_char \<and> c \<noteq> backslash) p \<Longrightarrow> scan_string (p @ u) = consed p (scan_string u)"
proof (induction p)
  case (Cons c p)
  then show ?case by (cases "scan_string u") (auto simp: consed_def)
qed (simp add: consed_def option.map_ident split_def)

lemma hex_digit_hex: "0 \<le> n \<Longrightarrow> n < 16 \<Longrightarrow> hex_val (hex_digit n) = Some n"
  by (auto simp: hex_val_def hex_digit_def Let_def)

lemma u4_low: "0 \<le> r \<Longrightarrow> r < 256 \<Longrightarrow> u4 (''00'' @ [hex_digit (r div 16), hex_digit (r mod 16)] @ u) = r"
  by (simp add: u4_def hex_digit_hex hex_val_def [of "CHR ''0''"])

lemma unquote_u4:
  "\<not> (55296 \<le> u4 u \<and> u4 u < 57344) \<Longrightarrow> unquote (backslash # CHR ''u'' # u) = encode_rune (u4 u) @ unquote (drop 4 u)"
  by (subst unquote.simps) (auto simp: Let_def)

lemma unquote_escape: "e \<noteq> CHR ''u'' \<Longrightarrow> unquote (backslash # e # u) = unescape e # unquote u"
  by (subst unquote.simps) simp


definition short_escapes :: string where
  "short_escapes = [quote_char, backslash, CHR ''b'', CHR ''f'', CHR ''n'', CHR ''r'', CHR ''t'']"

lemma escape_rune_html_cases:
  assumes "decodes_to s r w"
  obtains (plain) "escape_rune_html r = encode_rune r" "r \<noteq> 34" "r \<noteq> 92" "32 \<le> r"
  | (u4) "escape_rune_html r = backslash # ''u00'' @ [hex_digit (r div 16), hex_digit (r mod 16)]" "0 \<le> r" "r < 64"
  | (sep) "escape_rune_html r = backslash # ''u2028'' \<and> r = 8232 \<or> escape_rune_html r = backslash # ''u2029'' \<and> r = 8233"
  | (esc) e where "escape_rune_html r = [backslash, e]" "e \<in> set short_escapes" "encode_rune r = [unescape e]"
proof -
  have nn: "0 \<le> r"
  proof (cases "r < 128")
    case True
    then show ?thesis using assms decode_rune_small [of s] by (auto simp: decodes_to_def)
  qed simp
  consider "r \<in> {34, 92, 8, 12, 10, 13, 9}" | "r \<in> {60, 62, 38}" | "r = 8232 \<or> r = 8233"
    | "r < 32" "r \<notin> {8, 12, 10, 13, 9}" | "32 \<le> r" "r \<notin> {34, 92, 60, 62, 38, 8232, 8233}" by fastforce
  then show ?thesis
  proof cases
    case 1
    then show ?thesis
      by (intro esc [of "if r = 34 then quote_char else if r = 92 then backslash else if r = 8 then CHR ''b''
                   else if r = 12 then CHR ''f'' else if r = 10 then CHR ''n'' else if r = 13 then CHR ''r'' else CHR ''t''"])
        (auto simp: escape_rune_html_def escape_rune_def unescape_def short_escapes_def char_of_def)
  next
    case 2
    then show ?thesis by (intro u4) (auto simp: escape_rune_html_def)
  next
    case 3
    then show ?thesis by (intro sep) (auto simp: escape_rune_html_def escape_rune_def)
  next
    case 4
    then show ?thesis using nn by (intro u4) (auto simp: escape_rune_html_def escape_rune_def)
  next
    case 5
    then show ?thesis by (intro plain) (auto simp: escape_rune_html_def escape_rune_def)
  qed
qed

lemma encode_rune_high:
  assumes "128 \<le> r"
  shows "list_all (\<lambda>c. 128 \<le> byte_of c) (encode_rune r)"
proof -
  have m: "0 \<le> x mod 64 \<and> x mod 64 < 64" for x :: int by simp
  have d: "128 \<le> r \<Longrightarrow> r < 2048 \<Longrightarrow> 0 \<le> r div 64 \<and> r div 64 < 32"
    "2048 \<le> r \<Longrightarrow> r < 65536 \<Longrightarrow> 0 \<le> r div 4096 \<and> r div 4096 < 16"
    "65536 \<le> r \<Longrightarrow> r < 1114112 \<Longrightarrow> 0 \<le> r div 262144 \<and> r div 262144 < 5" by auto
  show ?thesis using assms m d by (auto simp: encode_rune_def mod_pos_pos_trivial)
qed

text \<open>The bytes of a rune that is written as it is.\<close>

lemma decoded_bytes:
  assumes "decodes_to s r w" and "32 \<le> r" "r \<noteq> 34" "r \<noteq> 92"
  shows "list_all (\<lambda>c. 32 \<le> byte_of c \<and> c \<noteq> quote_char \<and> c \<noteq> backslash) (take w s)"
proof (cases "r < 128")
  case True
  obtain c t where c: "s = c # t" "byte_of c = r" "w = 1"
    using True assms(1) decode_rune_small [of s] by (auto simp: decodes_to_def)
  then show ?thesis using assms(2-4) by auto
next
  case False
  have "128 \<le> byte_of c \<Longrightarrow> 32 \<le> byte_of c \<and> c \<noteq> quote_char \<and> c \<noteq> backslash" for c by auto
  moreover have "list_all (\<lambda>c. 128 \<le> byte_of c) (encode_rune r)"
    using False by (simp add: encode_rune_high)
  ultimately show ?thesis using encode_decode_rune [OF assms(1)] by (auto simp: list_all_iff)
qed

lemma unquote_plain:
  assumes "decodes_to s r w" and "r \<noteq> 92"
  shows "unquote (take w s @ u) = take w s @ unquote u"
proof -
  note pre = decode_rune_prefix [OF assms(1), of u]
  have ok: "\<not> (r = RuneError \<and> w = 1)" and w: "0 < w" "w \<le> length s"
    using assms(1) decode_rune_width_pos [of s] decode_rune_width_le [of s] by (auto simp: decodes_to_def)
  obtain c t where ct: "take w s @ u = c # t" using w by (cases "take w s @ u") auto
  have "c \<noteq> backslash"
    using pre ct assms(2) by (cases "c = backslash") auto
  then have "unquote (take w s @ u)
    = (if r = RuneError \<and> w = 1 then encode_rune RuneError else take w (take w s @ u)) @ unquote (drop w (take w s @ u))"
    using ct pre by (subst unquote.simps) simp
  then show ?thesis using ok w by (auto simp: min_def)
qed

lemma escape_piece:
  assumes "decodes_to s r w"
  shows "scan_string (escape_rune_html r @ u) = consed (escape_rune_html r) (scan_string u)"
    and "unquote (escape_rune_html r @ u) = take w s @ unquote u"
proof -
  note enc = encode_decode_rune [OF assms]
  from assms have "scan_string (escape_rune_html r @ u) = consed (escape_rune_html r) (scan_string u)
    \<and> unquote (escape_rune_html r @ u) = take w s @ unquote u"
  proof (cases rule: escape_rune_html_cases)
    case plain
    have "scan_string (take w s @ u) = consed (take w s) (scan_string u)"
      using decoded_bytes [OF assms plain(4,2,3)] by (rule scan_string_plain)
    moreover have "unquote (take w s @ u) = take w s @ unquote u"
      using assms plain(3) by (rule unquote_plain)
    ultimately show ?thesis using plain(1) enc by simp
  next
    case u4
    have h: "is_hex (hex_digit (r div 16))" "is_hex (hex_digit (r mod 16))" "is_hex (CHR ''0'')"
      using u4(2,3) by (simp_all add: is_hex_def hex_digit_hex hex_val_def [of "CHR ''0''"])
    have "encode_rune r = take w s" by (rule enc)
    then show ?thesis using u4 h u4_low [of r u] unquote_u4 [of "''00'' @ [hex_digit (r div 16), hex_digit (r mod 16)] @ u"]
      by (simp add: consed_def)
  next
    case sep
    have "u4 (''2028'' @ u) = 8232" "u4 (''2029'' @ u) = 8233"
      by (simp_all add: u4_def hex_val_def Let_def)
    then show ?thesis using sep enc unquote_u4 [of "''2028'' @ u"] unquote_u4 [of "''2029'' @ u"]
      by (auto simp: is_hex_def hex_val_def Let_def)
  next
    case (esc e)
    then show ?thesis using enc unquote_escape [of e u] by (auto simp: short_escapes_def)
  qed
  then show "scan_string (escape_rune_html r @ u) = consed (escape_rune_html r) (scan_string u)"
    and "unquote (escape_rune_html r @ u) = take w s @ unquote u" by auto
qed


lemma scan_string_escape: "scan_string (json_escape s @ quote_char # t) = Some (json_escape s, t)"
proof (induction s rule: json_escape.induct)
  case (1 s)
  show ?case
  proof (cases "s = []")
    case False
    obtain r w where d: "decode_rune s = (r, w)" by (cases "decode_rune s") auto
    show ?thesis
    proof (cases "r = RuneError \<and> w = 1")
      case True
      have "is_hex (CHR ''f'')" "is_hex (CHR ''d'')" by (simp_all add: is_hex_def hex_val_def Let_def)
      then show ?thesis using True False d 1 by (simp add: json_escape.simps [of s] consed_def)
    next
      case n: False
      then have "decodes_to s r w" using False d by (simp add: decodes_to_def)
      moreover have "json_escape s = escape_rune_html r @ json_escape (drop w s)"
        using False d n json_escape.simps [of s] by (auto simp: Let_def)
      ultimately show ?thesis using 1 [OF False d [symmetric]] escape_piece(1) [of s r w] by (simp add: consed_def)
    qed
  qed (simp add: json_escape.simps [of "[]"])
qed

lemma unquote_Nil [simp]: "unquote [] = []"
  by (simp add: unquote.simps)

text \<open>What the encoder writes for a string of valid UTF-8 is read back as that string.\<close>

lemma unquote_json_escape: "valid_utf8 s \<Longrightarrow> unquote (json_escape s @ u) = s @ unquote u"
proof (induction "length s" arbitrary: s rule: less_induct)
  case less
  show ?case
  proof (cases "s = []")
    case False
    then obtain r w where rw: "decodes_to s r w" "valid_utf8 (drop w s)"
        "json_escape s = escape_rune_html r @ json_escape (drop w s)"
      using less.prems valid_utf8_step by blast
    have "length (drop w s) < length s"
      using rw(1) decode_rune_width_pos [of s] False by (auto simp: decodes_to_def)
    then show ?thesis
      using less.hyps rw escape_piece(2) [OF rw(1), of "json_escape (drop w s) @ u"] by simp
  qed (simp add: json_escape.simps [of "[]"])
qed


section \<open>Printing and parsing\<close>

fun wf_jvalue :: "jvalue \<Rightarrow> bool" where
  "wf_jvalue VNull = True"
| "wf_jvalue (VBool b) = True"
| "wf_jvalue (VNum s) = (scan_number s = Some (s, []))"
| "wf_jvalue (VStr s) = (scan_string (s @ [quote_char]) = Some (s, []))"
| "wf_jvalue (VArr vs) = list_all wf_jvalue vs"
| "wf_jvalue (VObj fs) = list_all (\<lambda>(k, v). scan_string (k @ [quote_char]) = Some (k, []) \<and> wf_jvalue v) fs"

fun jdepth :: "jvalue \<Rightarrow> nat" where
  "jdepth (VArr vs) = Suc (fold max (map jdepth vs) 0)"
| "jdepth (VObj fs) = Suc (fold max (map (\<lambda>(k, v). jdepth v) fs) 0)"
| "jdepth _ = 0"

lemma fold_max_le: "fold max xs (a :: nat) \<le> n \<longleftrightarrow> a \<le> n \<and> list_all (\<lambda>x. x \<le> n) xs"
  by (induction xs arbitrary: a) auto

lemma consed_Some: "consed p r = Some (a, t) \<longleftrightarrow> (\<exists>b. r = Some (b, t) \<and> a = p @ b)"
  by (auto simp: consed_def)

lemma scan_string_extend: "scan_string x = Some (a, r) \<Longrightarrow> scan_string (x @ t) = Some (a, r @ t)"
proof (induction x arbitrary: a rule: scan_string.induct)
  case (2 c s)
  show ?case
  proof (cases "c = quote_char \<or> byte_of c < 32 \<or> c \<noteq> backslash")
    case True
    then show ?thesis using 2 by (auto simp: consed_Some split: if_splits)
  next
    case False
    then obtain e s' where s: "s = e # s'" using 2(4) by (cases s) auto
    show ?thesis
    proof (cases "e = CHR ''u''")
      case True
      then obtain h1 h2 h3 h4 u where u: "s' = h1 # h2 # h3 # h4 # u"
        using 2(4) False s by (auto split: list.splits)
      then show ?thesis using 2(2) 2(4) False True s by (auto simp: consed_Some split: if_splits)
    next
      case n: False
      then show ?thesis using 2(1) 2(4) False s by (auto simp: consed_Some split: if_splits)
    qed
  qed
qed simp

text \<open>A number ends where the text around it goes on with a separator.\<close>

definition delimited :: "string \<Rightarrow> bool" where
  "delimited t \<longleftrightarrow> t = [] \<or> hd t \<in> {CHR '','', CHR '']'', CHR ''}''}"

lemma delimited_Cons [simp]: "delimited (c # t) \<longleftrightarrow> c = CHR '','' \<or> c = CHR '']'' \<or> c = CHR ''}''"
  by (simp add: delimited_def)

lemma delimited_digits:
  assumes "delimited t"
  shows "takeWhile is_digit (s @ t) = takeWhile is_digit s" "dropWhile is_digit (s @ t) = dropWhile is_digit s @ t"
proof -
  have "takeWhile is_digit t = []" "dropWhile is_digit t = t"
    using assms by (auto simp: delimited_def is_digit_def split: list.splits) (cases t; auto simp: is_digit_def)+
  then show "takeWhile is_digit (s @ t) = takeWhile is_digit s" "dropWhile is_digit (s @ t) = dropWhile is_digit s @ t"
    by (induction s) auto
qed

lemma number_extend:
  assumes t: "delimited t"
  shows "num_digits x = Some (a, r) \<Longrightarrow> num_digits (x @ t) = Some (a, r @ t)"
    and "num_int x = Some (a, r) \<Longrightarrow> num_int (x @ t) = Some (a, r @ t)"
    and "num_frac x = Some (a, r) \<Longrightarrow> num_frac (x @ t) = Some (a, r @ t)"
    and "num_exp x = Some (a, r) \<Longrightarrow> num_exp (x @ t) = Some (a, r @ t)"
proof -
  show dig: "num_digits x = Some (a, r) \<Longrightarrow> num_digits (x @ t) = Some (a, r @ t)" for x a r
    using t by (auto simp: num_digits_def delimited_digits split: if_splits)
  show "num_int x = Some (a, r) \<Longrightarrow> num_int (x @ t) = Some (a, r @ t)"
    using delimited_digits [OF t, of x] by (cases x) (auto simp: num_int_def split: if_splits)
  show "num_frac x = Some (a, r) \<Longrightarrow> num_frac (x @ t) = Some (a, r @ t)"
    using t dig by (cases x; cases t) (auto simp: num_frac_def consed_Some split: if_splits)
  show "num_exp x = Some (a, r) \<Longrightarrow> num_exp (x @ t) = Some (a, r @ t)"
    using t dig
    by (cases x; cases t) (fastforce simp: num_exp_def consed_Some split: if_splits list.splits)+
qed

lemma scan_number_extend:
  assumes "delimited t" and "scan_number x = Some (a, r)"
  shows "scan_number (x @ t) = Some (a, r @ t)"
proof -
  have ext: "num_abs x = Some (a, r) \<Longrightarrow> num_abs (x @ t) = Some (a, r @ t)" for x a r
    using number_extend [OF assms(1)] by (fastforce simp: num_abs_def consed_Some bind_eq_Some_conv)
  show ?thesis
    using assms(2) ext [of "tl x"] ext [of x] by (cases x) (auto simp: scan_number_def consed_Some split: if_splits)
qed


lemma scan_number_first:
  assumes "scan_number s = Some (a, r)"
  obtains c u where "s = c # u" "c = CHR ''-'' \<or> is_digit c"
proof -
  have "num_abs x = Some (b, q) \<Longrightarrow> \<exists>c u. x = c # u \<and> is_digit c" for x b q
    by (cases x) (auto simp: num_abs_def num_int_def bind_eq_Some_conv is_digit_def split: if_splits)
  then show ?thesis using assms that by (cases s) (auto simp: scan_number_def split: if_splits)
qed

lemma marshal_first:
  assumes "wf_jvalue v"
  obtains c s where "marshal v = c # s" "\<not> is_ws c" "c \<noteq> CHR '']''" "c \<noteq> CHR ''}''"
proof (cases v)
  case (VNum n)
  then obtain c u where "n = c # u" "c = CHR ''-'' \<or> is_digit c"
    using assms by (auto elim: scan_number_first)
  moreover from this have "\<not> is_ws c" "c \<noteq> CHR '']''" "c \<noteq> CHR ''}''" by (auto simp: is_ws_def is_digit_def)
  ultimately show ?thesis using that VNum by auto
next
  case (VBool b)
  then show ?thesis using that by (cases b) (auto simp: is_ws_def)
qed (use that in \<open>auto simp: is_ws_def\<close>)

lemma skip_ws_marshal: "wf_jvalue v \<Longrightarrow> skip_ws (marshal v @ t) = marshal v @ t"
  by (elim marshal_first) (simp add: skip_ws_def)

lemma skip_ws_Cons [simp]: "\<not> is_ws c \<Longrightarrow> skip_ws (c # s) = c # s"
  by (simp add: skip_ws_def)

lemma not_ws [simp]:
  "\<not> is_ws (CHR '','')" "\<not> is_ws (CHR '']'')" "\<not> is_ws (CHR ''}'')" "\<not> is_ws (CHR '':'')" "\<not> is_ws quote_char"
  by (simp_all add: is_ws_def)

definition scans :: "jvalue \<Rightarrow> bool" where
  "scans v \<longleftrightarrow>
     (\<forall>n d t. 2 * length (marshal v) \<le> n \<longrightarrow> d + int (jdepth v) \<le> maxNestingDepth \<longrightarrow> delimited t
        \<longrightarrow> scan_value n d (marshal v @ t) = Some (v, t))"

lemma marshal_nonempty: "wf_jvalue v \<Longrightarrow> marshal v \<noteq> []"
  by (elim marshal_first) simp

lemma scans_elems:
  assumes "list_all wf_jvalue vs" and "\<forall>v \<in> set vs. scans v" and "vs \<noteq> []"
    and "2 * length (join (map marshal vs)) + 1 \<le> n" and "\<forall>v \<in> set vs. d + int (jdepth v) \<le> maxNestingDepth"
  shows "scan_elems n d (join (map marshal vs) @ CHR '']'' # t) = Some (vs, t)"
  using assms
proof (induction "map marshal vs" arbitrary: vs n rule: join.induct)
  case (2 x)
  then obtain v where v: "vs = [v]" by (cases vs) auto
  obtain m where n: "n = Suc m" using 2 by (cases n) auto
  have "scan_value m d (marshal v @ CHR '']'' # t) = Some (v, CHR '']'' # t)"
    using 2 v n by (auto simp: scans_def)
  then show ?case using v n 2(2) by (simp add: skip_ws_marshal)
next
  case (3 x y ys)
  then obtain v w vs' where v: "vs = v # w # vs'" by (auto simp: Cons_eq_map_conv)
  obtain m where n: "n = Suc m" using 3 by (cases n) auto
  have "scan_value m d (marshal v @ CHR '','' # join (map marshal (w # vs')) @ CHR '']'' # t)
    = Some (v, CHR '','' # join (map marshal (w # vs')) @ CHR '']'' # t)"
    using 3 v n by (auto simp: scans_def)
  moreover have "scan_elems m d (join (map marshal (w # vs')) @ CHR '']'' # t) = Some (w # vs', t)"
    using 3(1) [of "w # vs'" m] 3(2-) v n by auto
  ultimately show ?case using v n 3(3) by (simp add: skip_ws_marshal)
qed simp

abbreviation marshal_member :: "string \<times> jvalue \<Rightarrow> string" where
  "marshal_member \<equiv> (\<lambda>(k, v). quote_char # k @ [quote_char, CHR '':''] @ marshal v)"

lemma scans_members:
  assumes "list_all (\<lambda>(k, v). scan_string (k @ [quote_char]) = Some (k, []) \<and> wf_jvalue v) fs"
    and "\<forall>kv \<in> set fs. scans (snd kv)" and "fs \<noteq> []"
    and "2 * length (join (map marshal_member fs)) + 1 \<le> n" and "\<forall>kv \<in> set fs. d + int (jdepth (snd kv)) \<le> maxNestingDepth"
  shows "scan_members n d (join (map marshal_member fs) @ CHR ''}'' # t) = Some (fs, t)"
  using assms
proof (induction "map marshal_member fs" arbitrary: fs n rule: join.induct)
  case (2 x)
  then obtain k v where v: "fs = [(k, v)]" by (cases fs) auto
  obtain m where n: "n = Suc m" using 2 by (cases n) auto
  have "scan_value m d (marshal v @ CHR ''}'' # t) = Some (v, CHR ''}'' # t)"
    using 2 v n by (auto simp: scans_def)
  moreover have "scan_string (k @ quote_char # CHR '':'' # marshal v @ CHR ''}'' # t) = Some (k, CHR '':'' # marshal v @ CHR ''}'' # t)"
    using 2(2) v scan_string_extend [of "k @ [quote_char]" k "[]"] by simp
  ultimately show ?case using v n 2(2) by (simp add: skip_ws_marshal)
next
  case (3 x y ys)
  then obtain k v w fs' where v: "fs = (k, v) # w # fs'" by (auto simp: Cons_eq_map_conv)
  obtain m where n: "n = Suc m" using 3 by (cases n) auto
  let ?r = "join (map marshal_member (w # fs')) @ CHR ''}'' # t"
  have "scan_value m d (marshal v @ CHR '','' # ?r) = Some (v, CHR '','' # ?r)"
    using 3 v n by (auto simp: scans_def)
  moreover have "scan_members m d ?r = Some (w # fs', t)"
    using 3(1) [of "w # fs'" m] 3(2-) v n by auto
  moreover have "scan_string (k @ quote_char # CHR '':'' # marshal v @ CHR '','' # ?r) = Some (k, CHR '':'' # marshal v @ CHR '','' # ?r)"
    using 3(3) v scan_string_extend [of "k @ [quote_char]" k "[]"] by simp
  ultimately show ?case using v n 3(3) by (simp add: skip_ws_marshal)
qed simp


lemma scansI:
  assumes "wf_jvalue v"
    and "\<And>m d t. 2 * length (marshal v) \<le> Suc m \<Longrightarrow> d + int (jdepth v) \<le> maxNestingDepth \<Longrightarrow> delimited t
      \<Longrightarrow> scan_value (Suc m) d (marshal v @ t) = Some (v, t)"
  shows "scans v"
  unfolding scans_def
proof (intro allI impI)
  fix n d t
  assume n: "2 * length (marshal v) \<le> n" and "d + int (jdepth v) \<le> maxNestingDepth" "delimited t"
  moreover obtain m where "n = Suc m" using n marshal_nonempty [OF assms(1)] by (cases n) auto
  ultimately show "scan_value n d (marshal v @ t) = Some (v, t)" using assms(2) by simp
qed

text \<open>What the encoder prints, the parser reads back.\<close>

lemma scans_wf: "wf_jvalue v \<Longrightarrow> scans v"
proof (induction v)
  case (VBool b)
  show ?case by (rule scansI) (auto simp: scan_word_def)
next
  case VNull
  show ?case by (rule scansI) (auto simp: scan_word_def)
next
  case (VNum s)
  obtain c u where s: "s = c # u" "c = CHR ''-'' \<or> is_digit c" using VNum by (auto elim: scan_number_first)
  have plain: "c \<notin> {quote_char, CHR ''['', CHR ''{'', CHR ''t'', CHR ''f'', CHR ''n''}"
    using s(2) by (auto simp: is_digit_def)
  show ?case
  proof (rule scansI [OF VNum])
    fix m d t
    assume t: "delimited t"
    have "scan_number (s @ t) = Some (s, t)" using scan_number_extend [OF t, of s s "[]"] VNum by simp
    then show "scan_value (Suc m) d (marshal (VNum s) @ t) = Some (VNum s, t)" using plain s(1) by simp
  qed
next
  case (VStr s)
  have "scan_string (s @ quote_char # t) = Some (s, t)" for t
    using VStr scan_string_extend [of "s @ [quote_char]" s "[]" t] by simp
  then show ?case using VStr by (intro scansI) auto
next
  case (VArr vs)
  have "scan_value n d (marshal (VArr vs) @ t) = Some (VArr vs, t)"
    if n: "2 * length (marshal (VArr vs)) \<le> n" and d: "d + int (jdepth (VArr vs)) \<le> maxNestingDepth" for n d t
  proof -
    obtain m where m: "n = Suc m" using n by (cases n) auto
    show ?thesis
    proof (cases vs)
      case Nil
      then show ?thesis using m d by simp
    next
      case (Cons v vs')
      have "\<forall>v \<in> set vs. jdepth v \<le> fold max (map jdepth vs) 0"
        using fold_max_le [of "map jdepth vs" 0 "fold max (map jdepth vs) 0"] by (auto simp: list_all_iff)
      then have "\<forall>v \<in> set vs. d + 1 + int (jdepth v) \<le> maxNestingDepth"
        using d by (auto intro: order_trans)
      then have el: "scan_elems m (d + 1) (join (map marshal vs) @ CHR '']'' # t) = Some (vs, t)"
        using VArr Cons n m by (intro scans_elems) (auto simp: list_all_iff)
      obtain c s where c: "marshal v = c # s" "\<not> is_ws c" "c \<noteq> CHR '']''"
        using VArr.prems Cons by (auto elim: marshal_first)
      then obtain u where "join (map marshal vs) = c # u" using Cons by (cases vs') auto
      then show ?thesis using el m d c by simp
    qed
  qed
  then show ?case by (simp add: scans_def)
next
  case (VObj fs)
  have "scan_value n d (marshal (VObj fs) @ t) = Some (VObj fs, t)"
    if n: "2 * length (marshal (VObj fs)) \<le> n" and d: "d + int (jdepth (VObj fs)) \<le> maxNestingDepth" for n d t
  proof -
    obtain m where m: "n = Suc m" using n by (cases n) auto
    show ?thesis
    proof (cases fs)
      case Nil
      then show ?thesis using m d by simp
    next
      case (Cons f fs')
      have "\<forall>kv \<in> set fs. jdepth (snd kv) \<le> fold max (map (\<lambda>(k, v). jdepth v) fs) 0"
        using fold_max_le [of "map (\<lambda>(k, v). jdepth v) fs" 0 "fold max (map (\<lambda>(k, v). jdepth v) fs) 0"]
        by (auto simp: list_all_iff split_def)
      then have "\<forall>kv \<in> set fs. d + 1 + int (jdepth (snd kv)) \<le> maxNestingDepth"
        using d by (auto intro: order_trans)
      moreover have "\<forall>kv \<in> set fs. scans (snd kv)"
        using VObj by (fastforce simp: list_all_iff)
      ultimately have el: "scan_members m (d + 1) (join (map marshal_member fs) @ CHR ''}'' # t) = Some (fs, t)"
        using VObj.prems Cons n m by (intro scans_members) auto
      obtain u where "join (map marshal_member fs) = quote_char # u" using Cons by (cases f; cases fs') auto
      then show ?thesis using el m d by simp
    qed
  qed
  then show ?case by (simp add: scans_def)
qed

lemma parse_marshal:
  assumes "wf_jvalue v" and "int (jdepth v) \<le> maxNestingDepth"
  shows "parse_json (marshal v) = Some v"
proof -
  have "scan_value (2 * length (marshal v) + 1) 0 (marshal v @ []) = Some (v, [])"
    using scans_wf [OF assms(1), unfolded scans_def, rule_format, of "2 * length (marshal v) + 1" 0 "[]"] assms(2)
    by (simp add: delimited_def del: scan_value.simps)
  then show ?thesis
    using skip_ws_marshal [OF assms(1), of "[]"] by (simp add: parse_json_def skip_ws_def del: scan_value.simps)
qed


section \<open>Fuel\<close>

text \<open>Every part of the scanner consumes input, so twice its length is enough fuel.\<close>

lemma scan_string_consumes: "scan_string s = Some (a, r) \<Longrightarrow> length r < length s"
proof (induction s arbitrary: a rule: scan_string.induct)
  case (2 c s)
  show ?case using 2(4) 2(1) 2(2) 2(3)
    by (fastforce simp: consed_Some split: if_splits list.splits)
qed simp

lemma dropWhile_length [simp]: "length (dropWhile P s) \<le> length s"
  by (induction s) auto

lemma skip_ws_length: "length (skip_ws s) \<le> length s"
  by (simp add: skip_ws_def)

lemma scan_number_consumes: "scan_number s = Some (a, r) \<Longrightarrow> length r < length s"
proof -
  have dig: "num_digits x = Some (b, q) \<Longrightarrow> length q \<le> length x" for x b q
    by (auto simp: num_digits_def split: if_splits)
  have i: "num_int x = Some (b, q) \<Longrightarrow> length q < length x" for x b q
    by (cases x) (auto simp: num_int_def le_imp_less_Suc split: if_splits)
  have f: "num_frac x = Some (b, q) \<Longrightarrow> length q \<le> length x" for x b q
    by (cases x) (auto simp: num_frac_def consed_Some dest!: dig split: if_splits)
  have e: "num_exp x = Some (b, q) \<Longrightarrow> length q \<le> length x" for x b q
    by (cases x) (auto simp: num_exp_def consed_Some dest!: dig split: if_splits list.splits)
  have abs: "num_abs x = Some (b, q) \<Longrightarrow> length q < length x" for x b q
    by (auto simp: num_abs_def consed_Some bind_eq_Some_conv dest!: i f e)
  assume "scan_number s = Some (a, r)"
  then show ?thesis using abs [of s] abs [of "tl s"] by (cases s) (auto simp: scan_number_def consed_Some split: if_splits)
qed


lemma scan_consumes:
  "scan_value n d s = Some (v, r) \<Longrightarrow> length r < length s"
  "scan_elems n d s = Some (vs, r) \<Longrightarrow> length r < length s"
  "scan_members n d s = Some (fs, r) \<Longrightarrow> length r < length s"
proof (induction n d s and n d s and n d s arbitrary: v r and vs r and fs r rule: scan_value_scan_elems_scan_members.induct)
  case (2 n d s)
  show ?case
  proof (cases s)
    case (Cons c t)
    have "length (skip_ws t) \<le> length t" by (rule skip_ws_length)
    then show ?thesis
      using 2 Cons scan_string_consumes [of t] scan_number_consumes [of s]
      by (fastforce simp: scan_word_def split: if_splits list.splits)
  qed (use 2 in simp)
next
  case (4 n d s)
  obtain u q where v: "scan_value n d (skip_ws s) = Some (u, q)" using 4(3) by (auto split: option.splits)
  have "length q < length s" using 4(1) [OF v] skip_ws_length [of s] by simp
  then show ?case
    using 4(2) [OF v refl] 4(3) v skip_ws_length [of q] by (fastforce split: if_splits list.splits)
next
  case (6 n d s)
  obtain c r0 where c: "skip_ws s = c # r0" "c = quote_char" using 6(3) by (auto split: list.splits if_splits)
  obtain k r1 where k: "scan_string r0 = Some (k, r1)" using 6(3) c by (auto split: option.splits)
  obtain p r2 where p: "skip_ws r1 = p # r2" "p = CHR '':''" using 6(3) c k by (auto split: list.splits if_splits)
  obtain u q where v: "scan_value n d (skip_ws r2) = Some (u, q)" using 6(3) c k p by (auto split: option.splits)
  have "length q < length s"
    using 6(1) [OF c(1) _ k refl p(1) _ v] c p scan_string_consumes [OF k]
      skip_ws_length [of s] skip_ws_length [of r1] skip_ws_length [of r2] by simp
  then show ?case
    using 6(2) [OF c(1) _ k refl p(1) _ v refl] 6(3) c k p v skip_ws_length [of q]
    by (fastforce split: if_splits list.splits)
qed auto


lemma scan_fuel_enough:
  "2 * length s < n \<Longrightarrow> 2 * length s < m \<Longrightarrow> scan_value n d s = scan_value m d s"
  "2 * length s + 1 < n \<Longrightarrow> 2 * length s + 1 < m \<Longrightarrow> scan_elems n d s = scan_elems m d s"
  "2 * length s + 1 < n \<Longrightarrow> 2 * length s + 1 < m \<Longrightarrow> scan_members n d s = scan_members m d s"
proof (induction n arbitrary: m d s)
  case (Suc n)
  {
    case 1
    obtain m' where m: "m = Suc m'" using 1 by (cases m) auto
    show ?case
    proof (cases s)
      case (Cons c t)
      have "2 * length t + 1 < n" "2 * length t + 1 < m'" using 1 m Cons by auto
      then have "scan_elems n (d + 1) t = scan_elems m' (d + 1) t" "scan_members n (d + 1) t = scan_members m' (d + 1) t"
        using Suc.IH by blast+
      then show ?thesis by (simp add: m Cons split: list.split)
    qed (simp add: m)
  next
    case 2
    obtain m' where m: "m = Suc m'" using 2 by (cases m) auto
    have v: "scan_value n d (skip_ws s) = scan_value m' d (skip_ws s)"
      using Suc.IH(1) [of "skip_ws s" m' d] skip_ws_length [of s] 2 m by simp
    have "scan_elems n d t = scan_elems m' d t" if "scan_value m' d (skip_ws s) = Some (u, q)" "skip_ws q = c # t" for u q c t
      using Suc.IH(2) [of t m' d] scan_consumes(1) [OF that(1)] skip_ws_length [of s] skip_ws_length [of q] that(2) 2 m by simp
    then show ?case by (simp add: m v split: option.splits list.splits)
  next
    case 3
    obtain m' where m: "m = Suc m'" using 3 by (cases m) auto
    have len: "length q < length s" if "skip_ws s = c # r0" "scan_string r0 = Some (k, r1)" "skip_ws r1 = p # q" for c r0 k r1 p q
      using that skip_ws_length [of s] skip_ws_length [of r1] scan_string_consumes [OF that(2)] by simp
    have v: "scan_value n d (skip_ws q) = scan_value m' d (skip_ws q)"
      if "skip_ws s = c # r0" "scan_string r0 = Some (k, r1)" "skip_ws r1 = p # q" for c r0 k r1 p q
      using Suc.IH(1) [of "skip_ws q" m' d] skip_ws_length [of q] len [OF that] 3 m by simp
    have f: "scan_members n d t = scan_members m' d t"
      if "skip_ws s = c # r0" "scan_string r0 = Some (k, r1)" "skip_ws r1 = p # q"
        "scan_value m' d (skip_ws q) = Some (u, z)" "skip_ws z = e # t" for c r0 k r1 p q u z e t
      using Suc.IH(3) [of t m' d] scan_consumes(1) [OF that(4)] skip_ws_length [of q] skip_ws_length [of z] that(5)
        len [OF that(1-3)] 3 m by simp
    show ?case using v f by (simp add: m split: option.splits list.splits)
  }
qed auto

section \<open>Numbers and bytes\<close>

lemma dec_val_snoc: "dec_val (s @ [c]) = 10 * dec_val s + (byte_of c - 48)"
  by (simp add: dec_val_def)

lemma dec_digits_spec:
  "0 \<le> n \<Longrightarrow> dec_val (dec_digits n) = n \<and> list_all is_dec (dec_digits n) \<and> dec_digits n \<noteq> []
     \<and> (hd (dec_digits n) = CHR ''0'' \<longrightarrow> n = 0)"
proof (induction n rule: dec_digits.induct)
  case (1 n)
  show ?case
  proof (cases "n < 10")
    case True
    have "byte_of (char_of (48 + n)) = 48 + n" using True 1(2) by simp
    moreover from this have "char_of (48 + n) = CHR ''0'' \<Longrightarrow> n = 0" by auto
    ultimately show ?thesis using True 1(2) by (simp add: dec_digits.simps [of n] dec_val_def is_dec_def)
  next
    case False
    then have ih: "dec_val (dec_digits (n div 10)) = n div 10" "list_all is_dec (dec_digits (n div 10))"
      "dec_digits (n div 10) \<noteq> []" "hd (dec_digits (n div 10)) = CHR ''0'' \<longrightarrow> n div 10 = 0"
      using 1 by auto
    have d: "dec_digits n = dec_digits (n div 10) @ [char_of (48 + n mod 10)]"
      using False by (simp add: dec_digits.simps [of n])
    have "byte_of (char_of (48 + n mod 10)) = 48 + n mod 10" using 1(2) by (simp add: mod_pos_pos_trivial add_strict_mono)
    moreover from this have "is_dec (char_of (48 + n mod 10))" using 1(2) by (simp add: is_dec_def)
    ultimately show ?thesis using ih False 1(2) by (auto simp: d dec_val_snoc)
  qed
qed


lemma is_digit_dec: "is_digit = is_dec"
  by (auto simp: is_digit_def is_dec_def fun_eq_iff)

lemma takeWhile_all: "list_all P s \<Longrightarrow> takeWhile P s = s \<and> dropWhile P s = []"
  by (induction s) auto

lemma num_abs_dec_digits:
  assumes "0 \<le> n"
  shows "num_abs (dec_digits n) = Some (dec_digits n, [])"
proof -
  note d = dec_digits_spec [OF assms]
  have "num_int (dec_digits n) = Some (dec_digits n, [])"
  proof (cases "hd (dec_digits n) = CHR ''0''")
    case True
    then have "dec_digits n = ''0''" using d by (simp add: dec_digits.simps [of 0] char_of_def)
    then show ?thesis by (simp add: num_int_def)
  next
    case False
    then show ?thesis using d takeWhile_all [of is_dec "dec_digits n"]
      by (cases "dec_digits n") (auto simp: num_int_def is_digit_dec)
  qed
  then show ?thesis by (simp add: num_abs_def num_frac_def num_exp_def consed_def)
qed

lemma dec_digits_first:
  assumes "0 \<le> n"
  obtains c s where "dec_digits n = c # s" "c \<noteq> CHR ''-''"
proof -
  have "\<not> is_dec (CHR ''-'')" by (simp add: is_dec_def)
  moreover obtain c s where "dec_digits n = c # s" using dec_digits_spec [OF assms] by (cases "dec_digits n") auto
  ultimately show ?thesis using dec_digits_spec [OF assms] that [of c s] by auto
qed

lemma scan_number_format_int: "scan_number (format_int n) = Some (format_int n, [])"
proof (cases "n < 0")
  case True
  then show ?thesis using num_abs_dec_digits [of "- n"] by (simp add: format_int_def scan_number_def consed_def)
next
  case False
  then obtain c s where "dec_digits n = c # s" "c \<noteq> CHR ''-''" using dec_digits_first [of n] by auto
  then show ?thesis
    using num_abs_dec_digits [of n] False by (simp add: format_int_def scan_number_def)
qed

lemma parse_int64_format_int:
  assumes "- (2 ^ 63) \<le> n" and "n < 2 ^ 63"
  shows "parse_int64 (format_int n) = Some n"
proof (cases "n < 0")
  case True
  then show ?thesis using dec_digits_spec [of "- n"] assms by (simp add: format_int_def parse_int64_def)
next
  case False
  obtain c s where cs: "dec_digits n = c # s" "c \<noteq> CHR ''-''" using False dec_digits_first [of n] by auto
  show ?thesis using False cs dec_digits_spec [of n] assms by (simp add: format_int_def parse_int64_def)
qed

lemma b64_val_char: "0 \<le> n \<Longrightarrow> n < 64 \<Longrightarrow> b64_val (b64_char n) = Some n"
  by (auto simp: b64_val_def b64_char_def Let_def)

lemma b64_char_plain:
  assumes "0 \<le> n" and "n < 64"
  shows "b64_char n \<noteq> CHR ''=''" "b64_char n \<noteq> CHR 0x0D" "b64_char n \<noteq> CHR 0x0A" "byte_of (b64_char n) < 128"
    "b64_char n \<noteq> quote_char" "b64_char n \<noteq> backslash" "32 \<le> byte_of (b64_char n)"
proof -
  have "byte_of (b64_char n) \<in> {43} \<union> {47..57} \<union> {65..90} \<union> {97..122}" using assms by (auto simp: b64_char_def)
  then show "b64_char n \<noteq> CHR ''=''" "b64_char n \<noteq> CHR 0x0D" "b64_char n \<noteq> CHR 0x0A" "byte_of (b64_char n) < 128"
    "b64_char n \<noteq> quote_char" "b64_char n \<noteq> backslash" "32 \<le> byte_of (b64_char n)" by auto
qed

lemma digit_split:
  fixes q x k :: int
  assumes "0 \<le> x" and "x < k"
  shows "(q * k + x) div k = q" and "(q * k + x) mod k = x"
  using assms by (auto simp: int_div_pos_eq int_mod_pos_eq)

lemma sextet_arith:
  fixes a b :: int
  assumes "0 \<le> a" "a < 256" "0 \<le> b" "b < 256"
  shows "0 \<le> a div 4 \<and> a div 4 < 64" "0 \<le> a mod 4 * 16 \<and> a mod 4 * 16 < 64"
    "0 \<le> a mod 4 * 16 + b div 16 \<and> a mod 4 * 16 + b div 16 < 64" "0 \<le> a mod 16 * 4 \<and> a mod 16 * 4 < 64"
    "0 \<le> a mod 16 * 4 + b div 64 \<and> a mod 16 * 4 + b div 64 < 64"
proof -
  have "0 \<le> a mod 4" "a mod 4 < 4" "0 \<le> a mod 16" "a mod 16 < 16" by simp_all
  moreover have "0 \<le> b div 16" "b div 16 < 16" "0 \<le> b div 64" "b div 64 < 4" using assms by simp_all
  ultimately show "0 \<le> a mod 4 * 16 \<and> a mod 4 * 16 < 64"
    "0 \<le> a mod 4 * 16 + b div 16 \<and> a mod 4 * 16 + b div 16 < 64" "0 \<le> a mod 16 * 4 \<and> a mod 16 * 4 < 64"
    "0 \<le> a mod 16 * 4 + b div 64 \<and> a mod 16 * 4 + b div 64 < 64" by linarith+
  have "0 \<le> a div 4" "a div 4 < 64" using assms by simp_all
  then show "0 \<le> a div 4 \<and> a div 4 < 64" by blast
qed

lemmas sextet_bounds [simp] =
  sextet_arith [OF byte_of_bounds byte_of_bounds, THEN conjunct1] sextet_arith [OF byte_of_bounds byte_of_bounds, THEN conjunct2]

lemma octet_arith:
  fixes a b c :: int
  assumes "0 \<le> a" "a < 256" "0 \<le> b" "b < 256" "0 \<le> c" "c < 256"
  shows "a div 4 * 4 + (a mod 4 * 16) div 16 = a" "a div 4 * 4 + (a mod 4 * 16 + b div 16) div 16 = a"
    "(a mod 4 * 16 + b div 16) mod 16 * 16 + (b mod 16 * 4) div 4 = b"
    "(a mod 4 * 16 + b div 16) mod 16 * 16 + (b mod 16 * 4 + c div 64) div 4 = b"
    "(b mod 16 * 4 + c div 64) mod 4 * 64 + c mod 64 = c"
proof -
  have "0 \<le> b div 16" "b div 16 < 16" "0 \<le> c div 64" "c div 64 < 4" using assms by simp_all
  note ds = digit_split [OF this(1,2), of "a mod 4"] digit_split [OF this(3,4), of "b mod 16"]
  show "a div 4 * 4 + (a mod 4 * 16) div 16 = a" by simp
  show "a div 4 * 4 + (a mod 4 * 16 + b div 16) div 16 = a" unfolding ds by simp
  show "(a mod 4 * 16 + b div 16) mod 16 * 16 + (b mod 16 * 4) div 4 = b" unfolding ds by simp
  show "(a mod 4 * 16 + b div 16) mod 16 * 16 + (b mod 16 * 4 + c div 64) div 4 = b" unfolding ds by simp
  show "(b mod 16 * 4 + c div 64) mod 4 * 64 + c mod 64 = c" unfolding ds by simp
qed

lemmas octets = octet_arith [OF byte_of_bounds byte_of_bounds byte_of_bounds]

lemma octet_chars:
  "char_of (byte_of x div 4 * 4 + (byte_of x mod 4 * 16) div 16) = x"
  "char_of (byte_of x div 4 * 4 + (byte_of x mod 4 * 16 + byte_of y div 16) div 16) = x"
  "char_of ((byte_of x mod 4 * 16 + byte_of y div 16) mod 16 * 16 + (byte_of y mod 16 * 4) div 4) = y"
  "char_of ((byte_of x mod 4 * 16 + byte_of y div 16) mod 16 * 16 + (byte_of y mod 16 * 4 + byte_of z div 64) div 4) = y"
  "char_of ((byte_of y mod 16 * 4 + byte_of z div 64) mod 4 * 64 + byte_of z mod 64) = z"
  by (simp_all only: octets char_of_byte_of)

lemma b64_quanta_encode: "b64_quanta (b64_encode s) = Some s"
proof (induction s rule: b64_encode.induct)
  case (2 x)
  then show ?case by (simp add: b64_val_char)
next
  case (3 x y)
  then show ?case
    by (simp only: b64_encode.simps b64_quanta.simps b64_val_char sextet_bounds prod.case option.case b64_char_plain octet_chars)
      simp
next
  case (4 x y z s)
  then show ?case
    by (simp only: b64_encode.simps append.simps b64_quanta.simps b64_val_char sextet_bounds prod.case option.case
          b64_char_plain octet_chars) simp
qed simp

lemma b64_encode_chars:
  "list_all (\<lambda>c. c \<noteq> CHR 0x0D \<and> c \<noteq> CHR 0x0A \<and> byte_of c < 128 \<and> c \<noteq> quote_char \<and> c \<noteq> backslash \<and> 32 \<le> byte_of c)
     (b64_encode s)"
  by (induction s rule: b64_encode.induct) (simp_all add: b64_char_plain)

lemma b64_decode_encode: "b64_decode (b64_encode s) = Some s"
proof -
  have "filter (\<lambda>c. c \<noteq> CHR 0x0D \<and> c \<noteq> CHR 0x0A) (b64_encode s) = b64_encode s"
    using b64_encode_chars [of s] by (auto simp: filter_id_conv list_all_iff)
  then show ?thesis using b64_quanta_encode [of s] by (simp add: b64_decode_def)
qed

text \<open>Text of ASCII is valid.\<close>

lemma valid_utf8_ascii: "list_all (\<lambda>c. byte_of c < 128) s \<Longrightarrow> valid_utf8 s"
  by (induction s) (simp_all add: valid_utf8.simps [of "_ # _"] valid_utf8.simps [of "[]"])


section \<open>Plain text\<close>

text \<open>Characters that the encoder leaves alone.\<close>

definition plain_char :: "char \<Rightarrow> bool" where
  "plain_char c \<longleftrightarrow> 32 \<le> byte_of c \<and> byte_of c < 128 \<and> byte_of c \<notin> {34, 92, 60, 62, 38}"

lemma json_escape_Nil [simp]: "json_escape [] = []"
  by (simp add: json_escape.simps)

lemma json_escape_plain: "list_all plain_char s \<Longrightarrow> json_escape s = s"
proof (induction s)
  case (Cons c s)
  then have c: "32 \<le> byte_of c" "byte_of c < 128" "byte_of c \<notin> {34, 92, 60, 62, 38}" by (auto simp: plain_char_def)
  have "escape_rune_html (byte_of c) = [c]" using c by (simp add: escape_rune_html_def escape_rune_def)
  then show ?case using Cons c by (simp add: json_escape.simps [of "c # s"])
qed simp

lemma valid_utf8_plain: "list_all plain_char s \<Longrightarrow> valid_utf8 s"
  by (rule valid_utf8_ascii) (auto simp: list_all_iff plain_char_def)

lemma unquote_plain_text: "list_all plain_char s \<Longrightarrow> unquote s = s"
  using unquote_json_escape [of s "[]"] json_escape_plain [of s] valid_utf8_plain [of s] by simp

lemma scan_string_plain_text: "list_all plain_char s \<Longrightarrow> scan_string (s @ quote_char # t) = Some (s, t)"
  using scan_string_escape [of s t] json_escape_plain [of s] by simp

lemma b64_plain: "list_all plain_char (b64_encode s)"
proof -
  have "0 \<le> n \<Longrightarrow> n < 64 \<Longrightarrow> plain_char (b64_char n)" for n
    by (auto simp: plain_char_def b64_char_def)
  moreover have "plain_char (CHR ''='')" by (simp add: plain_char_def)
  ultimately show ?thesis by (induction s rule: b64_encode.induct) simp_all
qed

lemma unquote_escaped: "valid_utf8 s \<Longrightarrow> unquote (json_escape s) = s"
  using unquote_json_escape [of s "[]"] by simp

lemma wf_jstr [simp]: "wf_jvalue (jstr s)"
  using scan_string_escape [of s "[]"] by (simp add: jstr_def)

lemma wf_jint [simp]: "wf_jvalue (jint n)"
  by (simp add: jint_def scan_number_format_int)

lemma jdepth_leaf [simp]: "jdepth (jstr s) = 0" "jdepth (jint n) = 0"
  by (simp_all add: jstr_def jint_def)

lemma wf_jstruct: "wf_jvalue (jstruct fs) \<longleftrightarrow> list_all (\<lambda>(k, v). wf_jvalue v) fs"
  using scan_string_escape [of _ "[]"] by (simp add: jstruct_def list_all_iff split_def)

lemma jdepth_jstruct: "jdepth (jstruct fs) = Suc (fold max (map (jdepth \<circ> snd) fs) 0)"
  by (simp add: jstruct_def split_def comp_def)

text \<open>No line break occurs in what the encoder prints.\<close>

definition printable :: "char \<Rightarrow> bool" where
  "printable c \<longleftrightarrow> 32 \<le> byte_of c"

lemma printable_chars:
  "printable quote_char" "printable backslash" "printable (CHR ''/'')" "printable (CHR ''b'')" "printable (CHR ''f'')"
  "printable (CHR ''n'')" "printable (CHR ''r'')" "printable (CHR ''t'')" "printable (CHR ''u'')"
  "printable (CHR ''-'')" "printable (CHR ''+'')" "printable (CHR ''.'')" "printable (CHR ''e'')" "printable (CHR ''E'')"
  "printable (CHR ''0'')" "printable (CHR ''['')" "printable (CHR '']'')" "printable (CHR ''{'')" "printable (CHR ''}'')"
  "printable (CHR '','')" "printable (CHR '':'')" "printable (CHR ''a'')" "printable (CHR ''l'')" "printable (CHR ''s'')"
  "is_hex h \<Longrightarrow> printable h" "is_digit h \<Longrightarrow> printable h"
  by (auto simp: printable_def is_hex_def hex_val_def is_digit_def Let_def split: if_splits)

lemma scan_string_bytes: "scan_string s = Some (a, r) \<Longrightarrow> list_all printable a"
proof (induction s arbitrary: a rule: scan_string.induct)
  case (2 c s)
  show ?case
  proof (cases "c = backslash")
    case False
    then show ?thesis using 2(3,4) by (auto simp: consed_Some printable_def split: if_splits)
  next
    case True
    then obtain e s' where s: "s = e # s'" using 2(4) by (cases s) auto
    show ?thesis
    proof (cases "e = CHR ''u''")
      case u: True
      then obtain h1 h2 h3 h4 v where v: "s' = h1 # h2 # h3 # h4 # v"
        using 2(4) True s by (auto split: list.splits)
      then show ?thesis using 2(2) 2(4) True u s by (auto simp: consed_Some printable_chars split: if_splits)
    next
      case n: False
      define E where "E = [quote_char, backslash, CHR ''/'', CHR ''b'', CHR ''f'', CHR ''n'', CHR ''r'', CHR ''t'']"
      have step: "scan_string (c # s) = (if e \<in> set E then consed [c, e] (scan_string s') else None)"
        unfolding E_def using True s n by (simp cong: if_cong)
      then have e: "e \<in> set E" using 2(4) by (auto split: if_splits)
      then have "printable e" unfolding E_def by (auto simp: printable_chars)
      moreover obtain b where "scan_string s' = Some (b, r)" "a = [c, e] @ b"
        using 2(4) step e by (metis consed_Some)
      moreover have "list_all printable b" using calculation(2) 2(1) [OF _ True s] True e by (simp add: E_def)
      ultimately show ?thesis using True by (simp add: printable_chars)
    qed
  qed
qed simp

lemma num_text: "scan_number s = Some (a, r) \<Longrightarrow> list_all printable a"
proof -
  have tw: "list_all printable (takeWhile is_digit x)" for x
    by (auto simp: list_all_iff printable_chars dest!: set_takeWhileD)
  have dig: "num_digits x = Some (b, q) \<Longrightarrow> list_all printable b" for x b q
    using tw by (auto simp: num_digits_def split: if_splits)
  have i: "num_int x = Some (b, q) \<Longrightarrow> list_all printable b" for x b q
    using tw [of x] by (cases x) (auto simp: num_int_def printable_chars split: if_splits)
  have f: "num_frac x = Some (b, q) \<Longrightarrow> list_all printable b" for x b q
    by (cases x) (auto simp: num_frac_def printable_chars consed_Some dest!: dig split: if_splits)
  have e: "num_exp x = Some (b, q) \<Longrightarrow> list_all printable b" for x b q
  proof (cases x)
    case (Cons c y)
    assume "num_exp x = Some (b, q)"
    then show ?thesis using Cons dig
      by (cases y) (auto simp: num_exp_def printable_chars consed_Some split: if_splits)
  qed (simp add: num_exp_def)
  have abs: "num_abs x = Some (b, q) \<Longrightarrow> list_all printable b" for x b q
    by (auto simp: num_abs_def consed_Some bind_eq_Some_conv dest!: i f e)
  assume "scan_number s = Some (a, r)"
  then show ?thesis using abs [of s] abs [of "tl s"] by (cases s) (auto simp: scan_number_def printable_chars consed_Some split: if_splits)
qed

lemma join_bytes: "list_all (list_all printable) xs \<Longrightarrow> list_all printable (join xs)"
  by (induction xs rule: join.induct) (auto simp: printable_chars)

lemma marshal_bytes: "wf_jvalue v \<Longrightarrow> list_all printable (marshal v)"
proof (induction v)
  case (VNum s)
  then show ?case using num_text by auto
next
  case (VStr s)
  then show ?case using scan_string_bytes [of "s @ [quote_char]"] by (simp add: printable_chars)
next
  case (VArr vs)
  then have "list_all (list_all printable) (map marshal vs)" by (simp add: list_all_iff)
  then show ?case using join_bytes by (simp add: printable_chars)
next
  case (VObj fs)
  have "list_all (list_all printable) (map marshal_member fs)"
  proof -
    have "list_all printable (marshal_member (k, v))" if kv: "(k, v) \<in> set fs" for k v
    proof -
      have k: "scan_string (k @ [quote_char]) = Some (k, [])" and "wf_jvalue v"
        using VObj.prems kv by (auto simp: list_all_iff)
      then have "list_all printable (marshal v)" using VObj.IH [OF kv] by simp
      then show ?thesis using scan_string_bytes [OF k] by (simp add: printable_chars)
    qed
    then show ?thesis by (auto simp: list_all_iff)
  qed
  then show ?case using join_bytes by (simp add: printable_chars)
qed (auto simp: printable_chars)

lemma marshal_one_line: "wf_jvalue v \<Longrightarrow> CHR 0x0A \<notin> set (marshal v)"
  using marshal_bytes [of v] by (auto simp: list_all_iff printable_def)

end
