(* ===== verification/Go_Time.thy ===== *)
theory Go_Time
  imports Go_Json Policy_Keys
begin

text \<open>
  What the audit log uses of the package \<^verbatim>\<open>time\<close>: the civil date of an instant, the layouts
  \<^verbatim>\<open>2006-01-02\<close>, RFC 3339 with and without trailing zeros of the fraction, and the parsers
  of the first two. An instant is a number of nanoseconds since 1970, always shown in UTC.
\<close>

section \<open>Civil dates\<close>

definition is_leap :: "int \<Rightarrow> bool" where
  "is_leap y \<longleftrightarrow> y mod 4 = 0 \<and> (y mod 100 \<noteq> 0 \<or> y mod 400 = 0)"

text \<open>Days since the first of January of year one.\<close>

definition days_before_year :: "int \<Rightarrow> int" where
  "days_before_year y = 365 * (y - 1) + (y - 1) div 4 - (y - 1) div 100 + (y - 1) div 400"

definition daysBefore :: "bool \<Rightarrow> int \<Rightarrow> int" where
  "daysBefore leap m =
     (if m \<le> 1 then 0 else if m = 2 then 31
      else (if leap then 1 else 0) +
        (if m = 3 then 59 else if m = 4 then 90 else if m = 5 then 120 else if m = 6 then 151
         else if m = 7 then 181 else if m = 8 then 212 else if m = 9 then 243 else if m = 10 then 273
         else if m = 11 then 304 else if m = 12 then 334 else 365))"

definition daysIn :: "bool \<Rightarrow> int \<Rightarrow> int" where
  "daysIn leap m = daysBefore leap (m + 1) - daysBefore leap m"

text \<open>Years are counted off in cycles of 400, 100, 4 and 1; the last cycle of each kind is short.\<close>

definition year_day :: "int \<Rightarrow> int \<times> int" where
  "year_day n =
     (let n400 = n div 146097; r = n mod 146097;
          n100 = min 3 (r div 36524); r = r - n100 * 36524;
          n4 = r div 1461; r = r mod 1461;
          n1 = min 3 (r div 365)
      in (400 * n400 + 100 * n100 + 4 * n4 + n1 + 1, r - 365 * n1))"

definition month_of :: "bool \<Rightarrow> int \<Rightarrow> int" where
  "month_of leap d =
     (let b = daysBefore leap in
      if d < b 2 then 1 else if d < b 3 then 2 else if d < b 4 then 3 else if d < b 5 then 4
      else if d < b 6 then 5 else if d < b 7 then 6 else if d < b 8 then 7 else if d < b 9 then 8
      else if d < b 10 then 9 else if d < b 11 then 10 else if d < b 12 then 11 else 12)"

definition civil :: "int \<Rightarrow> int \<times> int \<times> int" where
  "civil d =
     (case year_day (d + 719162) of
        (y, k) \<Rightarrow> (let m = month_of (is_leap y) k in (y, m, k - daysBefore (is_leap y) m + 1)))"

definition days_of_civil :: "int \<Rightarrow> int \<Rightarrow> int \<Rightarrow> int" where
  "days_of_civil y m d = days_before_year y + daysBefore (is_leap y) m + d - 1 - 719162"

lemma year_day_spec:
  assumes "year_day n = (y, k)"
  shows "days_before_year y + k = n" and "0 \<le> k" and "k < (if is_leap y then 366 else 365)"
proof -
  define r4 where "r4 = n mod 146097"
  define a where "a = n div 146097"
  define b where "b = min 3 (r4 div 36524)"
  define r1 where "r1 = r4 - b * 36524"
  define c where "c = r1 div 1461"
  define r0 where "r0 = r1 mod 1461"
  define e where "e = min 3 (r0 div 365)"
  have yk: "y = 400 * a + 100 * b + 4 * c + e + 1" "k = r0 - 365 * e"
  proof -
    have "year_day n = (400 * a + 100 * b + 4 * c + e + 1, r0 - 365 * e)"
      unfolding year_day_def Let_def e_def r0_def c_def r1_def b_def a_def r4_def by (rule refl)
    then show "y = 400 * a + 100 * b + 4 * c + e + 1" "k = r0 - 365 * e" using assms by simp_all
  qed
  have r4: "0 \<le> r4" "r4 < 146097" "n = 146097 * a + r4" by (simp_all add: r4_def a_def)
  have b: "0 \<le> b" "b \<le> 3" and r1: "0 \<le> r1" "r1 < 36524 \<or> b = 3 \<and> r1 < 36525"
    using r4(1,2) by (auto simp: b_def r1_def min_def)
  have c: "0 \<le> c" "c \<le> 24" and r0: "0 \<le> r0" "r0 < 1461" "r1 = 1461 * c + r0"
    using r1 by (auto simp: c_def r0_def)
  have e: "0 \<le> e" "e \<le> 3" using r0 by (auto simp: e_def)
  have k: "0 \<le> k" "k < 365 \<or> e = 3 \<and> k < 366" using r0 by (auto simp: yk e_def min_def)
  have q: "(y - 1) div 4 = 100 * a + 25 * b + c" "(y - 1) div 100 = 4 * a + b" "(y - 1) div 400 = a"
    using b c e by (auto simp: yk)
  show "days_before_year y + k = n"
    using q r4(3) r0(3) by (simp add: days_before_year_def r1_def) (simp add: yk)
  show "0 \<le> k" by (rule k)
  have last: "k < 365 \<or> e = 3 \<and> (c < 24 \<or> b = 3)"
    using k r0 r1 c yk by auto
  show "k < (if is_leap y then 366 else 365)"
  proof (cases "k < 365")
    case False
    then have e3: "e = 3" and cb: "c < 24 \<or> b = 3" using last by auto
    have y: "y = 4 * (100 * a + 25 * b + c + 1)" using e3 yk by simp
    have "y mod 100 \<noteq> 0 \<or> y mod 400 = 0"
    proof (cases "c < 24")
      case True
      have "y = (4 * a + b) * 100 + 4 * (c + 1)" using y by simp
      then have "y mod 100 = 4 * (c + 1)" using True c digit_split(2) [of "4 * (c + 1)" 100 "4 * a + b"] by simp
      then show ?thesis using c by simp
    next
      case False
      then have "y = 400 * (a + 1)" using cb y c by simp
      then show ?thesis by simp
    qed
    then have "is_leap y" using y by (simp add: is_leap_def)
    then show ?thesis using k by auto
  qed simp
qed

lemma daysBefore_values:
  "daysBefore leap 1 = 0" "daysBefore leap 2 = 31"
  "daysBefore leap 3 = (if leap then 60 else 59)" "daysBefore leap 4 = (if leap then 91 else 90)"
  "daysBefore leap 5 = (if leap then 121 else 120)" "daysBefore leap 6 = (if leap then 152 else 151)"
  "daysBefore leap 7 = (if leap then 182 else 181)" "daysBefore leap 8 = (if leap then 213 else 212)"
  "daysBefore leap 9 = (if leap then 244 else 243)" "daysBefore leap 10 = (if leap then 274 else 273)"
  "daysBefore leap 11 = (if leap then 305 else 304)" "daysBefore leap 12 = (if leap then 335 else 334)"
  "daysBefore leap 13 = (if leap then 366 else 365)"
  by (simp_all add: daysBefore_def)

definition month_fits :: "bool \<Rightarrow> int \<Rightarrow> int \<Rightarrow> bool" where
  "month_fits leap k m \<longleftrightarrow> 1 \<le> m \<and> m \<le> 12 \<and> daysBefore leap m \<le> k \<and> k < daysBefore leap (m + 1)"

lemma month_fits_values:
  assumes "0 \<le> k" and "k < daysBefore leap 13"
  shows "k < daysBefore leap 2 \<Longrightarrow> month_fits leap k 1"
    "\<not> k < daysBefore leap 2 \<Longrightarrow> k < daysBefore leap 3 \<Longrightarrow> month_fits leap k 2"
    "\<not> k < daysBefore leap 3 \<Longrightarrow> k < daysBefore leap 4 \<Longrightarrow> month_fits leap k 3"
    "\<not> k < daysBefore leap 4 \<Longrightarrow> k < daysBefore leap 5 \<Longrightarrow> month_fits leap k 4"
    "\<not> k < daysBefore leap 5 \<Longrightarrow> k < daysBefore leap 6 \<Longrightarrow> month_fits leap k 5"
    "\<not> k < daysBefore leap 6 \<Longrightarrow> k < daysBefore leap 7 \<Longrightarrow> month_fits leap k 6"
    "\<not> k < daysBefore leap 7 \<Longrightarrow> k < daysBefore leap 8 \<Longrightarrow> month_fits leap k 7"
    "\<not> k < daysBefore leap 8 \<Longrightarrow> k < daysBefore leap 9 \<Longrightarrow> month_fits leap k 8"
    "\<not> k < daysBefore leap 9 \<Longrightarrow> k < daysBefore leap 10 \<Longrightarrow> month_fits leap k 9"
    "\<not> k < daysBefore leap 10 \<Longrightarrow> k < daysBefore leap 11 \<Longrightarrow> month_fits leap k 10"
    "\<not> k < daysBefore leap 11 \<Longrightarrow> k < daysBefore leap 12 \<Longrightarrow> month_fits leap k 11"
    "\<not> k < daysBefore leap 12 \<Longrightarrow> month_fits leap k 12"
  using assms by (simp_all add: month_fits_def daysBefore_values(1))

lemma if_both: "(c \<Longrightarrow> P a) \<Longrightarrow> (\<not> c \<Longrightarrow> P b) \<Longrightarrow> P (if c then a else b)"
  by simp

lemma month_of_spec:
  assumes "0 \<le> k" and "k < (if leap then 366 else 365)"
  shows "month_fits leap k (month_of leap k)"
proof -
  have "k < daysBefore leap 13" using assms(2) by (simp add: daysBefore_values)
  note fits = month_fits_values [OF assms(1) this]
  show ?thesis
    unfolding month_of_def Let_def
    by (intro if_both [where P = "month_fits leap k"]; rule fits; assumption)
qed

lemma civil_spec:
  assumes "civil n = (y, m, d)"
  shows "days_of_civil y m d = n" and "1 \<le> m" "m \<le> 12" and "1 \<le> d" "d \<le> daysIn (is_leap y) m"
proof -
  obtain k where k: "year_day (n + 719162) = (y, k)" and m: "m = month_of (is_leap y) k"
      and d: "d = k - daysBefore (is_leap y) m + 1"
    using assms by (auto simp: civil_def Let_def split: prod.splits)
  note yd = year_day_spec [OF k]
  note ms = month_of_spec [OF yd(2,3), folded m]
  show "days_of_civil y m d = n" using yd(1) d by (simp add: days_of_civil_def)
  show "1 \<le> m" "m \<le> 12" "1 \<le> d" "d \<le> daysIn (is_leap y) m" using ms d by (simp_all add: daysIn_def month_fits_def)
qed

lemma daysIn_le: "daysIn leap m \<le> 31"
  by (simp add: daysIn_def daysBefore_def)

section \<open>Layouts\<close>

definition appendInt :: "int \<Rightarrow> nat \<Rightarrow> string" where
  "appendInt n w =
     (let s = dec_digits \<bar>n\<bar> in (if n < 0 then ''-'' else []) @ replicate (w - length s) (CHR ''0'') @ s)"

definition sec_ns :: int where "sec_ns = 10 ^ 9"

definition day_of :: "time \<Rightarrow> int" where
  "day_of t = t div sec_ns div 86400"

definition year_of :: "time \<Rightarrow> int" where
  "year_of t = fst (civil (day_of t))"

definition format_date :: "time \<Rightarrow> string" where
  "format_date t =
     (case civil (day_of t) of (y, m, d) \<Rightarrow> appendInt y 4 @ ''-'' @ appendInt m 2 @ ''-'' @ appendInt d 2)"

definition format_clock :: "time \<Rightarrow> string" where
  "format_clock t =
     (let s = t div sec_ns mod 86400 in
      appendInt (s div 3600) 2 @ '':'' @ appendInt (s div 60 mod 60) 2 @ '':'' @ appendInt (s mod 60) 2)"

definition frac_nano :: "time \<Rightarrow> string" where
  "frac_nano t = (if t mod sec_ns = 0 then [] else CHR ''.'' # strip_zeros (appendInt (t mod sec_ns) 9))"

definition frac_fixed :: "time \<Rightarrow> string" where
  "frac_fixed t = CHR ''.'' # appendInt (t mod sec_ns) 9"

definition RFC3339Nano :: "time \<Rightarrow> string" where
  "RFC3339Nano t = format_date t @ ''T'' @ format_clock t @ frac_nano t @ ''Z''"

definition walTimeFormat :: "time \<Rightarrow> string" where
  "walTimeFormat t = format_date t @ ''T'' @ format_clock t @ frac_fixed t @ ''Z''"

text \<open>\<^verbatim>\<open>Time.MarshalJSON\<close> refuses a year that does not have four digits.\<close>

definition Time_MarshalJSON :: "time \<Rightarrow> jvalue option" where
  "Time_MarshalJSON t = (if 0 \<le> year_of t \<and> year_of t \<le> 9999 then Some (VStr (RFC3339Nano t)) else None)"

section \<open>Parsers\<close>

definition expect :: "char \<Rightarrow> string \<Rightarrow> string option" where
  "expect c s = (case s of [] \<Rightarrow> None | x # t \<Rightarrow> if x = c then Some t else None)"

definition get_digits :: "nat \<Rightarrow> string \<Rightarrow> (int \<times> string) option" where
  "get_digits w s =
     (if w \<le> length s \<and> list_all is_dec (take w s) then Some (dec_val (take w s), drop w s) else None)"

text \<open>The hour may have a single digit.\<close>

definition get_hour :: "string \<Rightarrow> (int \<times> string) option" where
  "get_hour s = (case get_digits 2 s of Some r \<Rightarrow> Some r | None \<Rightarrow> get_digits 1 s)"

definition get_date :: "string \<Rightarrow> ((int \<times> int \<times> int) \<times> string) option" where
  "get_date s =
     Option.bind (get_digits 4 s) (\<lambda>(y, s).
     Option.bind (expect (CHR ''-'') s) (\<lambda>s.
     Option.bind (get_digits 2 s) (\<lambda>(m, s).
     if m < 1 \<or> 12 < m then None
     else
       Option.bind (expect (CHR ''-'') s) (\<lambda>s.
       Option.bind (get_digits 2 s) (\<lambda>(d, s). Some ((y, m, d), s))))))"

definition valid_day :: "int \<times> int \<times> int \<Rightarrow> bool" where
  "valid_day ymd = (case ymd of (y, m, d) \<Rightarrow> 1 \<le> d \<and> d \<le> daysIn (is_leap y) m)"

definition get_clock :: "string \<Rightarrow> (int \<times> string) option" where
  "get_clock s =
     Option.bind (get_hour s) (\<lambda>(h, s).
     if 24 \<le> h then None
     else
       Option.bind (expect (CHR '':'') s) (\<lambda>s.
       Option.bind (get_digits 2 s) (\<lambda>(mi, s).
       if 60 \<le> mi then None
       else
         Option.bind (expect (CHR '':'') s) (\<lambda>s.
         Option.bind (get_digits 2 s) (\<lambda>(sc, s).
         if 60 \<le> sc then None else Some (3600 * h + 60 * mi + sc, s))))))"

text \<open>A fraction behind a point or a comma; digits after the ninth are dropped.\<close>

definition get_frac :: "string \<Rightarrow> int \<times> string" where
  "get_frac s =
     (case s of
        c # x # t \<Rightarrow>
          if (c = CHR ''.'' \<or> c = CHR '','') \<and> is_dec x then
            (let ds = take 9 (takeWhile is_dec (x # t)) in
             (dec_val ds * 10 ^ (9 - length ds), dropWhile is_dec (x # t)))
          else (0, s)
      | _ \<Rightarrow> (0, s))"

definition get_zone :: "string \<Rightarrow> (int \<times> string) option" where
  "get_zone s =
     (case s of
        [] \<Rightarrow> None
      | c # t \<Rightarrow>
          if c = CHR ''Z'' then Some (0, t)
          else if c = CHR ''+'' \<or> c = CHR ''-'' then
            Option.bind (get_digits 2 t) (\<lambda>(h, t).
            Option.bind (expect (CHR '':'') t) (\<lambda>t.
            Option.bind (get_digits 2 t) (\<lambda>(mi, t).
            if 24 < h \<or> 60 < mi then None
            else Some ((if c = CHR ''-'' then -1 else 1) * (3600 * h + 60 * mi), t))))
          else None)"

definition parse_date :: "string \<Rightarrow> (int \<times> int \<times> int) option" where
  "parse_date s =
     Option.bind (get_date s) (\<lambda>(ymd, s). if s = [] \<and> valid_day ymd then Some ymd else None)"

definition parse_RFC3339 :: "string \<Rightarrow> time option" where
  "parse_RFC3339 s =
     Option.bind (get_date s) (\<lambda>((y, m, d), s).
     Option.bind (expect (CHR ''T'') s) (\<lambda>s.
     Option.bind (get_clock s) (\<lambda>(k, s).
     case get_frac s of
       (ns, s) \<Rightarrow>
         Option.bind (get_zone s) (\<lambda>(off, s).
         if s \<noteq> [] \<or> \<not> valid_day (y, m, d) then None
         else Some ((days_of_civil y m d * 86400 + k - off) * sec_ns + ns)))))"

text \<open>\<^verbatim>\<open>Time.UnmarshalJSON\<close> reads the literal as written.\<close>

fun dec_time :: "jvalue \<Rightarrow> time \<Rightarrow> time option" where
  "dec_time VNull old = Some old"
| "dec_time (VStr s) old = parse_RFC3339 s"
| "dec_time _ old = None"


section \<open>Round trips\<close>

lemma dec_digits_length: "0 \<le> n \<Longrightarrow> n < 10 ^ w \<Longrightarrow> 0 < w \<Longrightarrow> length (dec_digits n) \<le> w"
proof (induction w arbitrary: n)
  case (Suc w)
  show ?case
  proof (cases "n < 10")
    case True
    then show ?thesis by (simp add: dec_digits.simps [of n])
  next
    case False
    then have "0 < w" using Suc.prems by (cases w) auto
    moreover have "n div 10 < 10 ^ w" using Suc.prems by (simp add: div_less_iff_less_mult mult.commute)
    ultimately have "length (dec_digits (n div 10)) \<le> w" using Suc.IH [of "n div 10"] Suc.prems by simp
    then show ?thesis using False by (simp add: dec_digits.simps [of n])
  qed
qed simp

lemma dec_val_acc: "foldl (\<lambda>n c. 10 * n + (byte_of c - 48)) a s = a * 10 ^ length s + dec_val s"
proof (induction s arbitrary: a)
  case (Cons c s)
  have "dec_val (c # s) = (byte_of c - 48) * 10 ^ length s + dec_val s"
    using Cons.IH [of "byte_of c - 48"] by (simp add: dec_val_def)
  then show ?case using Cons.IH [of "10 * a + (byte_of c - 48)"] by (simp add: algebra_simps)
qed (simp add: dec_val_def)

lemma dec_val_append: "dec_val (s @ t) = dec_val s * 10 ^ length t + dec_val t"
  using dec_val_acc [of "dec_val s" t] by (simp add: dec_val_def)

lemma dec_val_zeros [simp]: "dec_val (replicate k (CHR ''0'')) = 0"
  by (induction k) (auto simp: dec_val_append [of "[_]", simplified] dec_val_def)

lemma appendInt_spec:
  assumes "0 \<le> n" "n < 10 ^ w" "0 < w"
  shows "length (appendInt n w) = w" "list_all is_dec (appendInt n w)" "dec_val (appendInt n w) = n"
proof -
  have z: "is_dec (CHR ''0'')" by (simp add: is_dec_def)
  show "length (appendInt n w) = w" "list_all is_dec (appendInt n w)" "dec_val (appendInt n w) = n"
    using assms dec_digits_spec [of n] dec_digits_length [of n w] z
    by (auto simp: appendInt_def Let_def dec_val_append list_all_iff)
qed

lemma get_digits_appendInt:
  assumes "0 \<le> n" "n < 10 ^ w" "0 < w"
  shows "get_digits w (appendInt n w @ t) = Some (n, t)"
  using appendInt_spec [OF assms] by (simp add: get_digits_def)

lemma expect_Cons [simp]: "expect c (c # t) = Some t"
  by (simp add: expect_def)

lemma get_date_format:
  assumes "0 \<le> year_of t" and "year_of t \<le> 9999"
  shows "get_date (format_date t @ u) = Some (civil (day_of t), u)" and "valid_day (civil (day_of t))"
    and "length (format_date t) = 10"
proof -
  obtain y m d where c: "civil (day_of t) = (y, m, d)" by (cases "civil (day_of t)") auto
  note s = civil_spec [OF c]
  have "d \<le> 31" using s(5) daysIn_le [of "is_leap y" m] by simp
  then have b: "0 \<le> y" "y < 10 ^ 4" "0 \<le> m" "m < 10 ^ 2" "0 \<le> d" "d < 10 ^ 2"
    using assms s c by (simp_all add: year_of_def)
  show "get_date (format_date t @ u) = Some (civil (day_of t), u)"
    using s(2,3) get_digits_appendInt [OF b(1,2)] get_digits_appendInt [OF b(3,4)] get_digits_appendInt [OF b(5,6)]
    by (simp add: c get_date_def format_date_def)
  show "valid_day (civil (day_of t))" using s by (simp add: c valid_day_def)
  show "length (format_date t) = 10"
    using appendInt_spec(1) [OF b(1,2)] appendInt_spec(1) [OF b(3,4)] appendInt_spec(1) [OF b(5,6)]
    by (simp add: c format_date_def)
qed

lemma get_clock_fields:
  assumes "0 \<le> h" "h < 24" "0 \<le> mi" "mi < 60" "0 \<le> sc" "sc < 60"
  shows "get_clock (appendInt h 2 @ '':'' @ appendInt mi 2 @ '':'' @ appendInt sc 2 @ u) = Some (3600 * h + 60 * mi + sc, u)"
proof -
  have "get_digits 2 (appendInt n 2 @ v) = Some (n, v)" if "0 \<le> n" "n < 60" for n v
    using that by (intro get_digits_appendInt) auto
  then show ?thesis using assms by (simp add: get_clock_def get_hour_def)
qed

lemma get_clock_format: "get_clock (format_clock t @ u) = Some (t div sec_ns mod 86400, u)"
proof -
  define s where "s = t div sec_ns mod 86400"
  have s: "0 \<le> s" "s < 86400" by (simp_all add: s_def)
  have b: "0 \<le> s div 3600" "s div 3600 < 24" "0 \<le> s div 60 mod 60" "s div 60 mod 60 < 60" "0 \<le> s mod 60" "s mod 60 < 60"
    using s by simp_all
  have "s div 3600 = s div 60 div 60" using zdiv_zmult2_eq [of 60 s 60] by simp
  moreover have "s = 60 * (s div 60) + s mod 60" "s div 60 = 60 * (s div 60 div 60) + s div 60 mod 60" by simp_all
  ultimately have eq: "3600 * (s div 3600) + 60 * (s div 60 mod 60) + s mod 60 = s" by linarith
  show ?thesis
    using get_clock_fields [OF b, of u] unfolding eq format_clock_def Let_def s_def [symmetric] by simp
qed

lemma get_frac_digits:
  assumes "list_all is_dec ds" and "ds \<noteq> []" and "length ds \<le> 9"
  shows "get_frac (CHR ''.'' # ds @ ''Z'') = (dec_val ds * 10 ^ (9 - length ds), ''Z'')"
proof -
  have z: "\<not> is_dec (CHR ''Z'')" by (simp add: is_dec_def)
  obtain x s where ds: "ds = x # s" using assms(2) by (cases ds) auto
  have "takeWhile is_dec (ds @ ''Z'') = ds" "dropWhile is_dec (ds @ ''Z'') = ''Z''"
    using assms(1) z by (induction ds) auto
  then show ?thesis using assms ds by (simp add: get_frac_def Let_def)
qed

lemma strip_zeros_split: "\<exists>k. s = strip_zeros s @ replicate k (CHR ''0'')"
proof -
  have "rev s = takeWhile (\<lambda>c. c = CHR ''0'') (rev s) @ dropWhile (\<lambda>c. c = CHR ''0'') (rev s)" by simp
  moreover have "takeWhile (\<lambda>c. c = CHR ''0'') (rev s) = replicate (length (takeWhile (\<lambda>c. c = CHR ''0'') (rev s))) (CHR ''0'')"
    by (rule replicate_eqI) (auto dest: set_takeWhileD)
  ultimately have "rev s = replicate (length (takeWhile (\<lambda>c. c = CHR ''0'') (rev s))) (CHR ''0'') @ rev (strip_zeros s)"
    by (simp add: strip_zeros_def)
  then have "s = strip_zeros s @ replicate (length (takeWhile (\<lambda>c. c = CHR ''0'') (rev s))) (CHR ''0'')"
    by (metis rev_append rev_replicate rev_rev_ident)
  then show ?thesis by blast
qed

lemma get_frac_format:
  "get_frac (frac_fixed t @ ''Z'') = (t mod sec_ns, ''Z'')" "get_frac (frac_nano t @ ''Z'') = (t mod sec_ns, ''Z'')"
proof -
  define n where "n = t mod sec_ns"
  have n: "0 \<le> n" "n < 10 ^ 9" by (simp_all add: n_def sec_ns_def)
  define p where "p = appendInt n 9"
  have p: "length p = 9" "list_all is_dec p" "dec_val p = n" using n appendInt_spec [of n 9] by (auto simp: p_def)
  have "p \<noteq> []" using p(1) by auto
  then show "get_frac (frac_fixed t @ ''Z'') = (t mod sec_ns, ''Z'')"
    using get_frac_digits [of p] p by (simp add: frac_fixed_def p_def n_def [symmetric])
  obtain k where k: "p = strip_zeros p @ replicate k (CHR ''0'')" using strip_zeros_split by blast
  have all: "list_all is_dec (strip_zeros p)" and len: "length (strip_zeros p) + k = 9"
    and v: "n = dec_val (strip_zeros p) * 10 ^ k"
    using p k by (metis list_all_append, metis length_append length_replicate, metis add.right_neutral dec_val_append dec_val_zeros length_replicate)
  show "get_frac (frac_nano t @ ''Z'') = (t mod sec_ns, ''Z'')"
  proof (cases "n = 0")
    case True
    then show ?thesis by (simp add: frac_nano_def n_def get_frac_def)
  next
    case False
    then have "strip_zeros p \<noteq> []" using v by (auto simp: dec_val_def)
    moreover have "k = 9 - length (strip_zeros p)" using len by simp
    ultimately show ?thesis
      using False get_frac_digits [OF all] len v by (simp add: frac_nano_def p_def n_def)
  qed
qed

text \<open>An instant of the years 0 to 9999 is read back from either layout.\<close>

lemma parse_layout:
  assumes "0 \<le> year_of t" and "year_of t \<le> 9999" and "get_frac (f @ ''Z'') = (t mod sec_ns, ''Z'')"
  shows "parse_RFC3339 (format_date t @ ''T'' @ format_clock t @ f @ ''Z'') = Some t"
proof -
  obtain y m d where c: "civil (day_of t) = (y, m, d)" by (cases "civil (day_of t)") auto
  have "days_of_civil y m d * 86400 + t div sec_ns mod 86400 = t div sec_ns"
    using civil_spec(1) [OF c] by (simp add: day_of_def)
  moreover have "t div sec_ns * sec_ns + t mod sec_ns = t" by simp
  ultimately show ?thesis
    using get_date_format [OF assms(1,2)] get_clock_format [of t] assms(3)
    by (simp add: parse_RFC3339_def c get_zone_def del: mod_mult_div_eq)
qed

lemma parse_RFC3339Nano: "0 \<le> year_of t \<Longrightarrow> year_of t \<le> 9999 \<Longrightarrow> parse_RFC3339 (RFC3339Nano t) = Some t"
  using parse_layout get_frac_format(2) by (simp add: RFC3339Nano_def)

lemma parse_walTimeFormat: "0 \<le> year_of t \<Longrightarrow> year_of t \<le> 9999 \<Longrightarrow> parse_RFC3339 (walTimeFormat t) = Some t"
  using parse_layout get_frac_format(1) by (simp add: walTimeFormat_def)

lemma parse_date_format:
  "0 \<le> year_of t \<Longrightarrow> year_of t \<le> 9999 \<Longrightarrow> parse_date (format_date t) = Some (civil (day_of t))"
  using get_date_format(1,2) [of t] get_date_format(1) [of t "[]"] by (simp add: parse_date_def)

end
