(* ===== verification/Audit_Wal.thy ===== *)
theory Audit_Wal
  imports Go_Time
begin

text \<open>
  The write-ahead log of the audit tables (\<^verbatim>\<open>audit/wal/types.go\<close>, \<^verbatim>\<open>signer.go\<close>,
  \<^verbatim>\<open>writer.go\<close>, \<^verbatim>\<open>read.go\<close>): signed frames, one line of JSON each, appended to one file
  per day, and the reader the reconciler uses. A directory is the map from the names of its
  files to their bytes; how an open, a write or an fsync ends is given by the environment,
  a write that fails leaves any prefix of its data behind. Identifiers are printed and
  parsed by a third-party package, the parameters \<open>us\<close> and \<open>fs\<close>.
\<close>

section \<open>Frames\<close>

type_synonym Table = string
type_synonym Op = string

abbreviation (input) TableEvaluationRun :: Table where "TableEvaluationRun \<equiv> ''evaluation_run''"
abbreviation (input) TableEvaluationVerdict :: Table where "TableEvaluationVerdict \<equiv> ''evaluation_verdict''"
abbreviation (input) TableFinding :: Table where "TableFinding \<equiv> ''finding''"
abbreviation (input) OpInsert :: Op where "OpInsert \<equiv> ''insert''"

definition Table_IsValid :: "Table \<Rightarrow> bool" where
  "Table_IsValid t \<longleftrightarrow> t = TableEvaluationRun \<or> t = TableEvaluationVerdict \<or> t = TableFinding"

definition Op_IsValid :: "Op \<Rightarrow> bool" where
  "Op_IsValid p \<longleftrightarrow> p = OpInsert"

record AuditFrame =
  FrameID :: uuid
  fr_Table :: Table
  fr_Op :: Op
  RowPK :: uuid
  RowJSON :: string
  WrittenAt :: time
  SigningKeyID :: uuid
  fr_Signature :: string

datatype frame_complaint =
    ZeroFrameID | BadTable | BadOp | ZeroRowPK | EmptyRowJSON | BadRowJSON | ZeroWrittenAt | EmptySignature

datatype wal_error =
    WalContext | ErrBatchClosed | ErrFrameValidate frame_complaint | ErrFrameSizeExceeded | ErrTrailingPartialFrame
  | WalTable | WalZeroPK | WalEmptyRow | WalBadRow | WalMint | WalSign keys_error | WalEmptySignature
  | WalEncode | WalOS | WalParse

definition Validate :: "AuditFrame \<Rightarrow> frame_complaint option" where
  "Validate f =
     (if FrameID f = uuid_Nil then Some ZeroFrameID
      else if \<not> Table_IsValid (fr_Table f) then Some BadTable
      else if \<not> Op_IsValid (fr_Op f) then Some BadOp
      else if RowPK f = uuid_Nil then Some ZeroRowPK
      else if RowJSON f = [] then Some EmptyRowJSON
      else if \<not> json_Valid (RowJSON f) then Some BadRowJSON
      else if WrittenAt f = time_Zero then Some ZeroWrittenAt
      else if fr_Signature f = [] then Some EmptySignature
      else None)"

text \<open>A byte slice is written as Base64, a nil slice as null.\<close>

definition jbytes :: "string \<Rightarrow> jvalue" where
  "jbytes s = (if s = [] then VNull else VStr (b64_encode s))"

definition unsigned_fields :: "(uuid \<Rightarrow> string) \<Rightarrow> AuditFrame \<Rightarrow> jvalue \<Rightarrow> (string \<times> jvalue) list" where
  "unsigned_fields us f w =
     [(''frame_id'', jstr (us (FrameID f))), (''table'', jstr (fr_Table f)), (''op'', jstr (fr_Op f)),
      (''row_pk'', jstr (us (RowPK f))), (''row_json'', jbytes (RowJSON f)), (''written_at'', w),
      (''signing_key_id'', jstr (us (SigningKeyID f)))]"

definition signingDomainPrefix :: string where
  "signingDomainPrefix = ''audit-wal-v1'' @ [CHR 0x0A]"

definition SigningPayload :: "(uuid \<Rightarrow> string) \<Rightarrow> AuditFrame \<Rightarrow> wal_error + string" where
  "SigningPayload us f =
     (case Time_MarshalJSON (WrittenAt f) of
        None \<Rightarrow> Inl WalEncode
      | Some w \<Rightarrow> Inr (signingDomainPrefix @ marshal (jstruct (unsigned_fields us f w))))"

definition frame_value :: "(uuid \<Rightarrow> string) \<Rightarrow> AuditFrame \<Rightarrow> jvalue \<Rightarrow> jvalue" where
  "frame_value us f w = jstruct (unsigned_fields us f w @ [(''signature'', jbytes (fr_Signature f))])"

definition marshal_frame :: "(uuid \<Rightarrow> string) \<Rightarrow> AuditFrame \<Rightarrow> string option" where
  "marshal_frame us f = map_option (\<lambda>w. marshal (frame_value us f w)) (Time_MarshalJSON (WrittenAt f))"

definition zero_frame :: AuditFrame where
  "zero_frame =
     \<lparr>FrameID = uuid_Nil, fr_Table = [], fr_Op = [], RowPK = uuid_Nil, RowJSON = [], WrittenAt = time_Zero,
      SigningKeyID = uuid_Nil, fr_Signature = []\<rparr>"

definition frame_fields :: "string list" where
  "frame_fields =
     [''frame_id'', ''table'', ''op'', ''row_pk'', ''row_json'', ''written_at'', ''signing_key_id'', ''signature'']"

definition put_frame :: "(string \<Rightarrow> uuid option) \<Rightarrow> string \<Rightarrow> jvalue \<Rightarrow> AuditFrame \<Rightarrow> AuditFrame option" where
  "put_frame fs n v f =
     (if n = ''frame_id'' then map_option (\<lambda>x. f\<lparr>FrameID := x\<rparr>) (dec_uuid fs v (FrameID f))
      else if n = ''table'' then map_option (\<lambda>x. f\<lparr>fr_Table := x\<rparr>) (dec_string v (fr_Table f))
      else if n = ''op'' then map_option (\<lambda>x. f\<lparr>fr_Op := x\<rparr>) (dec_string v (fr_Op f))
      else if n = ''row_pk'' then map_option (\<lambda>x. f\<lparr>RowPK := x\<rparr>) (dec_uuid fs v (RowPK f))
      else if n = ''row_json'' then map_option (\<lambda>x. f\<lparr>RowJSON := x\<rparr>) (dec_bytes v (RowJSON f))
      else if n = ''written_at'' then map_option (\<lambda>x. f\<lparr>WrittenAt := x\<rparr>) (dec_time v (WrittenAt f))
      else if n = ''signing_key_id'' then map_option (\<lambda>x. f\<lparr>SigningKeyID := x\<rparr>) (dec_uuid fs v (SigningKeyID f))
      else map_option (\<lambda>x. f\<lparr>fr_Signature := x\<rparr>) (dec_bytes v (fr_Signature f)))"

definition unmarshal_frame :: "(string \<Rightarrow> uuid option) \<Rightarrow> string \<Rightarrow> AuditFrame option" where
  "unmarshal_frame fs s =
     Option.bind (parse_json s) (\<lambda>v. decode_struct False frame_fields (put_frame fs) v zero_frame)"

section \<open>Signing\<close>

text \<open>A signer chooses a key, has the payload built for it, and signs what it gets.\<close>

type_synonym FrameSigner = "ctx \<Rightarrow> (uuid \<Rightarrow> wal_error + string) \<Rightarrow> wal_error + uuid \<times> string"

definition keysManagerWALSigner :: "ed_verify \<Rightarrow> KMS \<Rightarrow> Manager \<Rightarrow> time \<Rightarrow> FrameSigner" where
  "keysManagerWALSigner ed kms m now c build =
     (case SignActive ed kms m now c
             (Some (\<lambda>k. case build k of Inl _ \<Rightarrow> Inl ErrKeysOther | Inr p \<Rightarrow> Inr p)) of
        Inl e \<Rightarrow> Inl (WalSign e)
      | Inr r \<Rightarrow> Inr r)"

text \<open>The stand-in signer of the tests hashes the payload built for the zero key.\<close>

definition noop_sign :: "(string \<Rightarrow> string) \<Rightarrow> FrameSigner" where
  "noop_sign sha256 c build =
     (if c = Cancelled then Inl WalContext
      else bindE (build uuid_Nil) (\<lambda>payload. if payload = [] then Inl (WalSign ErrKeysOther) else Inr (uuid_Nil, sha256 payload)))"

definition NoopVerify :: "(string \<Rightarrow> string) \<Rightarrow> string \<Rightarrow> string \<Rightarrow> bool" where
  "NoopVerify sha256 payload sig \<longleftrightarrow> payload \<noteq> [] \<and> length sig = 32 \<and> sha256 payload = sig"

section \<open>The writer\<close>

definition MaxFrameSize :: int where
  "MaxFrameSize = 2 ^ 20"

text \<open>The readings of the generator and the clock are arguments.\<close>

definition NewFrame ::
  "(uuid \<Rightarrow> string) \<Rightarrow> FrameSigner \<Rightarrow> ctx \<Rightarrow> uuid option \<Rightarrow> time \<Rightarrow> Table \<Rightarrow> uuid \<Rightarrow> string \<Rightarrow> wal_error + AuditFrame" where
  "NewFrame us signer c gen now table pk row =
     (if c = Cancelled then Inl WalContext
      else if \<not> Table_IsValid table then Inl WalTable
      else if pk = uuid_Nil then Inl WalZeroPK
      else if row = [] then Inl WalEmptyRow
      else if \<not> json_Valid row then Inl WalBadRow
      else
        (case gen of
           None \<Rightarrow> Inl WalMint
         | Some i \<Rightarrow>
             (let frame = \<lparr>FrameID = i, fr_Table = table, fr_Op = OpInsert, RowPK = pk, RowJSON = row, WrittenAt = now,
                           SigningKeyID = uuid_Nil, fr_Signature = []\<rparr> in
              bindE (signer c (\<lambda>k. SigningPayload us (frame\<lparr>SigningKeyID := k\<rparr>))) (\<lambda>(k, sig).
                if sig = [] then Inl WalEmptySignature
                else
                  (let f = frame\<lparr>SigningKeyID := k, fr_Signature := sig\<rparr> in
                   case Validate f of
                     Some e \<Rightarrow> Inl (ErrFrameValidate e)
                   | None \<Rightarrow>
                       (case marshal_frame us f of
                          None \<Rightarrow> Inl WalEncode
                        | Some s \<Rightarrow> if int (length s) + 1 > MaxFrameSize then Inl ErrFrameSizeExceeded else Inr f))))))"

definition partition_name :: "time \<Rightarrow> string" where
  "partition_name t = format_date t @ ''.wal''"

fun encodeFrames :: "(uuid \<Rightarrow> string) \<Rightarrow> AuditFrame list \<Rightarrow> wal_error + string" where
  "encodeFrames us [] = Inr []"
| "encodeFrames us (f # fs) =
     (case marshal_frame us f of
        None \<Rightarrow> Inl WalEncode
      | Some s \<Rightarrow>
          if int (length s) + 1 > MaxFrameSize then Inl ErrFrameSizeExceeded
          else bindE (encodeFrames us fs) (\<lambda>rest. Inr (s @ [CHR 0x0A] @ rest)))"

type_synonym wal_dir = "(string, string) gomap"

definition file_bytes :: "wal_dir \<Rightarrow> string \<Rightarrow> string" where
  "file_bytes dir name = (case map_of dir name of None \<Rightarrow> [] | Some b \<Rightarrow> b)"

definition append_file :: "string \<Rightarrow> string \<Rightarrow> wal_dir \<Rightarrow> wal_dir" where
  "append_file name data dir = gomap_put name (file_bytes dir name @ data) dir"

text \<open>
  How one append ends: completed; the file could not be opened; a prefix of the data was
  written; everything was written but the fsync or the close reported an error. The fsync
  of the directory after a first write has no visible effect and its error is dropped.
\<close>

datatype append_outcome = AppendOk | OpenFails | WriteFails nat | SyncFails | CloseFails

definition appendAndSync :: "append_outcome \<Rightarrow> string \<Rightarrow> string \<Rightarrow> wal_dir \<Rightarrow> wal_error option \<times> wal_dir" where
  "appendAndSync io name data dir =
     (case io of
        AppendOk \<Rightarrow> (None, append_file name data dir)
      | OpenFails \<Rightarrow> (Some WalOS, dir)
      | WriteFails n \<Rightarrow> (Some WalOS, append_file name (take n data) dir)
      | SyncFails \<Rightarrow> (Some WalOS, append_file name data dir)
      | CloseFails \<Rightarrow> (Some WalOS, append_file name data dir))"

text \<open>Frames grouped by the date they were written, in the order the dates first occur.\<close>

fun add_frame :: "AuditFrame \<Rightarrow> (string \<times> AuditFrame list) list \<Rightarrow> (string \<times> AuditFrame list) list" where
  "add_frame f [] = [(partition_name (WrittenAt f), [f])]"
| "add_frame f ((n, fs) # gs) = (if n = partition_name (WrittenAt f) then (n, fs @ [f]) # gs else (n, fs) # add_frame f gs)"

definition group_frames :: "AuditFrame list \<Rightarrow> (string \<times> AuditFrame list) list" where
  "group_frames frames = fold add_frame frames []"

fun flush_groups ::
  "(uuid \<Rightarrow> string) \<Rightarrow> (nat \<Rightarrow> append_outcome) \<Rightarrow> nat \<Rightarrow> (string \<times> AuditFrame list) list \<Rightarrow> wal_dir
   \<Rightarrow> wal_error option \<times> wal_dir" where
  "flush_groups us io n [] dir = (None, dir)"
| "flush_groups us io n ((name, frames) # gs) dir =
     (case encodeFrames us frames of
        Inl e \<Rightarrow> (Some e, dir)
      | Inr buf \<Rightarrow>
          (case appendAndSync (io n) name buf dir of
             (Some e, dir') \<Rightarrow> (Some e, dir')
           | (None, dir') \<Rightarrow> flush_groups us io (Suc n) gs dir'))"

definition wal_flush ::
  "(uuid \<Rightarrow> string) \<Rightarrow> (nat \<Rightarrow> append_outcome) \<Rightarrow> ctx \<Rightarrow> AuditFrame list \<Rightarrow> wal_dir \<Rightarrow> wal_error option \<times> wal_dir" where
  "wal_flush us io c frames dir =
     (if frames = [] then (None, dir)
      else if c = Cancelled then (Some WalContext, dir)
      else flush_groups us io 0 (group_frames frames) dir)"

section \<open>Batches\<close>

record TxBatch =
  b_frames :: "AuditFrame list"
  finalised :: bool

definition NewTxBatch :: TxBatch where
  "NewTxBatch = \<lparr>b_frames = [], finalised = False\<rparr>"

definition Stage :: "AuditFrame \<Rightarrow> TxBatch \<Rightarrow> wal_error option \<times> TxBatch" where
  "Stage f b =
     (if finalised b then (Some ErrBatchClosed, b)
      else
        (case Validate f of
           Some e \<Rightarrow> (Some (ErrFrameValidate e), b)
         | None \<Rightarrow> (None, b\<lparr>b_frames := b_frames b @ [f]\<rparr>)))"

definition StageNew ::
  "(uuid \<Rightarrow> string) \<Rightarrow> FrameSigner \<Rightarrow> ctx \<Rightarrow> uuid option \<Rightarrow> time \<Rightarrow> Table \<Rightarrow> uuid \<Rightarrow> string \<Rightarrow> TxBatch
   \<Rightarrow> (wal_error + AuditFrame) \<times> TxBatch" where
  "StageNew us signer c gen now table pk row b =
     (if finalised b then (Inl ErrBatchClosed, b)
      else
        (case NewFrame us signer c gen now table pk row of
           Inl e \<Rightarrow> (Inl e, b)
         | Inr f \<Rightarrow> (case Stage f b of (Some e, b') \<Rightarrow> (Inl e, b') | (None, b') \<Rightarrow> (Inr f, b'))))"

definition Batch_Len :: "TxBatch \<Rightarrow> nat" where
  "Batch_Len b = length (b_frames b)"

definition Batch_Commit ::
  "(uuid \<Rightarrow> string) \<Rightarrow> (nat \<Rightarrow> append_outcome) \<Rightarrow> ctx \<Rightarrow> TxBatch \<Rightarrow> wal_dir \<Rightarrow> wal_error option \<times> TxBatch \<times> wal_dir" where
  "Batch_Commit us io c b dir =
     (if finalised b then (Some ErrBatchClosed, b, dir)
      else
        (let b' = b\<lparr>finalised := True\<rparr> in
         if b_frames b' = [] then (None, b', dir)
         else (case wal_flush us io c (b_frames b') dir of (e, dir') \<Rightarrow> (e, b', dir'))))"

definition Batch_Cancel :: "TxBatch \<Rightarrow> TxBatch" where
  "Batch_Cancel b = (if finalised b then b else \<lparr>b_frames = [], finalised = True\<rparr>)"

section \<open>The reader\<close>

text \<open>
  The read buffer holds one line of at most \<^term>\<open>MaxFrameSize\<close> bytes and its terminator.
  \<open>broken\<close> says that the read ends with an error instead of the end of the file.
\<close>

function readFrames ::
  "(string \<Rightarrow> uuid option) \<Rightarrow> bool \<Rightarrow> AuditFrame list \<Rightarrow> string \<Rightarrow> AuditFrame list \<times> wal_error option" where
  "readFrames fs broken out s =
     (let line = takeWhile (\<lambda>c. c \<noteq> CHR 0x0A) s; rest = dropWhile (\<lambda>c. c \<noteq> CHR 0x0A) s in
      if int (length line) > MaxFrameSize then (out, Some ErrFrameSizeExceeded)
      else if rest = [] then
        (if broken then ([], Some WalOS)
         else if line = [] then (out, None)
         else (out, Some ErrTrailingPartialFrame))
      else if line = [] then readFrames fs broken out (tl rest)
      else
        (case unmarshal_frame fs line of
           None \<Rightarrow> (out, Some WalParse)
         | Some f \<Rightarrow>
             (case Validate f of
                Some e \<Rightarrow> (out, Some (ErrFrameValidate e))
              | None \<Rightarrow> readFrames fs broken (out @ [f]) (tl rest))))"
  by pat_completeness auto
termination
proof (relation "measure (\<lambda>(fs, broken, out, s). length s)", goal_cases)
  case (2 fs broken out s line rest)
  then have "length rest \<le> length s" "rest \<noteq> []" by simp_all
  then show ?case by (cases rest) auto
next
  case (3 fs broken out s line rest f)
  then have "length rest \<le> length s" "rest \<noteq> []" by simp_all
  then show ?case by (cases rest) auto
qed simp

declare readFrames.simps [simp del]

text \<open>The outcome of opening a listed file: its bytes, gone meanwhile, refused, or readable only in part.\<close>

datatype read_outcome = ReadOk | Vanished | OpenRefused | ReadBreaks nat

definition ReadPartition ::
  "(string \<Rightarrow> uuid option) \<Rightarrow> read_outcome \<Rightarrow> string option \<Rightarrow> AuditFrame list \<times> wal_error option" where
  "ReadPartition fs io file =
     (case (file, io) of
        (None, _) \<Rightarrow> ([], None)
      | (Some _, Vanished) \<Rightarrow> ([], None)
      | (Some _, OpenRefused) \<Rightarrow> ([], Some WalOS)
      | (Some s, ReadOk) \<Rightarrow> readFrames fs False [] s
      | (Some s, ReadBreaks n) \<Rightarrow> readFrames fs True [] (take n s))"

definition isPartitionFile :: "string \<Rightarrow> bool" where
  "isPartitionFile name \<longleftrightarrow>
     length name = 14 \<and> drop (length name - 4) name = ''.wal'' \<and> parse_date (take 10 name) \<noteq> None"

datatype listing = DirMissing | DirRefused | DirFiles wal_dir

definition partition_files :: "wal_dir \<Rightarrow> string list" where
  "partition_files dir = go_sort str_less (filter isPartitionFile (map fst dir))"

fun read_partitions ::
  "(string \<Rightarrow> uuid option) \<Rightarrow> (string \<Rightarrow> read_outcome) \<Rightarrow> wal_dir \<Rightarrow> AuditFrame list \<Rightarrow> wal_error option \<Rightarrow> string list
   \<Rightarrow> AuditFrame list \<times> wal_error option" where
  "read_partitions fs io dir out warning [] = (out, warning)"
| "read_partitions fs io dir out warning (n # ns) =
     (case ReadPartition fs (io n) (map_of dir n) of
        (frames, err) \<Rightarrow>
          (case err of
             None \<Rightarrow> read_partitions fs io dir (out @ frames) warning ns
           | Some e \<Rightarrow>
               if e = ErrTrailingPartialFrame \<or> e = ErrFrameSizeExceeded
               then read_partitions fs io dir (out @ frames) (Some e) ns
               else (out @ frames, Some e)))"

definition ReadAll ::
  "(string \<Rightarrow> uuid option) \<Rightarrow> (string \<Rightarrow> read_outcome) \<Rightarrow> listing \<Rightarrow> AuditFrame list \<times> wal_error option" where
  "ReadAll fs io l =
     (case l of
        DirMissing \<Rightarrow> ([], None)
      | DirRefused \<Rightarrow> ([], Some WalOS)
      | DirFiles dir \<Rightarrow> read_partitions fs io dir [] None (partition_files dir))"


section \<open>A frame and its line\<close>

text \<open>What the third-party package documents of the text of an identifier.\<close>

definition uuid_text :: "(uuid \<Rightarrow> string) \<Rightarrow> (string \<Rightarrow> uuid option) \<Rightarrow> bool" where
  "uuid_text us fs \<longleftrightarrow> (\<forall>i. fs (us i) = Some i \<and> list_all plain_char (us i))"

fun put_all :: "(string \<Rightarrow> jvalue \<Rightarrow> 'a \<Rightarrow> 'a option) \<Rightarrow> (string \<times> jvalue) list \<Rightarrow> 'a \<Rightarrow> 'a option" where
  "put_all put [] a = Some a"
| "put_all put ((k, v) # fs) a = (case put k v a of None \<Rightarrow> None | Some b \<Rightarrow> put_all put fs b)"

lemma decode_struct_jstruct:
  "list_all (\<lambda>(k, v). list_all plain_char k \<and> k \<in> set names) fs \<Longrightarrow>
     decode_struct strict names put (jstruct fs) a = put_all put fs a"
proof -
  have "list_all (\<lambda>(k, v). list_all plain_char k \<and> k \<in> set names) fs \<Longrightarrow>
     decode_fields strict names put (map (\<lambda>(k, v). (json_escape k, v)) fs) a = put_all put fs a" for a
    by (induction fs arbitrary: a)
      (auto simp: json_escape_plain unquote_plain_text find_field_def split: option.split)
  then show "list_all (\<lambda>(k, v). list_all plain_char k \<and> k \<in> set names) fs \<Longrightarrow>
     decode_struct strict names put (jstruct fs) a = put_all put fs a" by (simp add: jstruct_def)
qed

lemma dec_jstr [simp]:
  "valid_utf8 s \<Longrightarrow> dec_string (jstr s) old = Some s"
  "uuid_text us fs \<Longrightarrow> dec_uuid fs (jstr (us i)) i' = Some i"
  "uuid_text us fs \<Longrightarrow> dec_uuid_ptr fs (jstr (us i)) = Some (Some i)"
  by (simp_all add: jstr_def unquote_escaped valid_utf8_plain uuid_text_def)

lemma dec_jbytes [simp]: "dec_bytes (jbytes s) old = Some s"
  using b64_plain [of s] by (simp add: jbytes_def unquote_plain_text b64_decode_encode)

lemma wf_jbytes [simp]: "wf_jvalue (jbytes s)"
  using scan_string_plain_text [OF b64_plain, of s "[]"] by (simp add: jbytes_def)

lemma jdepth_jbytes [simp]: "jdepth (jbytes s) = 0"
  by (simp add: jbytes_def)

lemma time_text_plain:
  "list_all plain_char (RFC3339Nano t)" "list_all plain_char (walTimeFormat t)" "list_all plain_char (format_date t)"
proof -
  have d: "is_dec c \<Longrightarrow> plain_char c" for c by (auto simp: is_dec_def plain_char_def)
  have dd: "list_all plain_char (dec_digits n)" if "0 \<le> n" for n
    using dec_digits_spec [OF that] d by (auto simp: list_all_iff)
  have c: "plain_char (CHR ''-'')" "plain_char (CHR '':'')" "plain_char (CHR ''0'')" "plain_char (CHR ''T'')"
    "plain_char (CHR ''Z'')" "plain_char (CHR ''.'')" by (simp_all add: plain_char_def)
  have i: "list_all plain_char (appendInt n w)" for n w
    using dd [of "\<bar>n\<bar>"] c by (auto simp: appendInt_def Let_def list_all_iff)
  show date: "list_all plain_char (format_date t)" using i c by (simp add: format_date_def split: prod.split)
  have clock: "list_all plain_char (format_clock t)" using i c by (simp add: format_clock_def Let_def)
  have "set (strip_zeros s) \<subseteq> set s" for s by (auto simp: strip_zeros_def dest: set_dropWhileD)
  then have "list_all plain_char (strip_zeros (appendInt n w))" for n w
    using i [of n w] by (auto simp: list_all_iff)
  then show "list_all plain_char (RFC3339Nano t)"
    using date clock c by (simp add: RFC3339Nano_def frac_nano_def)
  show "list_all plain_char (walTimeFormat t)"
    using date clock c i by (simp add: walTimeFormat_def frac_fixed_def)
qed

lemma Time_MarshalJSON_Some:
  assumes "Time_MarshalJSON t = Some w"
  shows "dec_time w old = Some t" and "wf_jvalue w" and "jdepth w = 0" and "0 \<le> year_of t" "year_of t \<le> 9999"
  using assms parse_RFC3339Nano [of t] scan_string_plain_text [OF time_text_plain(1), of t "[]"]
  by (auto simp: Time_MarshalJSON_def split: if_splits)

lemma Validate_None:
  assumes "Validate f = None"
  shows "FrameID f \<noteq> uuid_Nil" "Table_IsValid (fr_Table f)" "fr_Op f = OpInsert" "RowPK f \<noteq> uuid_Nil" "RowJSON f \<noteq> []"
    "json_Valid (RowJSON f)" "fr_Signature f \<noteq> []" "WrittenAt f \<noteq> time_Zero"
  using assms by (auto simp: Validate_def Op_IsValid_def split: if_splits)

lemma frame_roundtrip:
  assumes "uuid_text us fs" and "Validate f = None" and "marshal_frame us f = Some s"
  shows "unmarshal_frame fs s = Some f"
proof -
  obtain w where w: "Time_MarshalJSON (WrittenAt f) = Some w" and s: "s = marshal (frame_value us f w)"
    using assms(3) by (auto simp: marshal_frame_def)
  note t = Time_MarshalJSON_Some [OF w]
  note v = Validate_None [OF assms(2)]
  have "valid_utf8 (fr_Table f)" "valid_utf8 (fr_Op f)"
    using v(2,3) by (auto simp: Table_IsValid_def plain_char_def intro!: valid_utf8_plain)
  moreover have "wf_jvalue (frame_value us f w)" "jdepth (frame_value us f w) = 1"
    using t(2,3) by (simp_all add: frame_value_def unsigned_fields_def wf_jstruct jdepth_jstruct)
  then have "parse_json s = Some (frame_value us f w)"
    unfolding s by (intro parse_marshal) (simp_all add: maxNestingDepth_def)
  moreover have "decode_struct False frame_fields (put_frame fs) (frame_value us f w) a
    = put_all (put_frame fs) (unsigned_fields us f w @ [(''signature'', jbytes (fr_Signature f))]) a" for a
    unfolding frame_value_def
    by (rule decode_struct_jstruct) (simp add: unsigned_fields_def frame_fields_def plain_char_def)
  ultimately show ?thesis
    using t(1) assms(1) by (simp add: unmarshal_frame_def unsigned_fields_def put_frame_def zero_frame_def)
qed


lemma marshal_frame_line:
  assumes "marshal_frame us f = Some s"
  shows "CHR 0x0A \<notin> set s" and "\<exists>u. s = CHR ''{'' # u"
proof -
  obtain w where w: "Time_MarshalJSON (WrittenAt f) = Some w" and s: "s = marshal (frame_value us f w)"
    using assms by (auto simp: marshal_frame_def)
  have "wf_jvalue (frame_value us f w)"
    using Time_MarshalJSON_Some(2) [OF w] by (simp add: frame_value_def unsigned_fields_def wf_jstruct)
  then show "CHR 0x0A \<notin> set s" unfolding s by (rule marshal_one_line)
  show "\<exists>u. s = CHR ''{'' # u" by (simp add: s frame_value_def jstruct_def)
qed

section \<open>Reading\<close>

lemma line_split:
  assumes "CHR 0x0A \<notin> set s"
  shows "takeWhile (\<lambda>c. c \<noteq> CHR 0x0A) (s @ CHR 0x0A # t) = s" "dropWhile (\<lambda>c. c \<noteq> CHR 0x0A) (s @ CHR 0x0A # t) = CHR 0x0A # t"
    "takeWhile (\<lambda>c. c \<noteq> CHR 0x0A) s = s" "dropWhile (\<lambda>c. c \<noteq> CHR 0x0A) s = []"
  using assms by (induction s) auto

lemma readFrames_Nil [simp]: "readFrames fs False out [] = (out, None)"
  by (simp add: readFrames.simps MaxFrameSize_def)

lemma readFrames_partial:
  assumes "CHR 0x0A \<notin> set s" and "s \<noteq> []"
  shows "readFrames fs False out s
    = (out, Some (if int (length s) > MaxFrameSize then ErrFrameSizeExceeded else ErrTrailingPartialFrame))"
  unfolding readFrames.simps [of fs False out s] Let_def line_split(3,4) [OF assms(1)] using assms(2) by simp

lemma readFrames_line:
  assumes "CHR 0x0A \<notin> set s" and "s \<noteq> []"
  shows "readFrames fs br out (s @ CHR 0x0A # t) =
    (if int (length s) > MaxFrameSize then (out, Some ErrFrameSizeExceeded)
     else
       (case unmarshal_frame fs s of
          None \<Rightarrow> (out, Some WalParse)
        | Some f \<Rightarrow>
            (case Validate f of
               Some e \<Rightarrow> (out, Some (ErrFrameValidate e))
             | None \<Rightarrow> readFrames fs br (out @ [f]) t)))"
  unfolding readFrames.simps [of fs br out "s @ CHR 0x0A # t"] Let_def line_split(1,2) [OF assms(1)]
  using assms(2) by (simp split: option.split)

lemma readFrames_blank: "readFrames fs br out (CHR 0x0A # t) = readFrames fs br out t"
  by (subst readFrames.simps) (simp add: Let_def MaxFrameSize_def)

lemma readFrames_frames:
  assumes "uuid_text us fs" and "list_all (\<lambda>f. Validate f = None) frames" and "encodeFrames us frames = Inr buf"
  shows "readFrames fs br out (buf @ t) = readFrames fs br (out @ frames) t"
  using assms(2,3)
proof (induction frames arbitrary: out buf)
  case (Cons f frames)
  obtain s rest where s: "marshal_frame us f = Some s" "int (length s) + 1 \<le> MaxFrameSize"
      "encodeFrames us frames = Inr rest" "buf = s @ CHR 0x0A # rest"
    using Cons.prems(2) by (auto simp: bindE_Inr split: option.splits if_splits)
  have "s \<noteq> []" "CHR 0x0A \<notin> set s" using marshal_frame_line [OF s(1)] by auto
  then show ?case
    using frame_roundtrip [OF assms(1) _ s(1)] Cons.IH [OF _ s(3)] Cons.prems(1) s(2,4)
    by (simp add: readFrames_line)
qed simp

text \<open>A file that reads without complaint can be read on from its end.\<close>

lemma readFrames_append:
  "readFrames fs False out a = (frames, None) \<Longrightarrow> readFrames fs False out (a @ b) = readFrames fs False frames b"
proof (induction fs False out a rule: readFrames.induct)
  case (1 fs out s)
  define line rest where lr: "line = takeWhile (\<lambda>c. c \<noteq> CHR 0x0A) s" "rest = dropWhile (\<lambda>c. c \<noteq> CHR 0x0A) s"
  have s: "s = line @ rest" and nl: "CHR 0x0A \<notin> set line"
    by (simp_all add: lr) (auto dest: set_takeWhileD)
  have small: "\<not> int (length line) > MaxFrameSize"
    using 1(3) unfolding readFrames.simps [of fs False out s] Let_def lr [symmetric] by (auto split: if_splits)
  show ?case
  proof (cases "rest = []")
    case True
    then have "line = []" using readFrames_partial [OF nl, of fs out] 1(3) s by (cases "line = []") auto
    then show ?thesis using True s 1(3) by simp
  next
    case False
    then obtain t where t: "rest = CHR 0x0A # t"
      using hd_dropWhile [of "\<lambda>c. c \<noteq> CHR 0x0A" s] unfolding lr(2) [symmetric] by (cases rest) auto
    have st: "s @ b = line @ CHR 0x0A # (t @ b)" "s = line @ CHR 0x0A # t" using s t by simp_all
    show ?thesis
    proof (cases "line = []")
      case True
      have "readFrames fs False out s = readFrames fs False out t" "readFrames fs False out (s @ b) = readFrames fs False out (t @ b)"
        using st True by (simp_all add: readFrames_blank)
      then show ?thesis using 1(1) [OF lr] small False True t 1(3) by simp
    next
      case ne: False
      obtain f where f: "unmarshal_frame fs line = Some f" "Validate f = None"
          "readFrames fs False (out @ [f]) t = (frames, None)"
        using 1(3) unfolding st(2) readFrames_line [OF nl ne, of fs False out t] using small by (auto split: option.splits)
      then have "readFrames fs False (out @ [f]) (t @ b) = readFrames fs False frames b"
        using 1(2) [OF lr small False ne f(1,2)] t by simp
      then show ?thesis using readFrames_line [OF nl ne, of fs False out "t @ b"] f small st(1) by simp
    qed
  qed
qed

lemma first_line:
  obtains (last) "CHR 0x0A \<notin> set s" | (line) l t where "s = l @ CHR 0x0A # t" "CHR 0x0A \<notin> set l"
  using split_list_first [of "CHR 0x0A" s] by blast

lemma readFrames_acc:
  "readFrames fs False out s = (out @ fst (readFrames fs False [] s), snd (readFrames fs False [] s))"
proof (induction "length s" arbitrary: out s rule: less_induct)
  case less
  show ?case
  proof (cases s rule: first_line)
    case last
    then show ?thesis using readFrames_partial [of s fs] by (cases "s = []") auto
  next
    case (line l t)
    obtain fr e where "readFrames fs False [] t = (fr, e)" by (cases "readFrames fs False [] t") auto
    then have ih: "readFrames fs False o' t = (o' @ fr, e)" for o'
      using less [of t o'] line(1) by simp
    show ?thesis
    proof (cases "l = []")
      case True
      then show ?thesis using line ih by (simp add: readFrames_blank)
    next
      case False
      show ?thesis
        unfolding line(1) readFrames_line [OF line(2) False]
        by (simp add: ih split: option.split)
    qed
  qed
qed

text \<open>Of a write that is cut short, the complete lines are read and the rest is reported.\<close>

lemma readFrames_torn:
  assumes "uuid_text us fs" and "list_all (\<lambda>f. Validate f = None) frames" and "encodeFrames us frames = Inr buf"
  shows "\<exists>k e. readFrames fs False out (take n buf) = (out @ take k frames, e) \<and> (e = None \<or> e = Some ErrTrailingPartialFrame)
    \<and> k \<le> length frames \<and> (k = length frames \<longleftrightarrow> length buf \<le> n)"
  using assms(2,3)
proof (induction frames arbitrary: out buf n)
  case (Cons f frames)
  obtain s rest where s: "marshal_frame us f = Some s" "int (length s) + 1 \<le> MaxFrameSize"
      "encodeFrames us frames = Inr rest" "buf = s @ CHR 0x0A # rest"
    using Cons.prems(2) by (auto simp: bindE_Inr split: option.splits if_splits)
  have ne: "s \<noteq> []" and nl: "CHR 0x0A \<notin> set s" using marshal_frame_line [OF s(1)] by auto
  show ?case
  proof (cases "n \<le> length s")
    case True
    have t: "take n buf = take n s" using True s(4) by simp
    have "CHR 0x0A \<notin> set (take n s)" using nl by (meson in_set_takeD)
    then have "readFrames fs False out (take n buf) = (out, if n = 0 then None else Some ErrTrailingPartialFrame)"
      using readFrames_partial [of "take n s" fs out] ne s(2) by (cases "n = 0") (auto simp: t)
    then show ?thesis using True s(4) by (intro exI [of _ 0] exI [of _ "if n = 0 then None else Some ErrTrailingPartialFrame"] conjI) auto
  next
    case False
    then obtain m where m: "n = Suc (length s + m)" by (metis less_iff_Suc_add not_le)
    have t: "take n buf = s @ CHR 0x0A # take m rest" using m s(4) by (simp add: take_Cons')
    obtain k e where ke: "readFrames fs False (out @ [f]) (take m rest) = ((out @ [f]) @ take k frames, e)"
        "e = None \<or> e = Some ErrTrailingPartialFrame" "k \<le> length frames" "k = length frames \<longleftrightarrow> length rest \<le> m"
      using Cons.IH [OF _ s(3), of "out @ [f]" m] Cons.prems(1) by auto
    have "readFrames fs False out (take n buf) = readFrames fs False (out @ [f]) (take m rest)"
      unfolding t readFrames_line [OF nl ne]
      using frame_roundtrip [OF assms(1) _ s(1)] Cons.prems(1) s(2) by simp
    then show ?thesis using ke m s(4) by (intro exI [of _ "Suc k"] exI [of _ e] conjI) auto
  qed
qed simp


section \<open>The directory as a log\<close>

text \<open>What the files hold, by name; a directory whose files all read without complaint.\<close>

definition wal_log :: "(string \<Rightarrow> uuid option) \<Rightarrow> wal_dir \<Rightarrow> string \<Rightarrow> AuditFrame list" where
  "wal_log fs dir name = fst (readFrames fs False [] (file_bytes dir name))"

definition partition_dir :: "wal_dir \<Rightarrow> bool" where
  "partition_dir dir \<longleftrightarrow> gomap_ok dir \<and> list_all isPartitionFile (map fst dir)"

definition frames_for :: "string \<Rightarrow> AuditFrame list \<Rightarrow> AuditFrame list" where
  "frames_for name frames = filter (\<lambda>f. partition_name (WrittenAt f) = name) frames"

lemma file_bytes_append [simp]:
  "file_bytes (append_file n d dir) m = (if m = n then file_bytes dir n @ d else file_bytes dir m)"
  by (simp add: append_file_def file_bytes_def)

lemma keys_append_file: "set (map fst (append_file n d dir)) = insert n (set (map fst dir))"
  by (simp add: append_file_def gomap_put_def dom_update)

lemma partition_dir_append: "partition_dir dir \<Longrightarrow> isPartitionFile n \<Longrightarrow> partition_dir (append_file n d dir)"
  using keys_append_file [of n d dir] by (auto simp: partition_dir_def append_file_def list_all_iff)

lemma isPartitionFile_name:
  assumes "0 \<le> year_of t" and "year_of t \<le> 9999"
  shows "isPartitionFile (partition_name t)"
  using get_date_format(3) [OF assms] parse_date_format [OF assms] by (simp add: isPartitionFile_def partition_name_def)

lemma encodeFrames_years:
  "encodeFrames us frames = Inr buf \<Longrightarrow> f \<in> set frames \<Longrightarrow> 0 \<le> year_of (WrittenAt f) \<and> year_of (WrittenAt f) \<le> 9999"
  by (induction frames arbitrary: buf)
    (auto simp: bindE_Inr marshal_frame_def Time_MarshalJSON_def split: option.splits if_splits)

lemma group_frames_snoc: "group_frames (frames @ [f]) = add_frame f (group_frames frames)"
  by (simp add: group_frames_def)

definition groups_ok :: "(string \<times> AuditFrame list) list \<Rightarrow> AuditFrame list \<Rightarrow> bool" where
  "groups_ok gs frames \<longleftrightarrow>
     distinct (map fst gs) \<and> (\<forall>n xs. (n, xs) \<in> set gs \<longrightarrow> xs = frames_for n frames \<and> xs \<noteq> [])
     \<and> (\<forall>f \<in> set frames. partition_name (WrittenAt f) \<in> set (map fst gs))"

lemma add_frame_keys:
  "map fst (add_frame f gs)
     = (if partition_name (WrittenAt f) \<in> set (map fst gs) then map fst gs else map fst gs @ [partition_name (WrittenAt f)])"
  by (induction f gs rule: add_frame.induct) auto

lemma add_frame_mem:
  assumes "(n, xs) \<in> set (add_frame f gs)" and "distinct (map fst gs)"
  shows "(n, xs) \<in> set gs \<and> n \<noteq> partition_name (WrittenAt f)
    \<or> n = partition_name (WrittenAt f) \<and> (\<exists>ys. (n, ys) \<in> set gs \<and> xs = ys @ [f] \<or> n \<notin> set (map fst gs) \<and> xs = [f])"
  using assms
proof (induction gs)
  case (Cons g gs)
  obtain m ys where g: "g = (m, ys)" by (cases g)
  show ?case
  proof (cases "m = partition_name (WrittenAt f)")
    case True
    have "n \<noteq> m" if "(n, xs) \<in> set gs" using that Cons.prems(2) g by force
    then show ?thesis using Cons.prems(1) True g by auto
  next
    case False
    then show ?thesis using Cons g by auto
  qed
qed simp

lemma groups_ok_add: "groups_ok gs frames \<Longrightarrow> groups_ok (add_frame f gs) (frames @ [f])"
proof -
  assume ok: "groups_ok gs frames"
  let ?p = "partition_name (WrittenAt f)"
  have dist: "distinct (map fst gs)" and grp: "(n, xs) \<in> set gs \<Longrightarrow> xs = frames_for n frames \<and> xs \<noteq> []"
    and all: "g \<in> set frames \<Longrightarrow> partition_name (WrittenAt g) \<in> set (map fst gs)" for n xs g
    using ok unfolding groups_ok_def by blast+
  have new: "?p \<notin> set (map fst gs) \<Longrightarrow> frames_for ?p frames = []"
    unfolding frames_for_def filter_empty_conv using all by metis
  have "xs = frames_for n (frames @ [f]) \<and> xs \<noteq> []" if "(n, xs) \<in> set (add_frame f gs)" for n xs
    using add_frame_mem [OF that dist]
  proof (elim disjE conjE exE)
    fix ys
    assume "n = ?p" "(n, ys) \<in> set gs" "xs = ys @ [f]"
    then show ?thesis using grp [of n ys] by (simp add: frames_for_def)
  qed (use grp new in \<open>auto simp: frames_for_def\<close>)
  moreover have "distinct (map fst (add_frame f gs))" using dist by (simp add: add_frame_keys)
  moreover have "\<forall>g \<in> set (frames @ [f]). partition_name (WrittenAt g) \<in> set (map fst (add_frame f gs))"
    using all unfolding add_frame_keys by auto
  ultimately show ?thesis unfolding groups_ok_def by blast
qed

lemma groups_ok_group_frames: "groups_ok (group_frames frames) frames"
proof (induction frames rule: rev_induct)
  case (snoc f frames)
  then show ?case unfolding group_frames_snoc by (rule groups_ok_add)
qed (simp add: group_frames_def groups_ok_def)


definition read_status :: "(string \<Rightarrow> uuid option) \<Rightarrow> wal_dir \<Rightarrow> string \<Rightarrow> wal_error option" where
  "read_status fs dir name = snd (readFrames fs False [] (file_bytes dir name))"

lemma readFrames_log: "readFrames fs False [] (file_bytes dir n) = (wal_log fs dir n, read_status fs dir n)"
  by (simp add: wal_log_def read_status_def)

lemma append_complete:
  assumes "uuid_text us fs" and "list_all (\<lambda>f. Validate f = None) xs" and "encodeFrames us xs = Inr buf"
    and "read_status fs dir n = None"
  shows "wal_log fs (append_file n buf dir) n = wal_log fs dir n @ xs" "read_status fs (append_file n buf dir) n = None"
proof -
  have "readFrames fs False [] (file_bytes dir n @ buf) = readFrames fs False (wal_log fs dir n) buf"
    using readFrames_append readFrames_log [of fs dir n] assms(4) by metis
  also have "\<dots> = (wal_log fs dir n @ xs, None)"
    using readFrames_frames [OF assms(1-3), of False "wal_log fs dir n" "[]"] by simp
  finally show "wal_log fs (append_file n buf dir) n = wal_log fs dir n @ xs" "read_status fs (append_file n buf dir) n = None"
    by (simp_all add: wal_log_def read_status_def)
qed

lemma append_torn:
  assumes "uuid_text us fs" and "list_all (\<lambda>f. Validate f = None) xs" and "encodeFrames us xs = Inr buf"
    and "read_status fs dir n = None"
  shows "\<exists>k. wal_log fs (append_file n (take m buf) dir) n = wal_log fs dir n @ take k xs
    \<and> read_status fs (append_file n (take m buf) dir) n \<in> {None, Some ErrTrailingPartialFrame}"
proof -
  have "readFrames fs False [] (file_bytes dir n @ take m buf) = readFrames fs False (wal_log fs dir n) (take m buf)"
    using readFrames_append readFrames_log [of fs dir n] assms(4) by metis
  moreover obtain k e where "readFrames fs False (wal_log fs dir n) (take m buf) = (wal_log fs dir n @ take k xs, e)"
      "e = None \<or> e = Some ErrTrailingPartialFrame"
    using readFrames_torn [OF assms(1-3)] by blast
  ultimately show ?thesis by (intro exI [of _ k]) (auto simp: wal_log_def read_status_def)
qed

lemma log_elsewhere [simp]:
  "n \<noteq> m \<Longrightarrow> wal_log fs (append_file n d dir) m = wal_log fs dir m"
  "n \<noteq> m \<Longrightarrow> read_status fs (append_file n d dir) m = read_status fs dir m"
  by (simp_all add: wal_log_def read_status_def)

definition group_of :: "(string \<times> AuditFrame list) list \<Rightarrow> string \<Rightarrow> AuditFrame list" where
  "group_of gs n = (case map_of gs n of None \<Rightarrow> [] | Some xs \<Rightarrow> xs)"

lemma group_of_Cons: "group_of ((m, xs) # gs) n = (if n = m then xs else group_of gs n)"
  by (simp add: group_of_def)

lemma group_of_fresh: "n \<notin> set (map fst gs) \<Longrightarrow> group_of gs n = []"
  by (simp add: group_of_def map_of_eq_None_iff [THEN iffD2])

lemma flush_groups_log:
  assumes ut: "uuid_text us fs" and "list_all (\<lambda>(n, xs). list_all (\<lambda>f. Validate f = None) xs) gs" and "distinct (map fst gs)"
    and "list_all (\<lambda>(n, xs). read_status fs dir n = None) gs" and "flush_groups us io k gs dir = (e, dir')"
  shows "(e = None \<longrightarrow> wal_log fs dir' n = wal_log fs dir n @ group_of gs n \<and> read_status fs dir' n = read_status fs dir n)
    \<and> (\<exists>j. wal_log fs dir' n = wal_log fs dir n @ take j (group_of gs n)
      \<and> read_status fs dir' n \<in> {read_status fs dir n, Some ErrTrailingPartialFrame})"
  using assms(2-)
proof (induction gs arbitrary: k dir)
  case (Cons g gs)
  obtain name xs where g: "g = (name, xs)" by (cases g)
  have valid: "list_all (\<lambda>f. Validate f = None) xs" and clean: "read_status fs dir name = None"
    using Cons.prems g by auto
  have fresh: "name \<notin> set (map fst gs)" using Cons.prems(2) g by simp
  note grp = group_of_Cons [of name xs gs n] group_of_fresh [OF fresh]
  have keep: "?case" if "e = Some x" "dir' = dir" for x
    using that by (intro conjI exI [of _ 0]) auto
  show ?case
  proof (cases "encodeFrames us xs")
    case (Inl x)
    then have "e = Some x" "dir' = dir" using Cons.prems(4) g by auto
    then show ?thesis by (rule keep)
  next
    case (Inr buf)
    note full = append_complete [OF ut valid Inr clean] and torn = append_torn [OF ut valid Inr clean]
    have cut: "?thesis" if "e = Some x" "dir' = append_file name (take m buf) dir" for x m
    proof (cases "n = name")
      case True
      then show ?thesis using that torn [of m] clean grp by (auto simp: g)
    next
      case False
      then show ?thesis using that by (intro conjI exI [of _ 0]) auto
    qed
    show ?thesis
    proof (cases "io k")
      case AppendOk
      let ?d = "append_file name buf dir"
      have "flush_groups us io (Suc k) gs ?d = (e, dir')"
        using Cons.prems(4) g Inr AppendOk by (simp add: appendAndSync_def)
      moreover have "list_all (\<lambda>(n, xs). read_status fs ?d n = None) gs"
      proof -
        have "read_status fs ?d n = None" if "(n, xs) \<in> set gs" for n xs
        proof -
          have "name \<noteq> n" using that fresh by force
          then show ?thesis using that Cons.prems(3) by (auto simp: list_all_iff)
        qed
        then show ?thesis by (auto simp: list_all_iff)
      qed
      ultimately have ih: "(e = None \<longrightarrow> wal_log fs dir' n = wal_log fs ?d n @ group_of gs n \<and> read_status fs dir' n = read_status fs ?d n)
        \<and> (\<exists>j. wal_log fs dir' n = wal_log fs ?d n @ take j (group_of gs n)
          \<and> read_status fs dir' n \<in> {read_status fs ?d n, Some ErrTrailingPartialFrame})"
        using Cons.IH [of ?d "Suc k"] Cons.prems(1,2) g by simp
      show ?thesis
      proof (cases "n = name")
        case True
        then show ?thesis using ih full grp clean by (auto simp: g intro!: exI [of _ "length xs"])
      next
        case False
        then show ?thesis using ih grp by (simp add: g)
      qed
    next
      case OpenFails
      then have "e = Some WalOS" "dir' = dir" using Cons.prems(4) g Inr by (auto simp: appendAndSync_def)
      then show ?thesis by (rule keep)
    next
      case (WriteFails m)
      then have "e = Some WalOS" "dir' = append_file name (take m buf) dir"
        using Cons.prems(4) g Inr by (auto simp: appendAndSync_def)
      then show ?thesis by (rule cut)
    next
      case SyncFails
      then have "e = Some WalOS" "dir' = append_file name (take (length buf) buf) dir"
        using Cons.prems(4) g Inr by (auto simp: appendAndSync_def)
      then show ?thesis by (rule cut)
    next
      case CloseFails
      then have "e = Some WalOS" "dir' = append_file name (take (length buf) buf) dir"
        using Cons.prems(4) g Inr by (auto simp: appendAndSync_def)
      then show ?thesis by (rule cut)
    qed
  qed
qed (auto simp: group_of_def)


lemma group_of_group_frames: "group_of (group_frames frames) n = frames_for n frames"
proof (cases "n \<in> set (map fst (group_frames frames))")
  case True
  then obtain xs where "map_of (group_frames frames) n = Some xs" by (metis domD map_of_eq_None_iff domIff set_map not_None_eq)
  then show ?thesis
    using groups_ok_group_frames [of frames] map_of_SomeD by (fastforce simp: group_of_def groups_ok_def)
next
  case False
  have "frames_for n frames = []"
    using False groups_ok_group_frames [of frames] unfolding frames_for_def filter_empty_conv groups_ok_def by metis
  then show ?thesis using group_of_fresh [OF False] by simp
qed

text \<open>A batch holds frames that passed validation.\<close>

definition batch_inv :: "TxBatch \<Rightarrow> bool" where
  "batch_inv b \<longleftrightarrow> list_all (\<lambda>f. Validate f = None) (b_frames b)"

definition clean_dir :: "(string \<Rightarrow> uuid option) \<Rightarrow> wal_dir \<Rightarrow> bool" where
  "clean_dir fs dir \<longleftrightarrow> (\<forall>n. read_status fs dir n = None)"

lemma wal_flush_log:
  assumes "uuid_text us fs" and "list_all (\<lambda>f. Validate f = None) frames" and "clean_dir fs dir"
    and "wal_flush us io c frames dir = (e, dir')"
  shows "e = None \<Longrightarrow> wal_log fs dir' n = wal_log fs dir n @ frames_for n frames" and "e = None \<Longrightarrow> clean_dir fs dir'"
    and "\<exists>j. wal_log fs dir' n = wal_log fs dir n @ take j (frames_for n frames)
      \<and> read_status fs dir' n \<in> {None, Some ErrTrailingPartialFrame}"
proof -
  have st: "read_status fs dir m = None" for m using assms(3) by (simp add: clean_dir_def)
  have "(e = None \<longrightarrow> wal_log fs dir' n = wal_log fs dir n @ frames_for n frames \<and> read_status fs dir' n = None)
    \<and> (\<exists>j. wal_log fs dir' n = wal_log fs dir n @ take j (frames_for n frames)
      \<and> read_status fs dir' n \<in> {None, Some ErrTrailingPartialFrame})" for n
  proof (cases "frames = [] \<or> c = Cancelled")
    case True
    then have "dir' = dir" "e = None \<Longrightarrow> frames = []" using assms(4) by (auto simp: wal_flush_def split: if_splits)
    then show ?thesis using st by (auto simp: frames_for_def intro!: exI [of _ 0])
  next
    case False
    have ok: "groups_ok (group_frames frames) frames" by (rule groups_ok_group_frames)
    have "list_all (\<lambda>(n, xs). list_all (\<lambda>f. Validate f = None) xs) (group_frames frames)"
      using ok assms(2) by (fastforce simp: groups_ok_def frames_for_def list_all_iff)
    moreover have "distinct (map fst (group_frames frames))" using ok by (simp add: groups_ok_def)
    moreover have "flush_groups us io 0 (group_frames frames) dir = (e, dir')" using assms(4) False by (simp add: wal_flush_def)
    ultimately show ?thesis
      using flush_groups_log [OF assms(1), of "group_frames frames" dir io 0 e dir' n] st
      by (simp add: group_of_group_frames list_all_iff)
  qed
  note log = this
  show "e = None \<Longrightarrow> wal_log fs dir' n = wal_log fs dir n @ frames_for n frames" using log [of n] by blast
  show "e = None \<Longrightarrow> clean_dir fs dir'" using log unfolding clean_dir_def by blast
  show "\<exists>j. wal_log fs dir' n = wal_log fs dir n @ take j (frames_for n frames)
      \<and> read_status fs dir' n \<in> {None, Some ErrTrailingPartialFrame}" using log [of n] by blast
qed


lemma flush_groups_names:
  assumes "flush_groups us io k gs dir = (e, dir')" and "partition_dir dir"
    and "list_all (\<lambda>(n, xs). xs \<noteq> [] \<and> list_all (\<lambda>f. partition_name (WrittenAt f) = n) xs) gs"
  shows "partition_dir dir'" and "e = None \<Longrightarrow> set (map fst dir') = set (map fst dir) \<union> set (map fst gs)"
proof -
  have "partition_dir dir' \<and> (e = None \<longrightarrow> set (map fst dir') = set (map fst dir) \<union> set (map fst gs))"
    using assms
  proof (induction gs arbitrary: k dir)
    case (Cons g gs)
    obtain n xs where g: "g = (n, xs)" by (cases g)
    show ?case
    proof (cases "encodeFrames us xs")
      case (Inl x)
      then show ?thesis using Cons.prems g by auto
    next
      case (Inr buf)
      obtain f where "f \<in> set xs" "partition_name (WrittenAt f) = n"
        using Cons.prems(3) g by (cases xs) (auto simp: list_all_iff)
      then have part: "isPartitionFile n" using encodeFrames_years [OF Inr] isPartitionFile_name by auto
      have pd: "partition_dir (append_file n d dir)" for d
        using Cons.prems(2) part by (rule partition_dir_append)
      show ?thesis
      proof (cases "io k")
        case AppendOk
        have "flush_groups us io (Suc k) gs (append_file n buf dir) = (e, dir')"
          using Cons.prems(1) g Inr AppendOk by (simp add: appendAndSync_def)
        then have "partition_dir dir' \<and> (e = None \<longrightarrow> set (map fst dir') = set (map fst (append_file n buf dir)) \<union> set (map fst gs))"
          using Cons.IH [of "Suc k" "append_file n buf dir"] pd [of buf] Cons.prems(3) by auto
        then show ?thesis unfolding keys_append_file using g by auto
      qed (use Cons.prems(1,2) g Inr pd in \<open>auto simp: appendAndSync_def\<close>)
    qed
  qed simp
  then show "partition_dir dir'" and "e = None \<Longrightarrow> set (map fst dir') = set (map fst dir) \<union> set (map fst gs)" by blast+
qed

lemma wal_flush_names:
  assumes "wal_flush us io c frames dir = (e, dir')" and "partition_dir dir"
  shows "partition_dir dir'"
    and "e = None \<Longrightarrow> set (map fst dir') = set (map fst dir) \<union> (\<lambda>f. partition_name (WrittenAt f)) ` set frames"
proof -
  have ok: "groups_ok (group_frames frames) frames" by (rule groups_ok_group_frames)
  have grp: "list_all (\<lambda>(n, xs). xs \<noteq> [] \<and> list_all (\<lambda>f. partition_name (WrittenAt f) = n) xs) (group_frames frames)"
  proof -
    have "xs \<noteq> [] \<and> list_all (\<lambda>f. partition_name (WrittenAt f) = n) xs" if "(n, xs) \<in> set (group_frames frames)" for n xs
    proof -
      have "xs = frames_for n frames" "xs \<noteq> []" using ok that unfolding groups_ok_def by blast+
      then show ?thesis by (simp add: frames_for_def list_all_iff)
    qed
    then show ?thesis by (auto simp: list_all_iff)
  qed
  have keys: "set (map fst (group_frames frames)) = (\<lambda>f. partition_name (WrittenAt f)) ` set frames"
  proof
    show "set (map fst (group_frames frames)) \<subseteq> (\<lambda>f. partition_name (WrittenAt f)) ` set frames"
    proof
      fix n
      assume "n \<in> set (map fst (group_frames frames))"
      then obtain xs where "(n, xs) \<in> set (group_frames frames)" by auto
      then have "xs = frames_for n frames" "xs \<noteq> []" using ok unfolding groups_ok_def by blast+
      then show "n \<in> (\<lambda>f. partition_name (WrittenAt f)) ` set frames" by (auto simp: frames_for_def filter_empty_conv)
    qed
    show "(\<lambda>f. partition_name (WrittenAt f)) ` set frames \<subseteq> set (map fst (group_frames frames))"
      using ok unfolding groups_ok_def by blast
  qed
  show "partition_dir dir'"
    using assms flush_groups_names(1) [OF _ assms(2) grp] by (auto simp: wal_flush_def split: if_splits)
  show "e = None \<Longrightarrow> set (map fst dir') = set (map fst dir) \<union> (\<lambda>f. partition_name (WrittenAt f)) ` set frames"
    using assms flush_groups_names(2) [OF _ assms(2) grp] keys by (auto simp: wal_flush_def split: if_splits)
qed

text \<open>The whole directory, read in the order of the dates.\<close>

lemma read_partitions_log:
  assumes "\<forall>n \<in> set ns. map_of dir n \<noteq> None \<and> read_status fs dir n = None"
  shows "read_partitions fs (\<lambda>_. ReadOk) dir out w ns = (out @ concat (map (wal_log fs dir) ns), w)"
  using assms
proof (induction ns arbitrary: out)
  case (Cons n ns)
  then obtain b where b: "map_of dir n = Some b" by auto
  then have "readFrames fs False [] b = (wal_log fs dir n, None)"
    using readFrames_log [of fs dir n] Cons.prems by (simp add: file_bytes_def)
  then show ?case using Cons b by (simp add: ReadPartition_def)
qed simp

lemma partition_files_set: "partition_dir dir \<Longrightarrow> set (partition_files dir) = set (map fst dir)"
  by (auto simp: partition_files_def partition_dir_def list_all_iff)

lemma ReadAll_log:
  assumes "clean_dir fs dir" and "partition_dir dir"
  shows "ReadAll fs (\<lambda>_. ReadOk) (DirFiles dir) = (concat (map (wal_log fs dir) (partition_files dir)), None)"
proof -
  have "map_of dir n \<noteq> None" if "n \<in> set (partition_files dir)" for n
    using that partition_files_set [OF assms(2)] by (simp add: map_of_eq_None_iff)
  then show ?thesis using assms(1) by (simp add: ReadAll_def read_partitions_log clean_dir_def)
qed

section \<open>Batches and histories\<close>

lemma batch_inv_new [simp]: "batch_inv NewTxBatch"
  by (simp add: batch_inv_def NewTxBatch_def)

lemma batch_inv_Stage: "batch_inv b \<Longrightarrow> batch_inv (snd (Stage f b))"
  by (auto simp: batch_inv_def Stage_def split: option.split)

lemma batch_inv_StageNew: "batch_inv b \<Longrightarrow> batch_inv (snd (StageNew us sg c gen now table pk row b))"
  using batch_inv_Stage by (auto simp: StageNew_def split: sum.split option.split prod.split) (metis snd_conv)+

lemma Batch_Commit_log:
  assumes "uuid_text us fs" and "batch_inv b" and "clean_dir fs dir" and "Batch_Commit us io c b dir = (e, b', dir')"
  shows "e = None \<Longrightarrow> wal_log fs dir' n = wal_log fs dir n @ frames_for n (b_frames b)" and "e = None \<Longrightarrow> clean_dir fs dir'"
    and "\<exists>j. wal_log fs dir' n = wal_log fs dir n @ take j (frames_for n (b_frames b))
      \<and> read_status fs dir' n \<in> {None, Some ErrTrailingPartialFrame}"
    and "partition_dir dir \<Longrightarrow> partition_dir dir'"
    and "partition_dir dir \<Longrightarrow> e = None \<Longrightarrow> set (map fst dir') = set (map fst dir) \<union> (\<lambda>f. partition_name (WrittenAt f)) ` set (b_frames b)"
proof -
  have st: "read_status fs dir n = None" using assms(3) by (simp add: clean_dir_def)
  consider (closed) "e = Some ErrBatchClosed" "dir' = dir" | (empty) "e = None" "dir' = dir" "b_frames b = []"
    | (flush) "wal_flush us io c (b_frames b) dir = (e, dir')"
    using assms(4) by (auto simp: Batch_Commit_def Let_def split: if_splits prod.splits)
  then have "(e = None \<longrightarrow> wal_log fs dir' n = wal_log fs dir n @ frames_for n (b_frames b)) \<and> (e = None \<longrightarrow> clean_dir fs dir')
    \<and> (\<exists>j. wal_log fs dir' n = wal_log fs dir n @ take j (frames_for n (b_frames b))
      \<and> read_status fs dir' n \<in> {None, Some ErrTrailingPartialFrame})
    \<and> (partition_dir dir \<longrightarrow> partition_dir dir')
    \<and> (partition_dir dir \<longrightarrow> e = None \<longrightarrow> set (map fst dir') = set (map fst dir) \<union> (\<lambda>f. partition_name (WrittenAt f)) ` set (b_frames b))"
  proof cases
    case closed
    then show ?thesis using st by (auto intro!: exI [of _ 0])
  next
    case empty
    then show ?thesis using st assms(3) by (auto simp: frames_for_def)
  next
    case flush
    note l = wal_flush_log [OF assms(1) assms(2) [unfolded batch_inv_def] assms(3) flush]
    show ?thesis
      using l(1,3) [of n] l(2) wal_flush_names [OF flush] by (intro conjI impI) simp_all
  qed
  then show "e = None \<Longrightarrow> wal_log fs dir' n = wal_log fs dir n @ frames_for n (b_frames b)" and "e = None \<Longrightarrow> clean_dir fs dir'"
    and "\<exists>j. wal_log fs dir' n = wal_log fs dir n @ take j (frames_for n (b_frames b))
      \<and> read_status fs dir' n \<in> {None, Some ErrTrailingPartialFrame}"
    and "partition_dir dir \<Longrightarrow> partition_dir dir'"
    and "partition_dir dir \<Longrightarrow> e = None \<Longrightarrow> set (map fst dir') = set (map fst dir) \<union> (\<lambda>f. partition_name (WrittenAt f)) ` set (b_frames b)"
    by blast+
qed


section \<open>A concrete text of identifiers\<close>

fun hex_text :: "nat \<Rightarrow> int \<Rightarrow> string" where
  "hex_text 0 n = []"
| "hex_text (Suc k) n = hex_text k (n div 16) @ [hex_digit (n mod 16)]"

definition hex_us :: "uuid \<Rightarrow> string" where
  "hex_us i =
     (let h = hex_text 32 (uint i) in
      take 8 h @ ''-'' @ take 4 (drop 8 h) @ ''-'' @ take 4 (drop 12 h) @ ''-'' @ take 4 (drop 16 h) @ ''-'' @ drop 20 h)"

definition hex_fs :: "string \<Rightarrow> uuid option" where
  "hex_fs s =
     (let h = filter (\<lambda>c. c \<noteq> CHR ''-'') s in
      if length s = 36 \<and> length h = 32 \<and> list_all is_hex h
      then Some (word_of_int (foldl (\<lambda>a c. 16 * a + (case hex_val c of None \<Rightarrow> 0 | Some d \<Rightarrow> d)) 0 h)) else None)"

lemma hex_text_spec:
  "length (hex_text k n) = k" "list_all is_hex (hex_text k n)"
  "foldl (\<lambda>a c. 16 * a + (case hex_val c of None \<Rightarrow> 0 | Some d \<Rightarrow> d)) 0 (hex_text k n) = n mod 16 ^ k"
proof (induction k arbitrary: n)
  case (Suc k)
  {
    case 3
    have "n mod 16 ^ Suc k = 16 * (n div 16 mod 16 ^ k) + n mod 16"
      using zmod_zmult2_eq [of "16 ^ k" n 16] by simp
    then show ?case using Suc(3) [of "n div 16"] by (simp add: hex_digit_hex)
  }
qed (simp_all add: is_hex_def hex_digit_hex)

lemma hex_chars: "is_hex c \<Longrightarrow> plain_char c" "is_hex c \<Longrightarrow> c \<noteq> CHR ''-''"
  by (auto simp: is_hex_def hex_val_def plain_char_def Let_def split: if_splits)

lemma hex_uuid_text: "uuid_text hex_us hex_fs"
  unfolding uuid_text_def
proof
  fix i :: uuid
  define h where "h = hex_text 32 (uint i)"
  have h: "length h = 32" "list_all is_hex h"
    "foldl (\<lambda>a c. 16 * a + (case hex_val c of None \<Rightarrow> 0 | Some d \<Rightarrow> d)) 0 h = uint i"
    using hex_text_spec [of 32 "uint i"] uint_lt2p [of i] by (simp_all add: h_def)
  have us: "hex_us i = take 8 h @ ''-'' @ take 4 (drop 8 h) @ ''-'' @ take 4 (drop 12 h) @ ''-'' @ take 4 (drop 16 h) @ ''-'' @ drop 20 h"
    by (simp add: hex_us_def h_def Let_def)
  have sub: "filter (\<lambda>c. c \<noteq> CHR ''-'') s = s" if "set s \<subseteq> set h" for s
    using that h(2) hex_chars(2) by (intro filter_True) (auto simp: list_all_iff)
  have parts: "set (take 8 h) \<subseteq> set h" "set (take 4 (drop k h)) \<subseteq> set h" "set (drop k h) \<subseteq> set h" for k
    by (meson set_take_subset set_drop_subset subset_trans)+
  have "take 8 h @ take 4 (drop 8 h) @ take 4 (drop 12 h) @ take 4 (drop 16 h) @ drop 20 h = h"
    using append_take_drop_id [of 8 h] append_take_drop_id [of 4 "drop 8 h"] append_take_drop_id [of 4 "drop 12 h"]
      append_take_drop_id [of 4 "drop 16 h"] by simp
  then have "filter (\<lambda>c. c \<noteq> CHR ''-'') (hex_us i) = h" unfolding us using parts by (simp add: sub)
  moreover have "length (hex_us i) = 36" using h(1) by (simp add: us)
  ultimately have "hex_fs (hex_us i) = Some i" using h by (simp add: hex_fs_def Let_def)
  moreover have "list_all plain_char (hex_us i)"
    using parts h(2) hex_chars(1) by (fastforce simp: us list_all_iff plain_char_def [of "CHR ''-''"])
  ultimately show "hex_fs (hex_us i) = Some i \<and> list_all plain_char (hex_us i)" by simp
qed

text \<open>A bound on the line of a frame, from which a writer's success follows without evaluating it.\<close>

lemma length_b64: "length (b64_encode s) \<le> 2 * length s + 4"
  by (induction s rule: b64_encode.induct) (simp_all add: Let_def)

lemma frame_line_short:
  assumes "uuid_text us fs" and "\<And>i. length (us i) = 36" and "marshal_frame us f = Some s" and "Validate f = None"
  shows "length s \<le> 400 + 2 * length (RowJSON f) + 2 * length (fr_Signature f) + length (RFC3339Nano (WrittenAt f))"
proof -
  have p: "list_all plain_char (us i)" for i using assms(1) by (simp add: uuid_text_def)
  have t: "length (json_escape (fr_Table f)) \<le> 18"
    using Validate_None(2) [OF assms(4)] by (auto simp: Table_IsValid_def json_escape_plain plain_char_def)
  have o: "length (json_escape (fr_Op f)) = 6"
    using Validate_None(3) [OF assms(4)] by (simp add: json_escape_plain plain_char_def)
  show ?thesis
    using assms(2,3) length_b64 [of "RowJSON f"] length_b64 [of "fr_Signature f"] t o
    by (auto simp: marshal_frame_def Time_MarshalJSON_def frame_value_def unsigned_fields_def jstruct_def jstr_def jbytes_def
        json_escape_plain [OF p] json_escape_plain plain_char_def split: if_splits)
qed

lemma NewFrame_works:
  assumes "uuid_text us fs" and "\<And>i. length (us i) = 36" and "Table_IsValid table" and "pk \<noteq> uuid_Nil" and "json_Valid row" "row \<noteq> []"
    and "i \<noteq> uuid_Nil" and "now \<noteq> time_Zero" and "0 \<le> year_of now" "year_of now \<le> 9999"
    and "\<And>build p. build k = Inr p \<Longrightarrow> p \<noteq> [] \<Longrightarrow> signer Live build = Inr (k, sig)" and "sig \<noteq> []"
    and "400 + 2 * length row + 2 * length sig + length (RFC3339Nano now) < 1048576"
  shows "\<exists>f. NewFrame us signer Live (Some i) now table pk row = Inr f"
proof -
  define frame where "frame = \<lparr>FrameID = i, fr_Table = table, fr_Op = OpInsert, RowPK = pk, RowJSON = row, WrittenAt = now,
    SigningKeyID = uuid_Nil, fr_Signature = []\<rparr>"
  let ?f = "frame\<lparr>SigningKeyID := k, fr_Signature := sig\<rparr>"
  obtain w where w: "Time_MarshalJSON now = Some w" using assms(9,10) by (simp add: Time_MarshalJSON_def)
  have sg: "signer Live (\<lambda>k. SigningPayload us (frame\<lparr>SigningKeyID := k\<rparr>)) = Inr (k, sig)"
  proof (rule assms(11))
    show "SigningPayload us (frame\<lparr>SigningKeyID := k\<rparr>)
        = Inr (signingDomainPrefix @ marshal (jstruct (unsigned_fields us (frame\<lparr>SigningKeyID := k\<rparr>) w)))"
      by (simp add: SigningPayload_def frame_def w)
  qed (simp add: signingDomainPrefix_def)
  have v: "Validate ?f = None" using assms by (simp add: Validate_def frame_def Op_IsValid_def)
  obtain s where s: "marshal_frame us ?f = Some s" by (simp add: marshal_frame_def frame_def w)
  have "length s < 1048576" using frame_line_short [OF assms(1,2) s v] assms(13) by (simp add: frame_def)
  then have "NewFrame us signer Live (Some i) now table pk row = Inr ?f"
    using assms(3-6,12) sg v s by (simp add: NewFrame_def Let_def frame_def [symmetric] MaxFrameSize_def)
  then show ?thesis by blast
qed

lemma length_hex_us: "length (hex_us i) = 36"
  by (simp add: hex_us_def Let_def hex_text_spec)

definition ex_frame_signer :: FrameSigner where
  "ex_frame_signer c build = bindE (build 7) (\<lambda>p. Inr (7, ''sig''))"

definition ex_frame :: "uuid \<Rightarrow> AuditFrame" where
  "ex_frame pk =
     \<lparr>FrameID = 1, fr_Table = TableFinding, fr_Op = OpInsert, RowPK = pk, RowJSON = ''{}'',
      WrittenAt = 1700000000 * 10 ^ 9, SigningKeyID = 7, fr_Signature = ''sig''\<rparr>"

definition ex_batch :: "uuid \<Rightarrow> TxBatch" where
  "ex_batch pk = \<lparr>b_frames = [ex_frame pk], finalised = False\<rparr>"

lemma ex_frame_valid: "Validate (ex_frame 5) = None"
  by code_simp

lemma ex_commit: "fst (Batch_Commit hex_us (\<lambda>_. AppendOk) Live (ex_batch 5) []) = None"
  by code_simp


text \<open>A batch as its owner builds it: frames are staged one by one, and a refused frame leaves it as it was.\<close>

inductive staged :: "(uuid \<Rightarrow> string) \<Rightarrow> TxBatch \<Rightarrow> bool" for us where
  new: "staged us NewTxBatch"
| frame: "staged us b \<Longrightarrow> staged us (snd (Stage f b))"
| minted: "staged us b \<Longrightarrow> staged us (snd (StageNew us signer c gen now table pk row b))"

lemma staged_inv: "staged us b \<Longrightarrow> batch_inv b"
  by (induction rule: staged.induct) (simp_all add: batch_inv_Stage batch_inv_StageNew)

text \<open>The log as its clients see it: a list of frames per day, to which a commit appends.\<close>

type_synonym day_log = "string \<Rightarrow> AuditFrame list"

definition log_append :: "AuditFrame list \<Rightarrow> day_log \<Rightarrow> day_log" where
  "log_append frames l = (\<lambda>n. l n @ frames_for n frames)"

text \<open>A log that only successful commits have written, with the frames committed so far.\<close>

inductive wal_history :: "(uuid \<Rightarrow> string) \<Rightarrow> wal_dir \<Rightarrow> AuditFrame list \<Rightarrow> bool" for us where
  empty: "wal_history us [] []"
| commit: "wal_history us dir hist \<Longrightarrow> staged us b \<Longrightarrow> Batch_Commit us io c b dir = (None, b', dir')
     \<Longrightarrow> wal_history us dir' (hist @ b_frames b)"

lemma frames_for_append: "frames_for n (xs @ ys) = frames_for n xs @ frames_for n ys"
  by (simp add: frames_for_def)

lemma wal_history_log:
  assumes "uuid_text us fs" and "wal_history us dir hist"
  shows "clean_dir fs dir \<and> partition_dir dir \<and> wal_log fs dir = (\<lambda>n. frames_for n hist)
    \<and> set (map fst dir) = (\<lambda>f. partition_name (WrittenAt f)) ` set hist"
  using assms(2)
proof (induction rule: wal_history.induct)
  case empty
  then show ?case
    by (auto simp: clean_dir_def partition_dir_def wal_log_def read_status_def file_bytes_def frames_for_def gomap_ok_def)
next
  case (commit dir hist b io c b' dir')
  note l = Batch_Commit_log [OF assms(1) staged_inv [OF commit.hyps(2)] _ commit.hyps(3)]
  have "wal_log fs dir' n = frames_for n (hist @ b_frames b)" for n
    using l(1) [of n] commit.IH by (simp add: frames_for_append)
  then show ?case using l(2,4,5) commit.IH by (auto simp: image_Un)
qed

lemma frames_for_all: "list_all (\<lambda>f. partition_name (WrittenAt f) = n) (frames_for n fs)"
  by (simp add: frames_for_def list_all_iff)

lemma frames_for_none: "n \<notin> (\<lambda>f. partition_name (WrittenAt f)) ` set fs \<Longrightarrow> frames_for n fs = []"
  by (auto simp: frames_for_def filter_empty_conv)

lemma frames_for_again: "frames_for n (frames_for m fs) = (if n = m then frames_for n fs else [])"
  by (auto simp: frames_for_def filter_empty_conv)

lemma frames_for_concat:
  "distinct ns \<Longrightarrow> frames_for n (concat (map (\<lambda>m. frames_for m fs) ns)) = (if n \<in> set ns then frames_for n fs else [])"
  by (induction ns) (auto simp: frames_for_append frames_for_again, simp_all add: frames_for_def)

lemma mset_frames_for:
  assumes "distinct ns" and "\<forall>f \<in> set fs. partition_name (WrittenAt f) \<in> set ns"
  shows "mset (concat (map (\<lambda>m. frames_for m fs) ns)) = mset fs"
proof (rule multiset_eqI)
  fix f
  have c: "count (mset xs) f = count (mset (frames_for (partition_name (WrittenAt f)) xs)) f" for xs
    by (simp add: frames_for_def mset_filter)
  show "count (mset (concat (map (\<lambda>m. frames_for m fs) ns))) f = count (mset fs) f"
  proof (cases "partition_name (WrittenAt f) \<in> set ns")
    case True
    then show ?thesis
      unfolding c [of "concat _"] c [of fs] frames_for_concat [OF assms(1)] by simp
  next
    case False
    then have "f \<notin> set fs" using assms(2) by blast
    moreover have "f \<notin> set (concat (map (\<lambda>m. frames_for m fs) ns))" using \<open>f \<notin> set fs\<close> by (simp add: frames_for_def)
    ultimately show ?thesis by (metis count_mset_0_iff)
  qed
qed


lemma partition_files_sorted: "sorted_wrt (\<lambda>a b. \<not> str_less b a) (partition_files dir)"
  unfolding partition_files_def
proof (rule go_sort_sorted)
  show "transp str_less" by (rule transpI) (rule str_less_trans)
  show "asymp str_less" by (rule asympI) (rule str_less_asym)
  show "\<not> str_less y x \<Longrightarrow> \<not> str_less z y \<Longrightarrow> \<not> str_less z x" for x y z
    using str_less_total [of y z] str_less_trans [of z x y] str_less_trans [of y z x] by blast
qed

lemma partition_files_distinct: "partition_dir dir \<Longrightarrow> distinct (partition_files dir)"
  by (simp add: partition_files_def partition_dir_def gomap_ok_def)

lemma sorted_days:
  "sorted_wrt (\<lambda>a b. \<not> str_less b a) ns \<Longrightarrow>
     sorted_wrt (\<lambda>f g. \<not> str_less (partition_name (WrittenAt g)) (partition_name (WrittenAt f)))
       (concat (map (\<lambda>n. frames_for n fs) ns))"
proof (induction ns)
  case (Cons n ns)
  have "sorted_wrt (\<lambda>f g. \<not> str_less (partition_name (WrittenAt g)) (partition_name (WrittenAt f))) (frames_for n fs)"
    by (rule sorted_wrt_mono_rel [of _ "\<lambda>_ _. True"]) (auto simp: frames_for_def sorted_wrt_true)
  then show ?case using Cons by (auto simp: sorted_wrt_append) (auto simp: frames_for_def)
qed simp

lemma NewFrame_Inr:
  assumes "NewFrame us signer c gen now table pk row = Inr f"
  shows "Validate f = None" "fr_Table f = table" "RowPK f = pk" "RowJSON f = row" "WrittenAt f = now"
    and "\<exists>s. marshal_frame us f = Some s \<and> int (length s) + 1 \<le> MaxFrameSize"
  using assms by (auto simp: NewFrame_def Let_def bindE_Inr split: if_splits option.splits prod.splits)

lemma StageNew_Inr:
  assumes "StageNew us signer c gen now table pk row b = (Inr f, b')"
  shows "NewFrame us signer c gen now table pk row = Inr f" "b' = b\<lparr>b_frames := b_frames b @ [f]\<rparr>" "\<not> finalised b"
  using assms by (auto simp: StageNew_def Stage_def split: if_splits sum.splits option.splits)

lemma wal_history_read:
  assumes "uuid_text us fs" and "wal_history us dir hist" and "ReadAll fs (\<lambda>_. ReadOk) (DirFiles dir) = (frames, err)"
  shows "err = None \<and> mset frames = mset hist \<and> (\<forall>n. frames_for n frames = frames_for n hist)
    \<and> sorted_wrt (\<lambda>f g. \<not> str_less (partition_name (WrittenAt g)) (partition_name (WrittenAt f))) frames"
proof -
  note h = wal_history_log [OF assms(1,2)]
  then have p: "partition_dir dir" "set (partition_files dir) = (\<lambda>f. partition_name (WrittenAt f)) ` set hist"
    using partition_files_set by auto
  note d = partition_files_distinct [OF p(1)]
  have fr: "frames = concat (map (\<lambda>n. frames_for n hist) (partition_files dir))" "err = None"
    using ReadAll_log [of fs dir] h assms(3) by simp_all
  have "frames_for n frames = frames_for n hist" for n
    unfolding fr(1) frames_for_concat [OF d] p(2) by (simp add: frames_for_none)
  moreover have "mset frames = mset hist" unfolding fr(1) using d p(2) by (intro mset_frames_for) auto
  ultimately show ?thesis using fr sorted_days [OF partition_files_sorted] by simp
qed

lemma ex_staged: "staged hex_us (ex_batch 5)"
  using staged.frame [OF staged.new, of hex_us "ex_frame 5"] ex_frame_valid by (simp add: Stage_def NewTxBatch_def ex_batch_def)

lemma ex_clean: "clean_dir hex_fs []"
  using wal_history_log [OF hex_uuid_text wal_history.empty] by simp

section \<open>Properties\<close>

text \<open>
  C10. The log refines a list of frames per day. On a log without torn lines, a commit that
  reports success appends exactly the frames of its batch, each to the file of its day and
  in their order, and the log stays without torn lines; a commit that fails appends to each
  day a prefix of what it should have, with at most one torn line at the end of a file; a
  batch that was committed or cancelled before is refused and changes nothing.
\<close>

theorem commit_refines_log:
  assumes "uuid_text us fs" and "staged us b" and "clean_dir fs dir" and "Batch_Commit us io c b dir = (e, b', dir')"
  shows "(e = None \<longrightarrow> wal_log fs dir' = log_append (b_frames b) (wal_log fs dir) \<and> clean_dir fs dir')
    \<and> (\<exists>j. wal_log fs dir' n = wal_log fs dir n @ take j (frames_for n (b_frames b))
      \<and> read_status fs dir' n \<in> {None, Some ErrTrailingPartialFrame})
    \<and> Batch_Commit us io' c' b' dir' = (Some ErrBatchClosed, b', dir')
    \<and> Batch_Commit us io' c' (Batch_Cancel b) dir = (Some ErrBatchClosed, Batch_Cancel b, dir)"
proof -
  note l = Batch_Commit_log [OF assms(1) staged_inv [OF assms(2)] assms(3,4)]
  have "e = None \<longrightarrow> wal_log fs dir' = log_append (b_frames b) (wal_log fs dir) \<and> clean_dir fs dir'"
    using l(1,2) by (simp add: log_append_def fun_eq_iff)
  moreover have "finalised b'" using assms(4) by (auto simp: Batch_Commit_def Let_def split: if_splits prod.splits)
  ultimately show ?thesis using l(3) [of n] by (simp add: Batch_Commit_def Batch_Cancel_def)
qed

theorem commit_refines_log_witness:
  "\<exists>b' dir'. Batch_Commit hex_us (\<lambda>_. AppendOk) Live (ex_batch 5) [] = (None, b', dir')
     \<and> wal_log hex_fs dir' = log_append [ex_frame 5] (wal_log hex_fs []) \<and> clean_dir hex_fs dir'"
proof -
  obtain b' dir' where c: "Batch_Commit hex_us (\<lambda>_. AppendOk) Live (ex_batch 5) [] = (None, b', dir')"
    using ex_commit by (metis fst_conv prod_cases3)
  show ?thesis
    using commit_refines_log [OF hex_uuid_text ex_staged ex_clean c] c by (auto simp: ex_batch_def)
qed

text \<open>
  C14. What was committed is read back. After any sequence of successful commits the start-up
  sweep reports no error and returns every committed frame, once for each time it was
  staged, the days in increasing order and the frames of a day in the order of their commits.
\<close>

theorem committed_frames_read_back:
  assumes "uuid_text us fs" and "wal_history us dir hist" and "ReadAll fs (\<lambda>_. ReadOk) (DirFiles dir) = (frames, err)"
  shows "err = None \<and> mset frames = mset hist \<and> (\<forall>n. frames_for n frames = frames_for n hist)
    \<and> sorted_wrt (\<lambda>f g. \<not> str_less (partition_name (WrittenAt g)) (partition_name (WrittenAt f))) frames"
  by (rule wal_history_read [OF assms])

theorem committed_frames_read_back_witness:
  "\<exists>b' dir'. Batch_Commit hex_us (\<lambda>_. AppendOk) Live (ex_batch 5) [] = (None, b', dir')
     \<and> mset (fst (ReadAll hex_fs (\<lambda>_. ReadOk) (DirFiles dir'))) = {#ex_frame 5#}"
proof -
  obtain b' dir' where c: "Batch_Commit hex_us (\<lambda>_. AppendOk) Live (ex_batch 5) [] = (None, b', dir')"
    using ex_commit by (metis fst_conv prod_cases3)
  then have "wal_history hex_us dir' ([] @ b_frames (ex_batch 5))"
    by (rule wal_history.commit [OF wal_history.empty ex_staged])
  then show ?thesis
    using committed_frames_read_back [OF hex_uuid_text _ surjective_pairing] c by (fastforce simp: ex_batch_def)
qed

text \<open>
  C23. Writer and reader agree on the size of a frame. A frame that the writer makes takes a
  line of at most 1 MiB with its newline, passes the second check at the append, and is
  read back as it was made; a longer line stops the reader, which returns the frames before
  it and reports the size.
\<close>

theorem frame_size_bounds:
  assumes "uuid_text us fs" and "NewFrame us signer c gen now table pk row = Inr f"
    and "CHR 0x0A \<notin> set line" and "1048576 < length line" and "t = [] \<or> hd t = CHR 0x0A"
  shows "(\<exists>s. encodeFrames us [f] = Inr s \<and> length s \<le> 1048576 \<and> readFrames fs False [] s = ([f], None))
    \<and> readFrames fs False out (line @ t) = (out, Some ErrFrameSizeExceeded)"
proof
  obtain s where s: "Validate f = None" "marshal_frame us f = Some s" "int (length s) + 1 \<le> MaxFrameSize"
    using NewFrame_Inr(1,6) [OF assms(2)] by blast
  then have enc: "encodeFrames us [f] = Inr (s @ [CHR 0x0A])" by simp
  then have "readFrames fs False [] (s @ [CHR 0x0A]) = ([f], None)"
    using readFrames_frames [OF assms(1), of "[f]" "s @ [CHR 0x0A]" False "[]" "[]"] s(1) by simp
  then show "\<exists>s. encodeFrames us [f] = Inr s \<and> length s \<le> 1048576 \<and> readFrames fs False [] s = ([f], None)"
    using enc s(3) by (intro exI [of _ "s @ [CHR 0x0A]"]) (simp add: MaxFrameSize_def)
  have ne: "line \<noteq> []" and long: "MaxFrameSize < int (length line)" using assms(4) by (auto simp: MaxFrameSize_def)
  show "readFrames fs False out (line @ t) = (out, Some ErrFrameSizeExceeded)"
  proof (cases t)
    case Nil
    then show ?thesis using readFrames_partial [OF assms(3) ne, of fs out] long by simp
  next
    case (Cons a u)
    then show ?thesis using readFrames_line [OF assms(3) ne, of fs False out u] long assms(5) by simp
  qed
qed


theorem frame_size_bounds_witness:
  "\<exists>s. encodeFrames hex_us [ex_frame 5] = Inr s \<and> length s \<le> 1048576 \<and> readFrames hex_fs False [] s = ([ex_frame 5], None)"
proof -
  have "NewFrame hex_us ex_frame_signer Live (Some 1) (1700000000 * 10 ^ 9) TableFinding 5 ''{}'' = Inr (ex_frame 5)"
    by code_simp
  then show ?thesis
    using frame_size_bounds [OF hex_uuid_text, of ex_frame_signer Live "Some 1" "1700000000 * 10 ^ 9" TableFinding 5 "''{}''"
        "ex_frame 5" "replicate 1048577 (CHR ''x'')" "[]" "[]"] by simp
qed

end
