(* ===== verification/Audit_Rows.thy ===== *)
theory Audit_Rows
  imports Audit_Wal Eval_Gate
begin

text \<open>
  The rows that travel in the frames: how the rule engine and the gate print them
  (\<^verbatim>\<open>rule_engine/wal_rows.go\<close>, \<^verbatim>\<open>evaluator/wal_rows.go\<close>) and how the reconciler reads
  them back (the row types of \<^verbatim>\<open>audit/reconciler/replayer.go\<close>, \<^verbatim>\<open>decodeStrict\<close>). The
  reconciler's row types have the fields of the engine's rows and are the same records here.
\<close>

section \<open>Printing\<close>

datatype row_error = RowZeroUUID | RowEmptySHA | RowCaller | RowVerdict | RowEmptyRule | RowReason

definition jscope :: "(uuid \<Rightarrow> string) \<Rightarrow> uuid option \<Rightarrow> jvalue" where
  "jscope us s = (case s of None \<Rightarrow> VNull | Some i \<Rightarrow> jstr (us i))"

definition jtime :: "time \<Rightarrow> jvalue" where
  "jtime t = jstr (walTimeFormat t)"

definition run_fields :: "(uuid \<Rightarrow> string) \<Rightarrow> EvaluationRun \<Rightarrow> (string \<times> jvalue) list" where
  "run_fields us run =
     [(''evaluation_run_id'', jstr (us (EvaluationRunID run))), (''repo_id'', jstr (us (r_RepoID run))),
      (''sha'', jstr (r_SHA run)), (''policy_version_id'', jstr (us (r_PolicyVersionID run))),
      (''caller'', jstr (r_Caller run)), (''scope_id'', jscope us (r_ScopeID run)),
      (''created_at'', jtime (r_CreatedAt run))]"

definition walEvaluationRunRowJSON :: "(uuid \<Rightarrow> string) \<Rightarrow> EvaluationRun \<Rightarrow> row_error + string" where
  "walEvaluationRunRowJSON us run =
     (if EvaluationRunID run = uuid_Nil then Inl RowZeroUUID
      else if r_RepoID run = uuid_Nil then Inl RowZeroUUID
      else if r_SHA run = [] then Inl RowEmptySHA
      else if r_PolicyVersionID run = uuid_Nil then Inl RowZeroUUID
      else if \<not> Caller_IsValid (r_Caller run) then Inl RowCaller
      else Inr (marshal (jmap (run_fields us run))))"

definition jreason :: "string \<Rightarrow> jvalue" where
  "jreason s = (if s = [] then VNull else jstr s)"

definition verdict_fields :: "(uuid \<Rightarrow> string) \<Rightarrow> EvaluationVerdict \<Rightarrow> (string \<times> jvalue) list" where
  "verdict_fields us v =
     [(''verdict_id'', jstr (us (VerdictID v))), (''evaluation_run_id'', jstr (us (v_EvaluationRunID v))),
      (''verdict'', jstr (v_Verdict v)), (''degraded'', jvalue.VBool (v_Degraded v)),
      (''degraded_reason'', jreason (v_DegradedReason v)), (''created_at'', jtime (v_CreatedAt v))]"

definition walEvaluationVerdictRowJSON :: "(uuid \<Rightarrow> string) \<Rightarrow> EvaluationVerdict \<Rightarrow> row_error + string" where
  "walEvaluationVerdictRowJSON us v =
     (if VerdictID v = uuid_Nil then Inl RowZeroUUID
      else if v_EvaluationRunID v = uuid_Nil then Inl RowZeroUUID
      else if \<not> Verdict_IsValid (v_Verdict v) then Inl RowVerdict
      else Inr (marshal (jmap (verdict_fields us v))))"

definition finding_fields :: "(uuid \<Rightarrow> string) \<Rightarrow> Finding \<Rightarrow> (string \<times> jvalue) list" where
  "finding_fields us f =
     [(''finding_id'', jstr (us (FindingID f))), (''evaluation_run_id'', jstr (us (f_EvaluationRunID f))),
      (''repo_id'', jstr (us (f_RepoID f))), (''sha'', jstr (f_SHA f)), (''scope_id'', jstr (us (f_ScopeID f))),
      (''rule_id'', jstr (f_RuleID f)), (''rule_version'', jint (RuleVersion f)),
      (''policy_version_id'', jstr (us (f_PolicyVersionID f))),
      (''metric_sample_ids'', VArr (map (\<lambda>i. jstr (us i)) (MetricSampleIDs f))),
      (''severity'', jstr (f_Severity f)), (''delta'', jstr (f_Delta f)), (''explanation_md'', jstr (ExplanationMD f)),
      (''created_at'', jtime (f_CreatedAt f))]"

definition walFindingRowJSON :: "(uuid \<Rightarrow> string) \<Rightarrow> Finding \<Rightarrow> row_error + string" where
  "walFindingRowJSON us f =
     (if FindingID f = uuid_Nil then Inl RowZeroUUID
      else if f_EvaluationRunID f = uuid_Nil then Inl RowZeroUUID
      else if f_RepoID f = uuid_Nil then Inl RowZeroUUID
      else if f_SHA f = [] then Inl RowEmptySHA
      else if f_ScopeID f = uuid_Nil then Inl RowZeroUUID
      else if f_RuleID f = [] then Inl RowEmptyRule
      else if f_PolicyVersionID f = uuid_Nil then Inl RowZeroUUID
      else Inr (marshal (jmap (finding_fields us f))))"

text \<open>The gate's own rows: the caller is a literal, the reason is never empty.\<close>

definition degraded_run :: "DegradedRun \<Rightarrow> EvaluationRun" where
  "degraded_run run =
     \<lparr>EvaluationRunID = dr_EvaluationRunID run, r_RepoID = dr_RepoID run, r_SHA = dr_SHA run,
      r_PolicyVersionID = dr_PolicyVersionID run, r_Caller = CallerEvalGate, r_ScopeID = dr_ScopeID run,
      r_CreatedAt = dr_CreatedAt run\<rparr>"

definition degraded_verdict :: "DegradedVerdict \<Rightarrow> EvaluationVerdict" where
  "degraded_verdict v =
     \<lparr>VerdictID = dv_VerdictID v, v_EvaluationRunID = dv_EvaluationRunID v, v_Verdict = dv_Verdict v,
      v_Degraded = dv_Degraded v, v_DegradedReason = dv_DegradedReason v, v_CreatedAt = dv_CreatedAt v\<rparr>"

definition walDegradedRunRowJSON :: "(uuid \<Rightarrow> string) \<Rightarrow> DegradedRun \<Rightarrow> row_error + string" where
  "walDegradedRunRowJSON us run =
     (if dr_EvaluationRunID run = uuid_Nil then Inl RowZeroUUID
      else if dr_RepoID run = uuid_Nil then Inl RowZeroUUID
      else if dr_SHA run = [] then Inl RowEmptySHA
      else if dr_PolicyVersionID run = uuid_Nil then Inl RowZeroUUID
      else
        Inr (marshal (jmap
          [(''evaluation_run_id'', jstr (us (dr_EvaluationRunID run))), (''repo_id'', jstr (us (dr_RepoID run))),
           (''sha'', jstr (dr_SHA run)), (''policy_version_id'', jstr (us (dr_PolicyVersionID run))),
           (''caller'', jstr ''eval_gate''), (''scope_id'', jscope us (dr_ScopeID run)),
           (''created_at'', jtime (dr_CreatedAt run))])))"

definition walDegradedVerdictRowJSON :: "(uuid \<Rightarrow> string) \<Rightarrow> DegradedVerdict \<Rightarrow> row_error + string" where
  "walDegradedVerdictRowJSON us v =
     (if dv_VerdictID v = uuid_Nil then Inl RowZeroUUID
      else if dv_EvaluationRunID v = uuid_Nil then Inl RowZeroUUID
      else if \<not> gate_Verdict_IsValid (dv_Verdict v) then Inl RowVerdict
      else if dv_DegradedReason v = [] then Inl RowReason
      else
        Inr (marshal (jmap
          [(''verdict_id'', jstr (us (dv_VerdictID v))), (''evaluation_run_id'', jstr (us (dv_EvaluationRunID v))),
           (''verdict'', jstr (dv_Verdict v)), (''degraded'', jvalue.VBool (dv_Degraded v)),
           (''degraded_reason'', jstr (dv_DegradedReason v)), (''created_at'', jtime (dv_CreatedAt v))])))"

section \<open>Reading\<close>

type_synonym EvaluationRunRow = EvaluationRun
type_synonym EvaluationVerdictRow = EvaluationVerdict
type_synonym FindingRow = Finding

text \<open>One value, every field known, nothing behind it.\<close>

definition decodeStrict ::
  "string list \<Rightarrow> (string \<Rightarrow> jvalue \<Rightarrow> 'a \<Rightarrow> 'a option) \<Rightarrow> 'a \<Rightarrow> string \<Rightarrow> 'a option" where
  "decodeStrict names put zero data = Option.bind (parse_json data) (\<lambda>v. decode_struct True names put v zero)"

definition zero_run :: EvaluationRunRow where
  "zero_run =
     \<lparr>EvaluationRunID = uuid_Nil, r_RepoID = uuid_Nil, r_SHA = [], r_PolicyVersionID = uuid_Nil, r_Caller = [],
      r_ScopeID = None, r_CreatedAt = time_Zero\<rparr>"

definition put_run :: "(string \<Rightarrow> uuid option) \<Rightarrow> string \<Rightarrow> jvalue \<Rightarrow> EvaluationRunRow \<Rightarrow> EvaluationRunRow option" where
  "put_run fs n v r =
     (if n = ''evaluation_run_id'' then map_option (\<lambda>x. r\<lparr>EvaluationRunID := x\<rparr>) (dec_uuid fs v (EvaluationRunID r))
      else if n = ''repo_id'' then map_option (\<lambda>x. r\<lparr>r_RepoID := x\<rparr>) (dec_uuid fs v (r_RepoID r))
      else if n = ''sha'' then map_option (\<lambda>x. r\<lparr>r_SHA := x\<rparr>) (dec_string v (r_SHA r))
      else if n = ''policy_version_id'' then
        map_option (\<lambda>x. r\<lparr>r_PolicyVersionID := x\<rparr>) (dec_uuid fs v (r_PolicyVersionID r))
      else if n = ''caller'' then map_option (\<lambda>x. r\<lparr>r_Caller := x\<rparr>) (dec_string v (r_Caller r))
      else if n = ''scope_id'' then map_option (\<lambda>x. r\<lparr>r_ScopeID := x\<rparr>) (dec_uuid_ptr fs v)
      else map_option (\<lambda>x. r\<lparr>r_CreatedAt := x\<rparr>) (dec_time v (r_CreatedAt r)))"

definition run_names :: "string list" where
  "run_names = [''evaluation_run_id'', ''repo_id'', ''sha'', ''policy_version_id'', ''caller'', ''scope_id'', ''created_at'']"

definition decode_run :: "(string \<Rightarrow> uuid option) \<Rightarrow> string \<Rightarrow> EvaluationRunRow option" where
  "decode_run fs = decodeStrict run_names (put_run fs) zero_run"

definition zero_verdict :: EvaluationVerdictRow where
  "zero_verdict =
     \<lparr>VerdictID = uuid_Nil, v_EvaluationRunID = uuid_Nil, v_Verdict = [], v_Degraded = False, v_DegradedReason = [],
      v_CreatedAt = time_Zero\<rparr>"

definition put_verdict ::
  "(string \<Rightarrow> uuid option) \<Rightarrow> string \<Rightarrow> jvalue \<Rightarrow> EvaluationVerdictRow \<Rightarrow> EvaluationVerdictRow option" where
  "put_verdict fs n v r =
     (if n = ''verdict_id'' then map_option (\<lambda>x. r\<lparr>VerdictID := x\<rparr>) (dec_uuid fs v (VerdictID r))
      else if n = ''evaluation_run_id'' then
        map_option (\<lambda>x. r\<lparr>v_EvaluationRunID := x\<rparr>) (dec_uuid fs v (v_EvaluationRunID r))
      else if n = ''verdict'' then map_option (\<lambda>x. r\<lparr>v_Verdict := x\<rparr>) (dec_string v (v_Verdict r))
      else if n = ''degraded'' then map_option (\<lambda>x. r\<lparr>v_Degraded := x\<rparr>) (dec_bool v (v_Degraded r))
      else if n = ''degraded_reason'' then
        map_option (\<lambda>x. r\<lparr>v_DegradedReason := x\<rparr>) (dec_string v (v_DegradedReason r))
      else map_option (\<lambda>x. r\<lparr>v_CreatedAt := x\<rparr>) (dec_time v (v_CreatedAt r)))"

definition verdict_names :: "string list" where
  "verdict_names = [''verdict_id'', ''evaluation_run_id'', ''verdict'', ''degraded'', ''degraded_reason'', ''created_at'']"

definition decode_verdict :: "(string \<Rightarrow> uuid option) \<Rightarrow> string \<Rightarrow> EvaluationVerdictRow option" where
  "decode_verdict fs = decodeStrict verdict_names (put_verdict fs) zero_verdict"

definition zero_finding :: FindingRow where
  "zero_finding =
     \<lparr>FindingID = uuid_Nil, f_EvaluationRunID = uuid_Nil, f_RepoID = uuid_Nil, f_SHA = [], f_ScopeID = uuid_Nil,
      f_RuleID = [], RuleVersion = 0, f_PolicyVersionID = uuid_Nil, MetricSampleIDs = [], f_Severity = [], f_Delta = [],
      ExplanationMD = [], f_CreatedAt = time_Zero\<rparr>"

definition put_finding :: "(string \<Rightarrow> uuid option) \<Rightarrow> string \<Rightarrow> jvalue \<Rightarrow> FindingRow \<Rightarrow> FindingRow option" where
  "put_finding fs n v r =
     (if n = ''finding_id'' then map_option (\<lambda>x. r\<lparr>FindingID := x\<rparr>) (dec_uuid fs v (FindingID r))
      else if n = ''evaluation_run_id'' then
        map_option (\<lambda>x. r\<lparr>f_EvaluationRunID := x\<rparr>) (dec_uuid fs v (f_EvaluationRunID r))
      else if n = ''repo_id'' then map_option (\<lambda>x. r\<lparr>f_RepoID := x\<rparr>) (dec_uuid fs v (f_RepoID r))
      else if n = ''sha'' then map_option (\<lambda>x. r\<lparr>f_SHA := x\<rparr>) (dec_string v (f_SHA r))
      else if n = ''scope_id'' then map_option (\<lambda>x. r\<lparr>f_ScopeID := x\<rparr>) (dec_uuid fs v (f_ScopeID r))
      else if n = ''rule_id'' then map_option (\<lambda>x. r\<lparr>f_RuleID := x\<rparr>) (dec_string v (f_RuleID r))
      else if n = ''rule_version'' then map_option (\<lambda>x. r\<lparr>RuleVersion := x\<rparr>) (dec_int v (RuleVersion r))
      else if n = ''policy_version_id'' then
        map_option (\<lambda>x. r\<lparr>f_PolicyVersionID := x\<rparr>) (dec_uuid fs v (f_PolicyVersionID r))
      else if n = ''metric_sample_ids'' then
        map_option (\<lambda>x. r\<lparr>MetricSampleIDs := x\<rparr>) (dec_uuids fs v (MetricSampleIDs r))
      else if n = ''severity'' then map_option (\<lambda>x. r\<lparr>f_Severity := x\<rparr>) (dec_string v (f_Severity r))
      else if n = ''delta'' then map_option (\<lambda>x. r\<lparr>f_Delta := x\<rparr>) (dec_string v (f_Delta r))
      else if n = ''explanation_md'' then map_option (\<lambda>x. r\<lparr>ExplanationMD := x\<rparr>) (dec_string v (ExplanationMD r))
      else map_option (\<lambda>x. r\<lparr>f_CreatedAt := x\<rparr>) (dec_time v (f_CreatedAt r)))"

definition finding_names :: "string list" where
  "finding_names =
     [''finding_id'', ''evaluation_run_id'', ''repo_id'', ''sha'', ''scope_id'', ''rule_id'', ''rule_version'',
      ''policy_version_id'', ''metric_sample_ids'', ''severity'', ''delta'', ''explanation_md'', ''created_at'']"

definition decode_finding :: "(string \<Rightarrow> uuid option) \<Rightarrow> string \<Rightarrow> FindingRow option" where
  "decode_finding fs = decodeStrict finding_names (put_finding fs) zero_finding"


section \<open>Round trips\<close>

text \<open>What the text columns must satisfy for JSON to carry them unchanged.\<close>

definition year_ok :: "time \<Rightarrow> bool" where
  "year_ok t \<longleftrightarrow> 0 \<le> year_of t \<and> year_of t \<le> 9999"

definition run_text_ok :: "EvaluationRun \<Rightarrow> bool" where
  "run_text_ok r \<longleftrightarrow> valid_utf8 (r_SHA r) \<and> year_ok (r_CreatedAt r)"

definition verdict_text_ok :: "EvaluationVerdict \<Rightarrow> bool" where
  "verdict_text_ok v \<longleftrightarrow> valid_utf8 (v_DegradedReason v) \<and> year_ok (v_CreatedAt v)"

definition finding_text_ok :: "Finding \<Rightarrow> bool" where
  "finding_text_ok f \<longleftrightarrow>
     valid_utf8 (f_SHA f) \<and> valid_utf8 (f_RuleID f) \<and> valid_utf8 (f_Severity f) \<and> valid_utf8 (f_Delta f)
     \<and> valid_utf8 (ExplanationMD f) \<and> - (2 ^ 63) \<le> RuleVersion f \<and> RuleVersion f < 2 ^ 63 \<and> year_ok (f_CreatedAt f)"

lemma dec_jtime: "year_ok t \<Longrightarrow> dec_time (jtime t) old = Some t"
  using json_escape_plain [OF time_text_plain(2), of t] parse_walTimeFormat [of t]
  by (simp add: jtime_def jstr_def year_ok_def)

lemma dec_jscope: "uuid_text us fs \<Longrightarrow> dec_uuid_ptr fs (jscope us s) = Some s"
  by (simp add: jscope_def split: option.split)

lemma dec_jreason: "valid_utf8 s \<Longrightarrow> dec_string (jreason s) [] = Some s"
  by (simp add: jreason_def)

lemma dec_jint: "- (2 ^ 63) \<le> n \<Longrightarrow> n < 2 ^ 63 \<Longrightarrow> dec_int (jint n) old = Some n"
  by (simp add: jint_def parse_int64_format_int)

lemma dec_sample_ids:
  "uuid_text us fs \<Longrightarrow> dec_uuids fs (VArr (map (\<lambda>i. jstr (us i)) is)) [] = Some is"
proof -
  assume ut: "uuid_text us fs"
  have "dec_elems (dec_uuid fs) uuid_Nil (map (\<lambda>i. jstr (us i)) is) [] = Some is"
    using dec_jstr(2) [OF ut] by (induction "is") auto
  then show ?thesis by simp
qed

lemma wf_leaves [simp]: "wf_jvalue (jscope us s)" "wf_jvalue (jtime t)" "wf_jvalue (jreason r)"
  by (auto simp: jscope_def jtime_def jreason_def split: option.split)

lemma depth_leaves [simp]: "jdepth (jscope us s) = 0" "jdepth (jtime t) = 0" "jdepth (jreason r) = 0"
  by (auto simp: jscope_def jtime_def jreason_def split: option.split)

lemma depth_ids: "jdepth (VArr (map (\<lambda>i. jstr (us i)) is)) = 1"
proof -
  have "fold max (map jdepth (map (\<lambda>i. jstr (us i)) is)) 0 = (0 :: nat)"
    by (induction "is") auto
  then show ?thesis by simp
qed

lemma set_jmap: "set (go_sort field_before fs) = set fs"
  by simp

lemma marshal_jmap_parses:
  assumes "list_all (\<lambda>(k, v). wf_jvalue v \<and> jdepth v \<le> 1) fs"
  shows "parse_json (marshal (jmap fs)) = Some (jmap fs)" and "json_Valid (marshal (jmap fs))" and "marshal (jmap fs) \<noteq> []"
proof -
  have wf: "wf_jvalue (jmap fs)" using assms by (auto simp: jmap_def wf_jstruct list_all_iff)
  have "fold max (map (jdepth \<circ> snd) (go_sort field_before fs)) 0 \<le> 1"
    using assms by (auto simp: fold_max_le list_all_iff)
  then have "int (jdepth (jmap fs)) \<le> maxNestingDepth" by (simp add: jmap_def jdepth_jstruct maxNestingDepth_def)
  with wf show p: "parse_json (marshal (jmap fs)) = Some (jmap fs)" by (rule parse_marshal)
  then show "json_Valid (marshal (jmap fs))" by (simp add: json_Valid_def)
  show "marshal (jmap fs) \<noteq> []" by (simp add: jmap_def jstruct_def)
qed

lemma decodeStrict_jmap:
  assumes "list_all (\<lambda>(k, v). wf_jvalue v \<and> jdepth v \<le> 1 \<and> list_all plain_char k \<and> k \<in> set names) fs"
  shows "decodeStrict names put zero (marshal (jmap fs)) = put_all put (go_sort field_before fs) zero"
proof -
  have "parse_json (marshal (jmap fs)) = Some (jmap fs)"
    using assms by (intro marshal_jmap_parses) (auto simp: list_all_iff)
  moreover have "decode_struct True names put (jmap fs) zero = put_all put (go_sort field_before fs) zero"
    unfolding jmap_def using assms by (intro decode_struct_jstruct) (auto simp: list_all_iff)
  ultimately show ?thesis by (simp add: decodeStrict_def)
qed

lemma run_fields_sorted:
  "go_sort field_before (run_fields us r) =
     [(''caller'', jstr (r_Caller r)), (''created_at'', jtime (r_CreatedAt r)),
      (''evaluation_run_id'', jstr (us (EvaluationRunID r))), (''policy_version_id'', jstr (us (r_PolicyVersionID r))),
      (''repo_id'', jstr (us (r_RepoID r))), (''scope_id'', jscope us (r_ScopeID r)), (''sha'', jstr (r_SHA r))]"
  by (simp add: run_fields_def field_before_def)


lemma verdict_fields_sorted:
  "go_sort field_before (verdict_fields us v) =
     [(''created_at'', jtime (v_CreatedAt v)), (''degraded'', jvalue.VBool (v_Degraded v)),
      (''degraded_reason'', jreason (v_DegradedReason v)), (''evaluation_run_id'', jstr (us (v_EvaluationRunID v))),
      (''verdict'', jstr (v_Verdict v)), (''verdict_id'', jstr (us (VerdictID v)))]"
  by (simp add: verdict_fields_def field_before_def)

lemma finding_fields_sorted:
  "go_sort field_before (finding_fields us f) =
     [(''created_at'', jtime (f_CreatedAt f)), (''delta'', jstr (f_Delta f)),
      (''evaluation_run_id'', jstr (us (f_EvaluationRunID f))), (''explanation_md'', jstr (ExplanationMD f)),
      (''finding_id'', jstr (us (FindingID f))),
      (''metric_sample_ids'', VArr (map (\<lambda>i. jstr (us i)) (MetricSampleIDs f))),
      (''policy_version_id'', jstr (us (f_PolicyVersionID f))), (''repo_id'', jstr (us (f_RepoID f))),
      (''rule_id'', jstr (f_RuleID f)), (''rule_version'', jint (RuleVersion f)),
      (''scope_id'', jstr (us (f_ScopeID f))), (''severity'', jstr (f_Severity f)), (''sha'', jstr (f_SHA f))]"
  by (simp add: finding_fields_def field_before_def)

lemma canonical_utf8:
  "Caller_IsValid c \<Longrightarrow> valid_utf8 c" "Verdict_IsValid v \<Longrightarrow> valid_utf8 v"
  by (auto simp: Caller_IsValid_def Verdict_IsValid_def plain_char_def intro!: valid_utf8_plain)

lemma run_fields_ok:
  "list_all (\<lambda>(k, v). wf_jvalue v \<and> jdepth v \<le> 1 \<and> list_all plain_char k \<and> k \<in> set run_names) (run_fields us r)"
  by (simp add: run_fields_def run_names_def plain_char_def)

lemma verdict_fields_ok:
  "list_all (\<lambda>(k, v). wf_jvalue v \<and> jdepth v \<le> 1 \<and> list_all plain_char k \<and> k \<in> set verdict_names) (verdict_fields us v)"
  by (simp add: verdict_fields_def verdict_names_def plain_char_def)

lemma finding_fields_ok:
  "list_all (\<lambda>(k, v). wf_jvalue v \<and> jdepth v \<le> 1 \<and> list_all plain_char k \<and> k \<in> set finding_names) (finding_fields us f)"
  using depth_ids [of us "MetricSampleIDs f"]
  by (simp add: finding_fields_def finding_names_def plain_char_def list_all_iff)

lemma row_json_valid:
  "walEvaluationRunRowJSON us r = Inr s \<Longrightarrow> json_Valid s \<and> s \<noteq> []"
  "walEvaluationVerdictRowJSON us v = Inr s \<Longrightarrow> json_Valid s \<and> s \<noteq> []"
  "walFindingRowJSON us f = Inr s \<Longrightarrow> json_Valid s \<and> s \<noteq> []"
proof -
  have "list_all (\<lambda>(k, v). wf_jvalue v \<and> jdepth v \<le> 1) fs"
    if "list_all (\<lambda>(k, v). wf_jvalue v \<and> jdepth v \<le> 1 \<and> list_all plain_char k \<and> k \<in> set names) fs" for fs names
    using that by (auto simp: list_all_iff)
  note ok = this [OF run_fields_ok] this [OF verdict_fields_ok] this [OF finding_fields_ok]
  show "walEvaluationRunRowJSON us r = Inr s \<Longrightarrow> json_Valid s \<and> s \<noteq> []"
    "walEvaluationVerdictRowJSON us v = Inr s \<Longrightarrow> json_Valid s \<and> s \<noteq> []"
    "walFindingRowJSON us f = Inr s \<Longrightarrow> json_Valid s \<and> s \<noteq> []"
    using marshal_jmap_parses(2,3) [OF ok(1)] marshal_jmap_parses(2,3) [OF ok(2)] marshal_jmap_parses(2,3) [OF ok(3)]
    by (auto simp: walEvaluationRunRowJSON_def walEvaluationVerdictRowJSON_def walFindingRowJSON_def split: if_splits)
qed

lemma decode_run_row:
  assumes "uuid_text us fs" and "walEvaluationRunRowJSON us r = Inr s" and "run_text_ok r"
  shows "decode_run fs s = Some r"
proof -
  have s: "s = marshal (jmap (run_fields us r))" and c: "Caller_IsValid (r_Caller r)"
    using assms(2) by (auto simp: walEvaluationRunRowJSON_def split: if_splits)
  have "decode_run fs s = put_all (put_run fs) (go_sort field_before (run_fields us r)) zero_run"
    unfolding decode_run_def s by (rule decodeStrict_jmap [OF run_fields_ok])
  also have "\<dots> = Some r"
    using assms(1,3) canonical_utf8(1) [OF c]
    by (simp add: run_fields_sorted put_run_def zero_run_def run_text_ok_def dec_jtime dec_jscope)
  finally show ?thesis .
qed

lemma decode_verdict_row:
  assumes "uuid_text us fs" and "walEvaluationVerdictRowJSON us v = Inr s" and "verdict_text_ok v"
  shows "decode_verdict fs s = Some v"
proof -
  have s: "s = marshal (jmap (verdict_fields us v))" and c: "Verdict_IsValid (v_Verdict v)"
    using assms(2) by (auto simp: walEvaluationVerdictRowJSON_def split: if_splits)
  have "decode_verdict fs s = put_all (put_verdict fs) (go_sort field_before (verdict_fields us v)) zero_verdict"
    unfolding decode_verdict_def s by (rule decodeStrict_jmap [OF verdict_fields_ok])
  also have "\<dots> = Some v"
    using assms(1,3) canonical_utf8(2) [OF c]
    by (simp add: verdict_fields_sorted put_verdict_def zero_verdict_def verdict_text_ok_def dec_jtime dec_jreason)
  finally show ?thesis .
qed

lemma decode_finding_row:
  assumes "uuid_text us fs" and "walFindingRowJSON us f = Inr s" and "finding_text_ok f"
  shows "decode_finding fs s = Some f"
proof -
  have s: "s = marshal (jmap (finding_fields us f))"
    using assms(2) by (auto simp: walFindingRowJSON_def split: if_splits)
  have "decode_finding fs s = put_all (put_finding fs) (go_sort field_before (finding_fields us f)) zero_finding"
    unfolding decode_finding_def s by (rule decodeStrict_jmap [OF finding_fields_ok])
  also have "\<dots> = Some f"
    using assms(1,3) dec_sample_ids [OF assms(1), of "MetricSampleIDs f"]
    by (simp add: finding_fields_sorted put_finding_def zero_finding_def finding_text_ok_def dec_jtime dec_jint
        del: dec_uuids.simps)
  finally show ?thesis .
qed

text \<open>The gate's printers agree with the engine's on the rows they stand for.\<close>

lemma walDegradedRunRowJSON_eq: "walDegradedRunRowJSON us run = walEvaluationRunRowJSON us (degraded_run run)"
  by (simp add: walDegradedRunRowJSON_def walEvaluationRunRowJSON_def degraded_run_def Caller_IsValid_def run_fields_def)

lemma walDegradedVerdictRowJSON_eq:
  "dv_DegradedReason v \<noteq> [] \<Longrightarrow> walDegradedVerdictRowJSON us v = walEvaluationVerdictRowJSON us (degraded_verdict v)"
  by (simp add: walDegradedVerdictRowJSON_def walEvaluationVerdictRowJSON_def degraded_verdict_def Verdict_IsValid_def
      gate_Verdict_IsValid_def verdict_fields_def jreason_def)

end
