(* ===== verification/Audit_Reconciler.thy ===== *)
theory Audit_Reconciler
  imports Audit_Rows
begin

text \<open>
  The reconciler that replays the write-ahead log into the audit tables at start-up
  (\<^verbatim>\<open>audit/reconciler/reconciler.go\<close>, \<^verbatim>\<open>types.go\<close>, \<^verbatim>\<open>replayer.go\<close>,
  \<^verbatim>\<open>sql_replayer.go\<close>) and the verifier over historical keys that production binds to it
  (\<^verbatim>\<open>composition/wal_reconciler.go\<close>). The audit tables are the three row lists of the
  engine's store. Of the database the model keeps the primary keys, the foreign keys to
  \<^verbatim>\<open>evaluation_run\<close> and \<^verbatim>\<open>ON CONFLICT DO NOTHING\<close>; how a statement ends otherwise is given
  by the environment.
\<close>

section \<open>Counters and errors\<close>

datatype rec_error =
    RecContext | RecRead wal_error | ErrSignatureInvalid | ErrSigningKeyUnknown | ErrUnknownTable | ErrRowPKMismatch
  | RecVerifier | RecDecode | RecZeroUUID | RecEmpty | RecSQL

datatype Outcome = OutcomeInserted | OutcomeSkippedExisting

record PerTable =
  n_EvaluationRun :: int
  n_EvaluationVerdict :: int
  n_Finding :: int

definition zero_PerTable :: PerTable where
  "zero_PerTable = \<lparr>n_EvaluationRun = 0, n_EvaluationVerdict = 0, n_Finding = 0\<rparr>"

definition PerTable_Total :: "PerTable \<Rightarrow> int" where
  "PerTable_Total p = n_EvaluationRun p + n_EvaluationVerdict p + n_Finding p"

definition PerTable_inc :: "Table \<Rightarrow> PerTable \<Rightarrow> PerTable" where
  "PerTable_inc t p =
     (if t = TableEvaluationRun then p\<lparr>n_EvaluationRun := n_EvaluationRun p + 1\<rparr>
      else if t = TableEvaluationVerdict then p\<lparr>n_EvaluationVerdict := n_EvaluationVerdict p + 1\<rparr>
      else if t = TableFinding then p\<lparr>n_Finding := n_Finding p + 1\<rparr>
      else p)"

text \<open>A warning is the sentinel it reports.\<close>

record Stats =
  Replayed :: PerTable
  SkippedExisting :: PerTable
  SkippedBadSig :: PerTable
  SkippedBadShape :: PerTable
  Warnings :: "wal_error list"

definition zero_Stats :: Stats where
  "zero_Stats =
     \<lparr>Replayed = zero_PerTable, SkippedExisting = zero_PerTable, SkippedBadSig = zero_PerTable,
      SkippedBadShape = zero_PerTable, Warnings = []\<rparr>"

definition tallyOutcome :: "Table \<Rightarrow> Outcome \<Rightarrow> Stats \<Rightarrow> Stats" where
  "tallyOutcome t o' st =
     (case o' of
        OutcomeInserted \<Rightarrow> st\<lparr>Replayed := PerTable_inc t (Replayed st)\<rparr>
      | OutcomeSkippedExisting \<Rightarrow> st\<lparr>SkippedExisting := PerTable_inc t (SkippedExisting st)\<rparr>)"

section \<open>Replaying a row\<close>

text \<open>
  How a statement ends: executed; refused by the database (an outage, or a constraint on
  tables outside the model); executed although an error is reported; executed, with the
  count of affected rows unknown.
\<close>

datatype exec_outcome = ExecOk | ExecRefused | ExecUnclear | RowsUnknown

type_synonym exec_env = "EngineStore \<Rightarrow> Table \<Rightarrow> uuid \<Rightarrow> exec_outcome"

definition classifyOutcome :: "int \<Rightarrow> rec_error + Outcome" where
  "classifyOutcome n = (if n = 1 then Inr OutcomeInserted else if n = 0 then Inr OutcomeSkippedExisting else Inl RecSQL)"

text \<open>\<^verbatim>\<open>INSERT ... ON CONFLICT (pk) DO NOTHING\<close>: only a row that goes in is checked against its foreign key.\<close>

definition insert_absent ::
  "exec_outcome \<Rightarrow> bool \<Rightarrow> bool \<Rightarrow> (EngineStore \<Rightarrow> EngineStore) \<Rightarrow> EngineStore \<Rightarrow> (rec_error + Outcome) \<times> EngineStore" where
  "insert_absent io present fk ins s =
     (if io = ExecRefused then (Inl RecSQL, s)
      else if \<not> present \<and> \<not> fk then (Inl RecSQL, s)
      else
        (if io = ExecOk then classifyOutcome (if present then 0 else 1) else Inl RecSQL,
         if present then s else ins s))"

definition has_run :: "uuid \<Rightarrow> EngineStore \<Rightarrow> bool" where
  "has_run i s = list_ex (\<lambda>r. EvaluationRunID r = i) (runs s)"

definition has_verdict :: "uuid \<Rightarrow> EngineStore \<Rightarrow> bool" where
  "has_verdict i s = list_ex (\<lambda>v. VerdictID v = i) (verdicts s)"

definition has_finding :: "uuid \<Rightarrow> EngineStore \<Rightarrow> bool" where
  "has_finding i s = list_ex (\<lambda>f. FindingID f = i) (findings s)"

definition ReplayRun :: "exec_env \<Rightarrow> EvaluationRunRow \<Rightarrow> EngineStore \<Rightarrow> (rec_error + Outcome) \<times> EngineStore" where
  "ReplayRun db row s =
     (if EvaluationRunID row = uuid_Nil then (Inl RecZeroUUID, s)
      else if r_RepoID row = uuid_Nil then (Inl RecZeroUUID, s)
      else if r_SHA row = [] then (Inl RecEmpty, s)
      else if r_PolicyVersionID row = uuid_Nil then (Inl RecZeroUUID, s)
      else if r_Caller row = [] then (Inl RecEmpty, s)
      else
        insert_absent (db s TableEvaluationRun (EvaluationRunID row)) (has_run (EvaluationRunID row) s) True
          (\<lambda>s. s\<lparr>runs := runs s @ [row]\<rparr>) s)"

definition ReplayVerdict :: "exec_env \<Rightarrow> EvaluationVerdictRow \<Rightarrow> EngineStore \<Rightarrow> (rec_error + Outcome) \<times> EngineStore" where
  "ReplayVerdict db row s =
     (if VerdictID row = uuid_Nil then (Inl RecZeroUUID, s)
      else if v_EvaluationRunID row = uuid_Nil then (Inl RecZeroUUID, s)
      else if v_Verdict row = [] then (Inl RecEmpty, s)
      else
        insert_absent (db s TableEvaluationVerdict (VerdictID row)) (has_verdict (VerdictID row) s)
          (has_run (v_EvaluationRunID row) s) (\<lambda>s. s\<lparr>verdicts := verdicts s @ [row]\<rparr>) s)"

definition ReplayFinding :: "exec_env \<Rightarrow> FindingRow \<Rightarrow> EngineStore \<Rightarrow> (rec_error + Outcome) \<times> EngineStore" where
  "ReplayFinding db row s =
     (if FindingID row = uuid_Nil then (Inl RecZeroUUID, s)
      else if f_EvaluationRunID row = uuid_Nil then (Inl RecZeroUUID, s)
      else if f_RepoID row = uuid_Nil then (Inl RecZeroUUID, s)
      else if f_SHA row = [] then (Inl RecEmpty, s)
      else if f_ScopeID row = uuid_Nil then (Inl RecZeroUUID, s)
      else if f_RuleID row = [] then (Inl RecEmpty, s)
      else if f_PolicyVersionID row = uuid_Nil then (Inl RecZeroUUID, s)
      else if f_Severity row = [] then (Inl RecEmpty, s)
      else if f_Delta row = [] then (Inl RecEmpty, s)
      else
        insert_absent (db s TableFinding (FindingID row)) (has_finding (FindingID row) s)
          (has_run (f_EvaluationRunID row) s) (\<lambda>s. s\<lparr>findings := findings s @ [row]\<rparr>) s)"

section \<open>The verifier\<close>

type_synonym Verifier = "ctx \<Rightarrow> uuid \<Rightarrow> string \<Rightarrow> string \<Rightarrow> rec_error option"

definition buildHistoricalKeySnapshot :: "KeyRecord list \<Rightarrow> (uuid, string) gomap" where
  "buildHistoricalKeySnapshot recs =
     fold (\<lambda>r snap. if length (PublicKey r) \<noteq> Ed25519PublicKeySize then snap else gomap_put (KeyID r) (PublicKey r) snap)
       recs []"

definition historicalKeysWALVerifier :: "ed_verify \<Rightarrow> (uuid, string) gomap \<Rightarrow> Verifier" where
  "historicalKeysWALVerifier ed snap c keyID payload sig =
     (case c of
        Cancelled \<Rightarrow> Some RecContext
      | Live \<Rightarrow>
          (case map_of snap keyID of
             None \<Rightarrow> Some ErrSigningKeyUnknown
           | Some pub \<Rightarrow>
               if length sig \<noteq> Ed25519SignatureSize then Some ErrSignatureInvalid
               else if \<not> ed pub payload sig then Some ErrSignatureInvalid
               else None))"

definition NewHistoricalKeysWALVerifier :: "ed_verify \<Rightarrow> ctx \<Rightarrow> KeyRecord list \<Rightarrow> keys_error + Verifier" where
  "NewHistoricalKeysWALVerifier ed c rows =
     bindE (keys_List c rows) (\<lambda>recs. Inr (historicalKeysWALVerifier ed (buildHistoricalKeySnapshot recs)))"

definition NewKeysManagerWALVerifier :: "ed_verify \<Rightarrow> Manager \<Rightarrow> Verifier" where
  "NewKeysManagerWALVerifier ed m = historicalKeysWALVerifier ed (buildHistoricalKeySnapshot (key_cache m))"

definition NoopSignerVerifier :: "(string \<Rightarrow> string) \<Rightarrow> Verifier" where
  "NoopSignerVerifier sha256 c keyID payload sig =
     (if c = Cancelled then Some RecContext
      else if NoopVerify sha256 payload sig then None else Some ErrSignatureInvalid)"

section \<open>The reconciler\<close>

text \<open>The decoded row must carry the key of the frame; then it is replayed and counted.\<close>

definition dispatch ::
  "('r \<Rightarrow> uuid) \<Rightarrow> ('r \<Rightarrow> EngineStore \<Rightarrow> (rec_error + Outcome) \<times> EngineStore) \<Rightarrow> AuditFrame \<Rightarrow> 'r option \<Rightarrow> Stats \<Rightarrow> EngineStore
   \<Rightarrow> rec_error option \<times> Stats \<times> EngineStore" where
  "dispatch key replay frame row st s =
     (case row of
        None \<Rightarrow> (Some RecDecode, st, s)
      | Some r \<Rightarrow>
          if key r \<noteq> RowPK frame then (Some ErrRowPKMismatch, st, s)
          else
            (case replay r s of
               (Inl e, s') \<Rightarrow> (Some e, st, s')
             | (Inr o', s') \<Rightarrow> (None, tallyOutcome (fr_Table frame) o' st, s')))"

definition replayOne ::
  "(uuid \<Rightarrow> string) \<Rightarrow> (string \<Rightarrow> uuid option) \<Rightarrow> Verifier \<Rightarrow> exec_env \<Rightarrow> ctx \<Rightarrow> AuditFrame \<Rightarrow> Stats \<Rightarrow> EngineStore
   \<Rightarrow> rec_error option \<times> Stats \<times> EngineStore" where
  "replayOne us fs verify db c frame st s =
     (if c = Cancelled then (Some RecContext, st, s)
      else if \<not> (fr_Table frame = TableEvaluationRun \<or> fr_Table frame = TableEvaluationVerdict \<or> fr_Table frame = TableFinding)
        then (Some ErrUnknownTable, st, s)
      else if Validate frame \<noteq> None
        then (None, st\<lparr>SkippedBadShape := PerTable_inc (fr_Table frame) (SkippedBadShape st)\<rparr>, s)
      else
        (case SigningPayload us frame of
           Inl _ \<Rightarrow> (None, st\<lparr>SkippedBadShape := PerTable_inc (fr_Table frame) (SkippedBadShape st)\<rparr>, s)
         | Inr payload \<Rightarrow>
             (case verify c (SigningKeyID frame) payload (fr_Signature frame) of
                Some e \<Rightarrow>
                  if e = ErrSignatureInvalid \<or> e = ErrSigningKeyUnknown
                  then (None, st\<lparr>SkippedBadSig := PerTable_inc (fr_Table frame) (SkippedBadSig st)\<rparr>, s)
                  else (Some RecVerifier, st, s)
              | None \<Rightarrow>
                  if fr_Table frame = TableEvaluationRun then
                    dispatch EvaluationRunID (ReplayRun db) frame (decode_run fs (RowJSON frame)) st s
                  else if fr_Table frame = TableEvaluationVerdict then
                    dispatch VerdictID (ReplayVerdict db) frame (decode_verdict fs (RowJSON frame)) st s
                  else dispatch FindingID (ReplayFinding db) frame (decode_finding fs (RowJSON frame)) st s)))"

text \<open>One pass over the frames that \<open>want\<close> selects; the first error ends it. Call \<open>n\<close> sees the context \<open>cs n\<close>.\<close>

fun run_phase ::
  "(nat \<Rightarrow> AuditFrame \<Rightarrow> Stats \<Rightarrow> EngineStore \<Rightarrow> rec_error option \<times> Stats \<times> EngineStore) \<Rightarrow> (AuditFrame \<Rightarrow> bool) \<Rightarrow> nat
   \<Rightarrow> AuditFrame list \<Rightarrow> Stats \<Rightarrow> EngineStore \<Rightarrow> rec_error option \<times> Stats \<times> EngineStore" where
  "run_phase one want n [] st s = (None, st, s)"
| "run_phase one want n (f # frames) st s =
     (if \<not> want f then run_phase one want n frames st s
      else
        (case one n f st s of
           (Some e, st', s') \<Rightarrow> (Some e, st', s')
         | (None, st', s') \<Rightarrow> run_phase one want (Suc n) frames st' s'))"

definition is_run_frame :: "AuditFrame \<Rightarrow> bool" where
  "is_run_frame f \<longleftrightarrow> fr_Table f = TableEvaluationRun"

definition Reconciler_Run ::
  "(uuid \<Rightarrow> string) \<Rightarrow> (string \<Rightarrow> uuid option) \<Rightarrow> Verifier \<Rightarrow> exec_env \<Rightarrow> (string \<Rightarrow> read_outcome) \<Rightarrow> (nat \<Rightarrow> ctx) \<Rightarrow> listing
   \<Rightarrow> EngineStore \<Rightarrow> rec_error option \<times> Stats \<times> EngineStore" where
  "Reconciler_Run us fs verify db io cs l s =
     (if cs 0 = Cancelled then (Some RecContext, zero_Stats, s)
      else
        (case ReadAll fs io l of
           (frames, readErr) \<Rightarrow>
             (case (case readErr of
                      None \<Rightarrow> Inr zero_Stats
                    | Some e \<Rightarrow>
                        if e = ErrTrailingPartialFrame \<or> e = ErrFrameSizeExceeded
                        then Inr (zero_Stats\<lparr>Warnings := [e]\<rparr>) else Inl e) of
                Inl e \<Rightarrow> (Some (RecRead e), zero_Stats, s)
              | Inr st \<Rightarrow>
                  (case run_phase (\<lambda>n. replayOne us fs verify db (cs n)) is_run_frame 1 frames st s of
                     (Some e, st', s') \<Rightarrow> (Some e, st', s')
                   | (None, st', s') \<Rightarrow>
                       run_phase (\<lambda>n. replayOne us fs verify db (cs n)) (\<lambda>f. \<not> is_run_frame f)
                         (1 + length (filter is_run_frame frames)) frames st' s'))))"


section \<open>Rows of the audit tables\<close>

datatype audit_row = RunRow EvaluationRunRow | VerdictRow EvaluationVerdictRow | FindRow FindingRow

fun row_pk :: "audit_row \<Rightarrow> uuid" where
  "row_pk (RunRow r) = EvaluationRunID r"
| "row_pk (VerdictRow v) = VerdictID v"
| "row_pk (FindRow f) = FindingID f"

fun row_table :: "audit_row \<Rightarrow> Table" where
  "row_table (RunRow r) = TableEvaluationRun"
| "row_table (VerdictRow v) = TableEvaluationVerdict"
| "row_table (FindRow f) = TableFinding"

text \<open>The key of the row is taken; the row it refers to is there; the row passes the checks of the replayer.\<close>

fun has_row :: "audit_row \<Rightarrow> EngineStore \<Rightarrow> bool" where
  "has_row (RunRow r) s = has_run (EvaluationRunID r) s"
| "has_row (VerdictRow v) s = has_verdict (VerdictID v) s"
| "has_row (FindRow f) s = has_finding (FindingID f) s"

fun fk_ok :: "audit_row \<Rightarrow> EngineStore \<Rightarrow> bool" where
  "fk_ok (RunRow r) s = True"
| "fk_ok (VerdictRow v) s = has_run (v_EvaluationRunID v) s"
| "fk_ok (FindRow f) s = has_run (f_EvaluationRunID f) s"

fun complete_row :: "audit_row \<Rightarrow> bool" where
  "complete_row (RunRow r) \<longleftrightarrow>
     EvaluationRunID r \<noteq> uuid_Nil \<and> r_RepoID r \<noteq> uuid_Nil \<and> r_SHA r \<noteq> [] \<and> r_PolicyVersionID r \<noteq> uuid_Nil \<and> r_Caller r \<noteq> []"
| "complete_row (VerdictRow v) \<longleftrightarrow> VerdictID v \<noteq> uuid_Nil \<and> v_EvaluationRunID v \<noteq> uuid_Nil \<and> v_Verdict v \<noteq> []"
| "complete_row (FindRow f) \<longleftrightarrow>
     FindingID f \<noteq> uuid_Nil \<and> f_EvaluationRunID f \<noteq> uuid_Nil \<and> f_RepoID f \<noteq> uuid_Nil \<and> f_SHA f \<noteq> [] \<and> f_ScopeID f \<noteq> uuid_Nil
     \<and> f_RuleID f \<noteq> [] \<and> f_PolicyVersionID f \<noteq> uuid_Nil \<and> f_Severity f \<noteq> [] \<and> f_Delta f \<noteq> []"

fun add_row :: "audit_row \<Rightarrow> EngineStore \<Rightarrow> EngineStore" where
  "add_row (RunRow r) s = s\<lparr>runs := runs s @ [r]\<rparr>"
| "add_row (VerdictRow v) s = s\<lparr>verdicts := verdicts s @ [v]\<rparr>"
| "add_row (FindRow f) s = s\<lparr>findings := findings s @ [f]\<rparr>"

text \<open>The row itself is stored.\<close>

fun stored :: "audit_row \<Rightarrow> EngineStore \<Rightarrow> bool" where
  "stored (RunRow r) s \<longleftrightarrow> r \<in> set (runs s)"
| "stored (VerdictRow v) s \<longleftrightarrow> v \<in> set (verdicts s)"
| "stored (FindRow f) s \<longleftrightarrow> f \<in> set (findings s)"

lemmas has_defs = has_run_def has_verdict_def has_finding_def list_ex_iff

lemma add_row_has [simp]: "has_row row (add_row row s)"
  by (cases row) (simp_all add: has_defs)

lemma add_row_stored [simp]: "stored row (add_row row s)"
  by (cases row) simp_all

lemma add_row_mono:
  "has_row row s \<Longrightarrow> has_row row (add_row row' s)" "fk_ok row s \<Longrightarrow> fk_ok row (add_row row' s)"
  "stored row s \<Longrightarrow> stored row (add_row row' s)"
  by (cases row; cases row'; auto simp: has_defs)+

lemma has_row_same: "row_table row = row_table row' \<Longrightarrow> row_pk row = row_pk row' \<Longrightarrow> has_row row s = has_row row' s"
  by (cases row; cases row') simp_all

lemma stored_has: "stored row s \<Longrightarrow> has_row row s"
  by (cases row) (auto simp: has_defs)

section \<open>The contract of a replayer\<close>

text \<open>
  What the reconciler relies on for each table: a statement leaves the tables as they are
  or appends the row, and only when its key is absent; the outcome says which; on a working
  database a complete row whose run is stored goes through.
\<close>

locale replayer =
  fixes wrap :: "'r \<Rightarrow> audit_row" and replay :: "exec_env \<Rightarrow> 'r \<Rightarrow> EngineStore \<Rightarrow> (rec_error + Outcome) \<times> EngineStore"
  assumes changes: "replay db r s = (res, s') \<Longrightarrow> s' = s \<or> \<not> has_row (wrap r) s \<and> s' = add_row (wrap r) s"
    and outcome: "replay db r s = (Inr o', s') \<Longrightarrow>
      if has_row (wrap r) s then o' = OutcomeSkippedExisting \<and> s' = s else o' = OutcomeInserted \<and> s' = add_row (wrap r) s"
    and works: "(\<And>t i. db s t i = ExecOk) \<Longrightarrow> complete_row (wrap r) \<Longrightarrow> has_row (wrap r) s \<or> fk_ok (wrap r) s \<Longrightarrow>
      \<exists>o' s'. replay db r s = (Inr o', s')"
    and checked: "replay db r s = (Inr o', s') \<Longrightarrow> complete_row (wrap r)"
begin

lemma dispatch_changes:
  assumes "dispatch (row_pk \<circ> wrap) (replay db) f row st s = (e, st', s')"
  shows "s' = s \<or> (\<exists>r. map_option wrap row = Some r \<and> row_pk r = RowPK f \<and> \<not> has_row r s \<and> s' = add_row r s)"
  using assms changes by (fastforce simp: dispatch_def split: option.splits if_splits prod.splits sum.splits)

lemma dispatch_done:
  assumes "dispatch (row_pk \<circ> wrap) (replay db) f row st s = (None, st', s')"
  shows "\<exists>r. map_option wrap row = Some r \<and> row_pk r = RowPK f \<and> complete_row r
    \<and> (if has_row r s then st' = tallyOutcome (fr_Table f) OutcomeSkippedExisting st \<and> s' = s
       else st' = tallyOutcome (fr_Table f) OutcomeInserted st \<and> s' = add_row r s)"
proof -
  obtain r o' where r: "row = Some r" "row_pk (wrap r) = RowPK f" "replay db r s = (Inr o', s')" "st' = tallyOutcome (fr_Table f) o' st"
    using assms by (auto simp: dispatch_def split: option.splits if_splits prod.splits sum.splits)
  then show ?thesis using outcome [OF r(3)] checked [OF r(3)] by (auto split: if_splits)
qed

lemma dispatch_works:
  assumes "\<And>t i. db s t i = ExecOk" and "row = Some r" and "row_pk (wrap r) = RowPK f" and "complete_row (wrap r)"
    and "has_row (wrap r) s \<or> fk_ok (wrap r) s"
  shows "\<exists>st' s'. dispatch (row_pk \<circ> wrap) (replay db) f row st s = (None, st', s')"
  using works [of db s r, OF assms(1,4,5)] assms(2,3) by (auto simp: dispatch_def)

end

lemmas replay_defs = ReplayRun_def ReplayVerdict_def ReplayFinding_def insert_absent_def classifyOutcome_def

interpretation run_replay: replayer RunRow ReplayRun
  by unfold_locales (auto simp: replay_defs split: if_splits)

interpretation verdict_replay: replayer VerdictRow ReplayVerdict
  by unfold_locales (auto simp: replay_defs split: if_splits)

interpretation finding_replay: replayer FindRow ReplayFinding
  by unfold_locales (auto simp: replay_defs split: if_splits)


section \<open>One frame\<close>

definition frame_row :: "(string \<Rightarrow> uuid option) \<Rightarrow> AuditFrame \<Rightarrow> audit_row option" where
  "frame_row fs f =
     (if fr_Table f = TableEvaluationRun then map_option RunRow (decode_run fs (RowJSON f))
      else if fr_Table f = TableEvaluationVerdict then map_option VerdictRow (decode_verdict fs (RowJSON f))
      else map_option FindRow (decode_finding fs (RowJSON f)))"

definition signature_ok :: "(uuid \<Rightarrow> string) \<Rightarrow> Verifier \<Rightarrow> AuditFrame \<Rightarrow> bool" where
  "signature_ok us verify f \<longleftrightarrow>
     Validate f = None \<and> (case SigningPayload us f of Inl _ \<Rightarrow> False | Inr p \<Rightarrow> verify Live (SigningKeyID f) p (fr_Signature f) = None)"

text \<open>The frame is well formed, its signature verifies, and it carries this row under its own key.\<close>

definition genuine :: "(uuid \<Rightarrow> string) \<Rightarrow> (string \<Rightarrow> uuid option) \<Rightarrow> Verifier \<Rightarrow> AuditFrame \<Rightarrow> audit_row \<Rightarrow> bool" where
  "genuine us fs verify f row \<longleftrightarrow> signature_ok us verify f \<and> frame_row fs f = Some row \<and> row_pk row = RowPK f"

lemma frame_row_table: "Table_IsValid (fr_Table f) \<Longrightarrow> frame_row fs f = Some row \<Longrightarrow> row_table row = fr_Table f"
  by (auto simp: frame_row_def Table_IsValid_def split: if_splits)

definition Stats_Total :: "Stats \<Rightarrow> int" where
  "Stats_Total st = PerTable_Total (Replayed st) + PerTable_Total (SkippedExisting st) + PerTable_Total (SkippedBadSig st)
     + PerTable_Total (SkippedBadShape st)"

lemma PerTable_Total_inc: "Table_IsValid t \<Longrightarrow> PerTable_Total (PerTable_inc t p) = PerTable_Total p + 1"
  by (auto simp: Table_IsValid_def PerTable_inc_def PerTable_Total_def)

definition send ::
  "(string \<Rightarrow> uuid option) \<Rightarrow> exec_env \<Rightarrow> AuditFrame \<Rightarrow> Stats \<Rightarrow> EngineStore \<Rightarrow> rec_error option \<times> Stats \<times> EngineStore" where
  "send fs db f st s =
     (if fr_Table f = TableEvaluationRun then
        dispatch EvaluationRunID (ReplayRun db) f (decode_run fs (RowJSON f)) st s
      else if fr_Table f = TableEvaluationVerdict then
        dispatch VerdictID (ReplayVerdict db) f (decode_verdict fs (RowJSON f)) st s
      else dispatch FindingID (ReplayFinding db) f (decode_finding fs (RowJSON f)) st s)"

lemma row_pk_wrap: "row_pk \<circ> RunRow = EvaluationRunID" "row_pk \<circ> VerdictRow = VerdictID" "row_pk \<circ> FindRow = FindingID"
  by (simp_all add: fun_eq_iff)

lemma send_changes:
  "send fs db f st s = (e, st', s') \<Longrightarrow>
     s' = s \<or> (\<exists>row. frame_row fs f = Some row \<and> row_pk row = RowPK f \<and> \<not> has_row row s \<and> s' = add_row row s)"
  using run_replay.dispatch_changes [of db f _ st s e st' s', unfolded row_pk_wrap]
    verdict_replay.dispatch_changes [of db f _ st s e st' s', unfolded row_pk_wrap]
    finding_replay.dispatch_changes [of db f _ st s e st' s', unfolded row_pk_wrap]
  unfolding send_def frame_row_def by (simp split: if_splits)

lemma send_done:
  "send fs db f st s = (None, st', s') \<Longrightarrow>
     \<exists>row. frame_row fs f = Some row \<and> row_pk row = RowPK f \<and> complete_row row
       \<and> (if has_row row s then st' = tallyOutcome (fr_Table f) OutcomeSkippedExisting st \<and> s' = s
          else st' = tallyOutcome (fr_Table f) OutcomeInserted st \<and> s' = add_row row s)"
  using run_replay.dispatch_done [of db f _ st s st' s', unfolded row_pk_wrap]
    verdict_replay.dispatch_done [of db f _ st s st' s', unfolded row_pk_wrap]
    finding_replay.dispatch_done [of db f _ st s st' s', unfolded row_pk_wrap]
  unfolding send_def frame_row_def by (simp split: if_split_asm split del: if_split)

lemma send_works:
  assumes "\<And>t i. db s t i = ExecOk" and "frame_row fs f = Some row" and "row_pk row = RowPK f" and "complete_row row"
    and "has_row row s \<or> fk_ok row s"
  shows "\<exists>st' s'. send fs db f st s = (None, st', s')"
  using assms(2-) run_replay.dispatch_works [of db s _ _ f st, OF assms(1), unfolded row_pk_wrap]
    verdict_replay.dispatch_works [of db s _ _ f st, OF assms(1), unfolded row_pk_wrap]
    finding_replay.dispatch_works [of db s _ _ f st, OF assms(1), unfolded row_pk_wrap]
  unfolding send_def frame_row_def by (fastforce split: if_splits)

text \<open>Replaying a frame: an error, a skip that is counted, or the row of a frame whose signature verified.\<close>

lemma replayOne_cases:
  assumes "replayOne us fs verify db c f st s = (e, st', s')"
  obtains (error) "e \<noteq> None" "s' = s" "\<not> (signature_ok us verify f \<and> c = Live)"
    | (skipped) "e = None" "s' = s" "\<not> signature_ok us verify f" "Table_IsValid (fr_Table f)" "Stats_Total st' = Stats_Total st + 1"
        "Replayed st' = Replayed st"
    | (sent) "c = Live" "signature_ok us verify f" "send fs db f st s = (e, st', s')"
proof -
  have tv: "fr_Table f = TableEvaluationRun \<or> fr_Table f = TableEvaluationVerdict \<or> fr_Table f = TableFinding \<longleftrightarrow> Table_IsValid (fr_Table f)"
    by (simp add: Table_IsValid_def)
  consider (err) "c = Cancelled \<or> \<not> Table_IsValid (fr_Table f)" | (shape) "c = Live" "Table_IsValid (fr_Table f)" "Validate f \<noteq> None"
    | (enc) x where "c = Live" "Table_IsValid (fr_Table f)" "SigningPayload us f = Inl x" "Validate f = None"
    | (ver) p where "c = Live" "Table_IsValid (fr_Table f)" "Validate f = None" "SigningPayload us f = Inr p"
    by (cases c; cases "SigningPayload us f") auto
  then show thesis
  proof cases
    case err
    then have "e \<noteq> None" "s' = s" "\<not> (signature_ok us verify f \<and> c = Live)"
      using assms Validate_None(2) [of f] unfolding replayOne_def tv signature_ok_def by (auto split: if_splits)
    then show thesis by (rule error)
  next
    case shape
    then show thesis
      using assms PerTable_Total_inc [OF shape(2)] unfolding replayOne_def tv
      by (intro skipped) (auto simp: signature_ok_def Stats_Total_def)
  next
    case enc
    then show thesis
      using assms PerTable_Total_inc [OF enc(2)] unfolding replayOne_def tv
      by (intro skipped) (auto simp: signature_ok_def Stats_Total_def)
  next
    case ver
    show thesis
    proof (cases "verify c (SigningKeyID f) p (fr_Signature f)")
      case None
      have "send fs db f st s = (e, st', s')" using assms ver None unfolding replayOne_def tv send_def by simp
      then show thesis using ver None by (intro sent) (simp_all add: signature_ok_def)
    next
      case (Some x)
      then have bad: "\<not> signature_ok us verify f" using ver by (simp add: signature_ok_def)
      show thesis
      proof (cases "x = ErrSignatureInvalid \<or> x = ErrSigningKeyUnknown")
        case True
        then show thesis
          using assms ver Some bad PerTable_Total_inc [OF ver(2)] unfolding replayOne_def tv
          by (intro skipped) (auto simp: Stats_Total_def)
      next
        case False
        then show thesis
          using assms ver Some bad unfolding replayOne_def tv by (intro error) auto
      qed
    qed
  qed
qed


section \<open>The two phases\<close>

fun fresh_rows :: "audit_row list \<Rightarrow> EngineStore \<Rightarrow> bool" where
  "fresh_rows [] s = True"
| "fresh_rows (r # rs) s \<longleftrightarrow> \<not> has_row r s \<and> fresh_rows rs (add_row r s)"

lemma fresh_rows_append: "fresh_rows (xs @ ys) s \<longleftrightarrow> fresh_rows xs s \<and> fresh_rows ys (fold add_row xs s)"
  by (induction xs arbitrary: s) auto

lemma fold_add_mono:
  "has_row row s \<Longrightarrow> has_row row (fold add_row rows s)" "fk_ok row s \<Longrightarrow> fk_ok row (fold add_row rows s)"
  "stored row s \<Longrightarrow> stored row (fold add_row rows s)"
  by (induction rows arbitrary: s) (auto simp: add_row_mono)

lemma fold_add_stored: "row \<in> set rows \<Longrightarrow> stored row (fold add_row rows s)"
  by (induction rows arbitrary: s) (auto simp: fold_add_mono)

lemma fresh_rows_absent: "fresh_rows rows s \<Longrightarrow> row \<in> set rows \<Longrightarrow> \<not> has_row row s"
  by (induction rows arbitrary: s) (auto dest: add_row_mono(1))

abbreviation phase ::
  "(uuid \<Rightarrow> string) \<Rightarrow> (string \<Rightarrow> uuid option) \<Rightarrow> Verifier \<Rightarrow> exec_env \<Rightarrow> (nat \<Rightarrow> ctx) \<Rightarrow> (AuditFrame \<Rightarrow> bool) \<Rightarrow> nat
   \<Rightarrow> AuditFrame list \<Rightarrow> Stats \<Rightarrow> EngineStore \<Rightarrow> rec_error option \<times> Stats \<times> EngineStore" where
  "phase us fs verify db cs \<equiv> run_phase (\<lambda>n. replayOne us fs verify db (cs n))"

text \<open>
  What replaying the frames \<open>F\<close> does: it appends rows of signed frames whose keys were
  absent; without an error every frame is counted once, the rows are those counted as
  replayed, and every signed frame has its row.
\<close>

definition replays ::
  "(uuid \<Rightarrow> string) \<Rightarrow> (string \<Rightarrow> uuid option) \<Rightarrow> Verifier \<Rightarrow> AuditFrame list \<Rightarrow> audit_row list \<Rightarrow> Stats \<times> EngineStore
   \<Rightarrow> rec_error option \<Rightarrow> Stats \<times> EngineStore \<Rightarrow> bool" where
  "replays us fs verify F rows a e b \<longleftrightarrow>
     snd b = fold add_row rows (snd a) \<and> fresh_rows rows (snd a)
     \<and> (\<forall>row \<in> set rows. \<exists>f \<in> set F. genuine us fs verify f row)
     \<and> (e = None \<longrightarrow>
          Stats_Total (fst b) = Stats_Total (fst a) + int (length F)
          \<and> PerTable_Total (Replayed (fst b)) = PerTable_Total (Replayed (fst a)) + int (length rows)
          \<and> (\<forall>f \<in> set F. signature_ok us verify f \<longrightarrow>
               (\<exists>row. genuine us fs verify f row \<and> complete_row row \<and> has_row row (snd b))))"

lemma replays_none: "replays us fs verify [] [] a e a"
  by (simp add: replays_def)

lemma replays_fail: "replays us fs verify F rows a (Some x) b \<Longrightarrow> set F \<subseteq> set G \<Longrightarrow> replays us fs verify G rows a (Some x) b"
  unfolding replays_def by blast

lemma replays_seq:
  assumes "replays us fs verify F rs a None b" and "replays us fs verify G ts b e c"
  shows "replays us fs verify (F @ G) (rs @ ts) a e c"
proof -
  have "\<exists>row. genuine us fs verify f row \<and> complete_row row \<and> has_row row (snd c)" if "f \<in> set F" "signature_ok us verify f" for f
    using assms that fold_add_mono(1) unfolding replays_def by metis
  then show ?thesis using assms unfolding replays_def by (auto simp: fresh_rows_append)
qed

lemma replayOne_replays:
  assumes "replayOne us fs verify db c f st s = (e, st', s')"
  shows "\<exists>rows. replays us fs verify [f] rows (st, s) e (st', s')"
  using assms
proof (cases rule: replayOne_cases)
  case error
  then show ?thesis by (intro exI [of _ "[]"]) (auto simp: replays_def)
next
  case skipped
  then show ?thesis by (intro exI [of _ "[]"]) (auto simp: replays_def)
next
  case sent
  then have tv: "Table_IsValid (fr_Table f)" by (auto simp: signature_ok_def dest: Validate_None(2))
  note inc = PerTable_Total_inc [OF tv]
  show ?thesis
  proof (cases e)
    case None
    then obtain row where row: "frame_row fs f = Some row" "row_pk row = RowPK f" "complete_row row"
      "if has_row row s then st' = tallyOutcome (fr_Table f) OutcomeSkippedExisting st \<and> s' = s
       else st' = tallyOutcome (fr_Table f) OutcomeInserted st \<and> s' = add_row row s"
      using send_done sent(3) by blast
    have g: "genuine us fs verify f row" using row(1,2) sent(2) by (simp add: genuine_def)
    show ?thesis
      using row g inc None
      by (intro exI [of _ "if has_row row s then [] else [row]"])
        (auto simp: replays_def tallyOutcome_def Stats_Total_def intro!: exI [of _ row])
  next
    case (Some x)
    consider "s' = s" | row where "frame_row fs f = Some row" "row_pk row = RowPK f" "\<not> has_row row s" "s' = add_row row s"
      using send_changes [OF sent(3)] by blast
    then show ?thesis
    proof cases
      case 1
      then show ?thesis using Some by (intro exI [of _ "[]"]) (simp add: replays_def)
    next
      case 2
      then show ?thesis using Some sent(2) by (intro exI [of _ "[row]"]) (simp add: replays_def genuine_def)
    qed
  qed
qed

lemma phase_replays:
  "phase us fs verify db cs want n frames st s = (e, st', s') \<Longrightarrow>
     \<exists>rows. replays us fs verify (filter want frames) rows (st, s) e (st', s')"
proof (induction frames arbitrary: n st s)
  case Nil
  then show ?case by (intro exI [of _ "[]"]) (simp add: replays_none)
next
  case (Cons f frames)
  obtain e1 st1 s1 where one: "replayOne us fs verify db (cs n) f st s = (e1, st1, s1)" by (metis prod_cases3)
  obtain rs where rs: "replays us fs verify [f] rs (st, s) e1 (st1, s1)" using replayOne_replays [OF one] by blast
  consider (other) "\<not> want f" | (failed) x where "want f" "e1 = Some x" | (fine) "want f" "e1 = None" by (cases e1) auto
  then show ?case
  proof cases
    case other
    then show ?thesis using Cons.IH [of n st s] Cons.prems by simp
  next
    case failed
    then have "replays us fs verify (f # filter want frames) rs (st, s) (Some x) (st1, s1)"
      using rs by (auto intro: replays_fail)
    then show ?thesis using failed Cons.prems one by auto
  next
    case fine
    then show ?thesis
      using Cons.IH [of "Suc n" st1 s1] Cons.prems one rs replays_seq [of us fs verify "[f]"] by fastforce
  qed
qed


section \<open>The whole run\<close>

definition read_warning :: "wal_error option \<Rightarrow> bool" where
  "read_warning e \<longleftrightarrow> e \<in> {None, Some ErrTrailingPartialFrame, Some ErrFrameSizeExceeded}"

definition warn_stats :: "wal_error option \<Rightarrow> Stats" where
  "warn_stats e = (case e of None \<Rightarrow> zero_Stats | Some x \<Rightarrow> zero_Stats\<lparr>Warnings := [x]\<rparr>)"

lemma warn_stats_zero [simp]: "Stats_Total (warn_stats e) = 0" "PerTable_Total (Replayed (warn_stats e)) = 0"
  by (cases e; simp add: warn_stats_def zero_Stats_def Stats_Total_def PerTable_Total_def zero_PerTable_def)+

lemma Reconciler_Run_phases:
  assumes "ReadAll fs io l = (frames, err)"
  shows "Reconciler_Run us fs verify db io cs l s =
    (if cs 0 = Cancelled then (Some RecContext, zero_Stats, s)
     else if \<not> read_warning err then (Some (RecRead (the err)), zero_Stats, s)
     else
       (case phase us fs verify db cs is_run_frame 1 frames (warn_stats err) s of
          (Some e, st', s') \<Rightarrow> (Some e, st', s')
        | (None, st', s') \<Rightarrow>
            phase us fs verify db cs (\<lambda>f. \<not> is_run_frame f) (1 + length (filter is_run_frame frames)) frames st' s'))"
  using assms by (cases err) (auto simp: Reconciler_Run_def read_warning_def warn_stats_def)

lemma set_both_phases: "set (filter p xs @ filter (\<lambda>x. \<not> p x) xs) = set xs" "length (filter p xs @ filter (\<lambda>x. \<not> p x) xs) = length xs"
  by (auto simp: sum_length_filter_compl)

lemma Reconciler_Run_replays:
  assumes "ReadAll fs io l = (frames, err)" and "Reconciler_Run us fs verify db io cs l s = (e, st, s')"
  shows "\<exists>rows st0. Stats_Total st0 = 0 \<and> PerTable_Total (Replayed st0) = 0 \<and> replays us fs verify frames rows (st0, s) e (st, s')"
proof -
  have stop: "\<exists>rows st0. Stats_Total st0 = 0 \<and> PerTable_Total (Replayed st0) = 0 \<and> replays us fs verify frames rows (st0, s) (Some x) (st, s)" for x
    by (intro exI [of _ "[]"] exI [of _ "warn_stats None"]) (simp add: replays_def)
  have swap: "replays us fs verify frames rows a e b"
    if "replays us fs verify (filter is_run_frame frames @ filter (\<lambda>f. \<not> is_run_frame f) frames) rows a e b" for rows a e b
    using that unfolding replays_def set_both_phases by blast
  obtain e1 st1 s1 where p1: "phase us fs verify db cs is_run_frame 1 frames (warn_stats err) s = (e1, st1, s1)" by (metis prod_cases3)
  obtain rs where rs: "replays us fs verify (filter is_run_frame frames) rs (warn_stats err, s) e1 (st1, s1)"
    using phase_replays [OF p1] by blast
  consider (early) x where "e = Some x" "s' = s" | (first) x where "e1 = Some x" "e = Some x" "st = st1" "s' = s1"
    | (second) "e1 = None" "phase us fs verify db cs (\<lambda>f. \<not> is_run_frame f) (1 + length (filter is_run_frame frames)) frames st1 s1 = (e, st, s')"
    using assms(2) p1 unfolding Reconciler_Run_phases [OF assms(1)] by (auto split: if_splits option.splits)
  then show ?thesis
  proof cases
    case early
    then show ?thesis using stop by blast
  next
    case first
    then show ?thesis using replays_fail [of us fs verify _ rs _ x _ frames] rs warn_stats_zero by fastforce
  next
    case second
    then obtain ts where "replays us fs verify (filter (\<lambda>f. \<not> is_run_frame f) frames) ts (st1, s1) e (st, s')"
      using phase_replays by blast
    then show ?thesis using swap [OF replays_seq [OF rs [unfolded second(1)]]] warn_stats_zero by blast
  qed
qed


section \<open>A run that completes\<close>

lemma readFrames_valid:
  "readFrames fs br out s = (frames, e) \<Longrightarrow> list_all (\<lambda>f. Validate f = None) out \<Longrightarrow> list_all (\<lambda>f. Validate f = None) frames"
proof (induction fs br out s rule: readFrames.induct)
  case (1 fs br out s)
  define line rest where lr: "line = takeWhile (\<lambda>c. c \<noteq> CHR 0x0A) s" "rest = dropWhile (\<lambda>c. c \<noteq> CHR 0x0A) s"
  note eq = 1(3) [unfolded readFrames.simps [of fs br out s] Let_def, folded lr]
  consider "frames = out \<or> frames = []" | (blank) "int (length line) \<le> MaxFrameSize" "rest \<noteq> []" "line = []" "readFrames fs br out (tl rest) = (frames, e)"
    | (line) f where "int (length line) \<le> MaxFrameSize" "rest \<noteq> []" "line \<noteq> []" "unmarshal_frame fs line = Some f" "Validate f = None"
        "readFrames fs br (out @ [f]) (tl rest) = (frames, e)"
    using eq by (auto split: if_splits option.splits)
  then show ?case
  proof cases
    case blank
    then show ?thesis using 1(1) [OF lr] 1(4) by simp
  next
    case line
    then show ?thesis using 1(2) [OF lr _ _ _ line(4)] 1(4) by simp
  qed (use 1(4) in auto)
qed

lemma ReadPartition_valid:
  "ReadPartition fs io file = (frames, e) \<Longrightarrow> list_all (\<lambda>f. Validate f = None) frames"
  by (auto simp: ReadPartition_def split: option.splits read_outcome.splits dest: readFrames_valid)

lemma ReadAll_valid:
  assumes "ReadAll fs io l = (frames, err)"
  shows "list_all (\<lambda>f. Validate f = None) frames"
proof -
  have "read_partitions fs io dir out w ns = (frames, err) \<Longrightarrow> list_all (\<lambda>f. Validate f = None) out \<Longrightarrow>
    list_all (\<lambda>f. Validate f = None) frames" for dir out w ns
    by (induction ns arbitrary: out w)
      (auto split: prod.splits option.splits if_splits dest!: ReadPartition_valid)
  then show ?thesis using assms by (auto simp: ReadAll_def split: listing.splits)
qed

text \<open>
  What the reconciler relies on of its verifier: every refusal is one of the two durable
  ones, an invalid signature or an unknown key.
\<close>

locale classified_verifier =
  fixes verify :: Verifier
  assumes classified: "verify Live k p sig \<in> {None, Some ErrSignatureInvalid, Some ErrSigningKeyUnknown}"
begin

lemma replayOne_works:
  assumes "\<And>t i. db s t i = ExecOk" and "Validate f = None"
    and "signature_ok us verify f \<Longrightarrow> \<exists>row. genuine us fs verify f row \<and> complete_row row \<and> (has_row row s \<or> fk_ok row s)"
  shows "\<exists>st' s'. replayOne us fs verify db Live f st s = (None, st', s')"
proof -
  obtain e st' s' where one: "replayOne us fs verify db Live f st s = (e, st', s')" by (metis prod_cases3)
  then show ?thesis
  proof (cases rule: replayOne_cases)
    case error
    then have bad: "\<not> signature_ok us verify f" by simp
    then show ?thesis
      using one error(1) assms(2) Validate_None(2) [OF assms(2)]
        classified [of "SigningKeyID f" "projr (SigningPayload us f)" "fr_Signature f"]
      by (auto simp: replayOne_def signature_ok_def Table_IsValid_def split: sum.splits)
  next
    case skipped
    then show ?thesis using one by simp
  next
    case sent
    then obtain row where "genuine us fs verify f row" "complete_row row" "has_row row s \<or> fk_ok row s" using assms(3) by blast
    then have "\<exists>st' s'. send fs db f st s = (None, st', s')"
      using send_works [of db s fs f row st] assms(1) by (auto simp: genuine_def)
    then show ?thesis using sent(3) one by auto
  qed
qed

lemma phase_works:
  assumes "\<And>s t i. db s t i = ExecOk" and "\<forall>f \<in> set frames. Validate f = None"
    and "\<forall>f \<in> set frames. want f \<longrightarrow> signature_ok us verify f \<longrightarrow>
      (\<exists>row. genuine us fs verify f row \<and> complete_row row \<and> (has_row row s \<or> fk_ok row s))"
  shows "\<exists>st' s'. phase us fs verify db (\<lambda>_. Live) want n frames st s = (None, st', s')"
  using assms(2,3)
proof (induction frames arbitrary: n st s)
  case (Cons f frames)
  show ?case
  proof (cases "want f")
    case True
    then obtain st1 s1 where one: "replayOne us fs verify db Live f st s = (None, st1, s1)"
      using replayOne_works [of db s f us fs st, OF assms(1)] Cons.prems by auto
    obtain rs where "s1 = fold add_row rs s" using replayOne_replays [OF one] by (auto simp: replays_def)
    then have "\<forall>g \<in> set frames. want g \<longrightarrow> signature_ok us verify g \<longrightarrow>
        (\<exists>row. genuine us fs verify g row \<and> complete_row row \<and> (has_row row s1 \<or> fk_ok row s1))"
      using Cons.prems(2) fold_add_mono(1,2) by (metis list.set_intros(2))
    then show ?thesis using Cons.IH [of s1 "Suc n" st1] Cons.prems(1) True one by auto
  qed (use Cons in auto)
qed simp

end

interpretation historical: classified_verifier "historicalKeysWALVerifier ed snap"
  by unfold_locales (auto simp: historicalKeysWALVerifier_def split: option.splits)

interpretation noop: classified_verifier "NoopSignerVerifier sha256"
  by unfold_locales (simp add: NoopSignerVerifier_def)


text \<open>The run that a verdict or a finding belongs to.\<close>

fun refers :: "audit_row \<Rightarrow> uuid option" where
  "refers (RunRow r) = None"
| "refers (VerdictRow v) = Some (v_EvaluationRunID v)"
| "refers (FindRow f) = Some (f_EvaluationRunID f)"

lemma fk_ok_refers: "fk_ok row s \<longleftrightarrow> (case refers row of None \<Rightarrow> True | Some i \<Rightarrow> has_run i s)"
  by (cases row) simp_all

text \<open>
  A frame can be replayed from the log: it carries a complete row under its key, and the
  run the row belongs to is stored or has a signed frame in the log as well.
\<close>

definition recoverable ::
  "(uuid \<Rightarrow> string) \<Rightarrow> (string \<Rightarrow> uuid option) \<Rightarrow> Verifier \<Rightarrow> AuditFrame list \<Rightarrow> EngineStore \<Rightarrow> AuditFrame \<Rightarrow> bool" where
  "recoverable us fs verify frames s f \<longleftrightarrow>
     (\<exists>row. genuine us fs verify f row \<and> complete_row row
       \<and> (has_row row s \<or> fk_ok row s
          \<or> (\<exists>g \<in> set frames. is_run_frame g \<and> signature_ok us verify g \<and> refers row = Some (RowPK g))))"

lemma run_frame_row: "is_run_frame f \<Longrightarrow> genuine us fs verify f row \<Longrightarrow> \<exists>r. row = RunRow r \<and> EvaluationRunID r = RowPK f"
  by (auto simp: is_run_frame_def genuine_def frame_row_def)

context classified_verifier
begin

lemma Reconciler_Run_works:
  assumes db: "\<And>s t i. db s t i = ExecOk" and rd: "ReadAll fs io l = (frames, err)" "read_warning err"
    and rec: "\<forall>f \<in> set frames. signature_ok us verify f \<longrightarrow> recoverable us fs verify frames s f"
  shows "\<exists>st s'. Reconciler_Run us fs verify db io (\<lambda>_. Live) l s = (None, st, s')"
proof -
  have valid: "\<forall>f \<in> set frames. Validate f = None" using ReadAll_valid [OF rd(1)] by (simp add: list_all_iff)
  have "\<exists>st' s'. phase us fs verify db (\<lambda>_. Live) is_run_frame 1 frames (warn_stats err) s = (None, st', s')"
  proof (rule phase_works [OF db valid])
    show "\<forall>f \<in> set frames. is_run_frame f \<longrightarrow> signature_ok us verify f \<longrightarrow>
        (\<exists>row. genuine us fs verify f row \<and> complete_row row \<and> (has_row row s \<or> fk_ok row s))"
      using rec run_frame_row unfolding recoverable_def by (metis fk_ok.simps(1))
  qed
  then obtain st1 s1 where p1: "phase us fs verify db (\<lambda>_. Live) is_run_frame 1 frames (warn_stats err) s = (None, st1, s1)" by blast
  obtain rs where rs: "replays us fs verify (filter is_run_frame frames) rs (warn_stats err, s) None (st1, s1)"
    using phase_replays [OF p1] by blast
  have mono: "has_row row s \<Longrightarrow> has_row row s1" "fk_ok row s \<Longrightarrow> fk_ok row s1" for row
    using rs fold_add_mono by (auto simp: replays_def)
  have run1: "has_run (RowPK g) s1" if g: "g \<in> set frames" "is_run_frame g" "signature_ok us verify g" for g
  proof -
    obtain row where "genuine us fs verify g row" "has_row row s1" using rs g by (auto simp: replays_def)
    then show ?thesis using run_frame_row [OF g(2)] by fastforce
  qed
  have "\<exists>st' s'. phase us fs verify db (\<lambda>_. Live) (\<lambda>f. \<not> is_run_frame f) n frames st1 s1 = (None, st', s')" for n
  proof (rule phase_works [OF db valid], intro ballI impI)
    fix f
    assume f: "f \<in> set frames" "signature_ok us verify f"
    then obtain row where row: "genuine us fs verify f row" "complete_row row"
      "has_row row s \<or> fk_ok row s \<or> (\<exists>g \<in> set frames. is_run_frame g \<and> signature_ok us verify g \<and> refers row = Some (RowPK g))"
      using rec unfolding recoverable_def by blast
    then have "has_row row s1 \<or> fk_ok row s1" using mono run1 by (auto simp: fk_ok_refers [of _ s1])
    then show "\<exists>row. genuine us fs verify f row \<and> complete_row row \<and> (has_row row s1 \<or> fk_ok row s1)" using row by blast
  qed
  then show ?thesis using rd(2) p1 unfolding Reconciler_Run_phases [OF rd(1)] by simp
qed

end

section \<open>Signatures\<close>

lemma map_of_snapshot:
  assumes "r \<in> set recs" and "distinct (map KeyID recs)" and "length (PublicKey r) = Ed25519PublicKeySize"
  shows "map_of (buildHistoricalKeySnapshot recs) (KeyID r) = Some (PublicKey r)"
proof -
  have "map_of (fold (\<lambda>r snap. if length (PublicKey r) \<noteq> Ed25519PublicKeySize then snap else gomap_put (KeyID r) (PublicKey r) snap) recs snap)
      (KeyID r) = (if r \<in> set recs then Some (PublicKey r) else map_of snap (KeyID r))"
    if "distinct (map KeyID recs)" "r \<in> set recs \<or> KeyID r \<notin> KeyID ` set recs" for recs snap
    using that assms(3) by (induction recs arbitrary: snap) (auto simp: map_of_put)
  then show ?thesis using assms by (simp add: buildHistoricalKeySnapshot_def)
qed


lemma signed_frame_verifies:
  assumes "rows_ok (key_cache m)" and "set (key_cache m) \<subseteq> set rows" and "rows_ok rows"
    and "NewFrame us (keysManagerWALSigner ed kms m t) c gen now table pk row = Inr f"
  shows "signature_ok us (historicalKeysWALVerifier ed (buildHistoricalKeySnapshot rows)) f"
proof -
  obtain i k sig where f: "f = \<lparr>FrameID = i, fr_Table = table, fr_Op = OpInsert, RowPK = pk, RowJSON = row, WrittenAt = now,
        SigningKeyID = k, fr_Signature = sig\<rparr>" and v: "Validate f = None"
      and sg: "keysManagerWALSigner ed kms m t c (\<lambda>k. SigningPayload us \<lparr>FrameID = i, fr_Table = table, fr_Op = OpInsert,
        RowPK = pk, RowJSON = row, WrittenAt = now, SigningKeyID = k, fr_Signature = []\<rparr>) = Inr (k, sig)"
    using assms(4) by (auto simp: NewFrame_def Let_def bindE_Inr split: if_splits option.splits prod.splits)
  obtain r p where r: "signingKey (key_cache m) t = Some r" "k = KeyID r" "verifyAgainstPublic ed (PublicKey r) p sig = None"
      and p: "SigningPayload us \<lparr>FrameID = i, fr_Table = table, fr_Op = OpInsert, RowPK = pk, RowJSON = row, WrittenAt = now,
        SigningKeyID = k, fr_Signature = []\<rparr> = Inr p"
    using sg by (auto simp: keysManagerWALSigner_def SignActive_def sign_with_def bindE_Inr split: sum.splits ctx.splits option.splits if_splits)
  have "r \<in> set rows" using signingKey_Some(1) [OF assms(1) r(1)] assms(2) by blast
  then have "map_of (buildHistoricalKeySnapshot rows) k = Some (PublicKey r)"
    using map_of_snapshot [of r rows] assms(3) r(2,3) by (simp add: rows_ok_def verifyAgainstPublic_def split: if_splits)
  moreover have "SigningPayload us f = Inr p" using p by (simp add: f SigningPayload_def unsigned_fields_def split: option.splits)
  ultimately show ?thesis
    using v r(3) by (simp add: signature_ok_def historicalKeysWALVerifier_def f verifyAgainstPublic_def split: if_splits)
qed

section \<open>Properties\<close>

text \<open>
  C15. The reconciler only replays. However it ends and whatever the database does, it leaves
  every row as it was and appends, in order, rows whose keys were absent, each the content
  of a well-formed frame of the log whose signature the verifier accepted and whose key is
  the row's; when it reports no error, each frame is counted exactly once and the rows
  counted as replayed are the ones appended.
\<close>

theorem reconciler_replays_signed_rows:
  assumes "ReadAll fs io l = (frames, err)" and "Reconciler_Run us fs verify db io cs l s = (e, st, s')"
  shows "\<exists>rows. s' = fold add_row rows s \<and> fresh_rows rows s
    \<and> (\<forall>row \<in> set rows. \<exists>f \<in> set frames. genuine us fs verify f row)
    \<and> (e = None \<longrightarrow> Stats_Total st = int (length frames) \<and> PerTable_Total (Replayed st) = int (length rows))"
  using Reconciler_Run_replays [OF assms] by (auto simp: replays_def)

text \<open>
  A start-up restores the log: with the verifier of production, on a working database
  and a log that can be read (a torn or oversized tail is only a warning), if every signed
  frame carries a complete row whose run is stored or is in the log too, the reconciler
  ends without an error and the row of every signed frame is then in its table.
\<close>

theorem reconciler_restores_log:
  assumes "NewHistoricalKeysWALVerifier ed Live rows = Inr verify" and "\<And>s t i. db s t i = ExecOk"
    and "ReadAll fs io l = (frames, err)" and "read_warning err"
    and "\<forall>f \<in> set frames. signature_ok us verify f \<longrightarrow> recoverable us fs verify frames s f"
  shows "\<exists>st s'. Reconciler_Run us fs verify db io (\<lambda>_. Live) l s = (None, st, s')
    \<and> (\<forall>f \<in> set frames. signature_ok us verify f \<longrightarrow> (\<exists>row. genuine us fs verify f row \<and> has_row row s'))"
proof -
  obtain snap where v: "verify = historicalKeysWALVerifier ed snap"
    using assms(1) by (auto simp: NewHistoricalKeysWALVerifier_def bindE_Inr)
  obtain st s' where run: "Reconciler_Run us fs verify db io (\<lambda>_. Live) l s = (None, st, s')"
    using historical.Reconciler_Run_works [of db fs io l frames err us ed snap s] assms(2-) unfolding v by blast
  then show ?thesis using Reconciler_Run_replays [OF assms(3) run] by (fastforce simp: replays_def)
qed

text \<open>
  C22. Replaying is idempotent: after a run without errors another run over the same log
  appends nothing, whatever happens to it, and if it ends without an error it reports no
  row as replayed.
\<close>

theorem reconciler_idempotent:
  assumes "Reconciler_Run us fs verify db io cs l s = (None, st, s')"
    and "Reconciler_Run us fs verify db' io cs' l s' = (e, st2, s2)"
  shows "s2 = s' \<and> (e = None \<longrightarrow> PerTable_Total (Replayed st2) = 0)"
proof -
  obtain frames err where rd: "ReadAll fs io l = (frames, err)" by (metis surj_pair)
  note first = Reconciler_Run_replays [OF rd assms(1)]
  obtain rows st0 where r: "replays us fs verify frames rows (st0, s') e (st2, s2)" "PerTable_Total (Replayed st0) = 0"
    using Reconciler_Run_replays [OF rd assms(2)] by blast
  have "has_row row s'" if g: "genuine us fs verify f row" "f \<in> set frames" for f row
    using first g by (fastforce simp: replays_def genuine_def)
  then have "rows = []" using r(1) fresh_rows_absent [of rows s'] by (cases rows) (fastforce simp: replays_def)+
  then show ?thesis using r by (simp add: replays_def)
qed

text \<open>
  C21. The signature of a frame outlives every rotation: a frame that the writer made with
  the signing-key manager is accepted by the verifier that a later start-up builds from the
  key table, however long after and whatever rotations came between.
\<close>

theorem frame_signature_lasts:
  assumes "manager_ok (m, rows)" and "NewFrame us (keysManagerWALSigner ed kms m t) c gen now table pk row = Inr f"
    and "later fp t (m, rows) (m', rows')" and "NewHistoricalKeysWALVerifier ed Live rows' = Inr verify"
  shows "signature_ok us verify f"
proof -
  have "manager_ok (m', rows')" "set rows \<subseteq> set rows'"
    using later_grown [OF assms(3,1)] by (simp_all add: grown_def)
  then show ?thesis
    using signed_frame_verifies [OF _ _ _ assms(2), of rows'] assms(1,4)
    by (auto simp: manager_ok_def NewHistoricalKeysWALVerifier_def keys_List_def)
qed

section \<open>A concrete log\<close>

definition ex_wal_run :: EvaluationRun where
  "ex_wal_run =
     \<lparr>EvaluationRunID = 21, r_RepoID = 2, r_SHA = ''c0ffee'', r_PolicyVersionID = 3, r_Caller = CallerEvalGate, r_ScopeID = None,
      r_CreatedAt = 1700000000 * 10 ^ 9\<rparr>"

definition ex_wal_signer :: FrameSigner where
  "ex_wal_signer = keysManagerWALSigner ex_ed (ex_kms CHR ''a'') (fst (snd ex_keys1)) 111"

definition ex_wal_row :: string where
  "ex_wal_row = projr (walEvaluationRunRowJSON hex_us ex_wal_run)"

definition ex_wal_frame :: AuditFrame where
  "ex_wal_frame = projr (NewFrame hex_us ex_wal_signer Live (Some 9) (1700000000 * 10 ^ 9) TableEvaluationRun 21 ex_wal_row)"

definition ex_wal_batch :: TxBatch where
  "ex_wal_batch = \<lparr>b_frames = [ex_wal_frame], finalised = False\<rparr>"

definition ex_wal_dir :: wal_dir where
  "ex_wal_dir = snd (snd (Batch_Commit hex_us (\<lambda>_. AppendOk) Live ex_wal_batch []))"

definition ex_wal_verify :: Verifier where
  "ex_wal_verify = projr (NewHistoricalKeysWALVerifier ex_ed Live (snd (snd ex_keys2)))"

lemma ex_wal_row_ok: "walEvaluationRunRowJSON hex_us ex_wal_run = Inr ex_wal_row"
  by (simp add: ex_wal_row_def walEvaluationRunRowJSON_def ex_wal_run_def Caller_IsValid_def)

lemma ex_wal_signs: "build 5 = Inr p \<Longrightarrow> p \<noteq> [] \<Longrightarrow> ex_wal_signer Live build = Inr (5, replicate 64 CHR ''a'')"
proof -
  have key: "signingKey (key_cache (fst (snd ex_keys1))) 111 =
      Some \<lparr>KeyID = 5, Fingerprint = replicate 64 CHR ''a'', PublicKey = replicate 32 CHR ''a'', Handle = ''a'', ValidFrom = 100,
        Algorithm = ''ed25519''\<rparr>"
    by code_simp
  show "build 5 = Inr p \<Longrightarrow> p \<noteq> [] \<Longrightarrow> ex_wal_signer Live build = Inr (5, replicate 64 CHR ''a'')"
    by (simp add: ex_wal_signer_def keysManagerWALSigner_def SignActive_def key sign_with_def ex_kms_def verifyAgainstPublic_def
        Ed25519SignatureSize_def Ed25519PublicKeySize_def ex_ed_def)
qed

text \<open>The writer of the example frames a row of moderate size.\<close>

lemma ex_wal_frames:
  assumes "Table_IsValid table" and "pk \<noteq> uuid_Nil" and "json_Valid row \<and> row \<noteq> []" and "i \<noteq> uuid_Nil" and "length row < 1000"
  shows "\<exists>f. NewFrame hex_us ex_wal_signer Live (Some i) (1700000000 * 10 ^ 9) table pk row = Inr f"
proof (rule NewFrame_works [OF hex_uuid_text length_hex_us assms(1,2) _ _ assms(4), where k = 5 and sig = "replicate 64 CHR ''a''"])
  have y: "year_of (1700000000 * 10 ^ 9) = 2023" "length (RFC3339Nano (1700000000 * 10 ^ 9)) = 20" by code_simp+
  show "0 \<le> year_of (1700000000 * 10 ^ 9)" "year_of (1700000000 * 10 ^ 9) \<le> 9999" by (simp_all only: y)
  show "400 + 2 * length row + 2 * length (replicate 64 CHR ''a'') + length (RFC3339Nano (1700000000 * 10 ^ 9)) < 1048576"
    unfolding y using assms(5) by simp
  show "build 5 = Inr p \<Longrightarrow> p \<noteq> [] \<Longrightarrow> ex_wal_signer Live build = Inr (5, replicate 64 CHR ''a'')" for build p by (rule ex_wal_signs)
qed (use assms(3) in \<open>simp_all add: time_Zero_def\<close>)

lemma ex_wal_frame_ok:
  "NewFrame hex_us ex_wal_signer Live (Some 9) (1700000000 * 10 ^ 9) TableEvaluationRun 21 ex_wal_row = Inr ex_wal_frame"
proof -
  have "length ex_wal_row < 1000" by code_simp
  then have "\<exists>f. NewFrame hex_us ex_wal_signer Live (Some 9) (1700000000 * 10 ^ 9) TableEvaluationRun 21 ex_wal_row = Inr f"
    using row_json_valid(1) [OF ex_wal_row_ok] by (intro ex_wal_frames) (simp_all add: Table_IsValid_def)
  then show ?thesis unfolding ex_wal_frame_def by auto
qed

lemma ex_wal_commit: "\<exists>b'. Batch_Commit hex_us (\<lambda>_. AppendOk) Live ex_wal_batch [] = (None, b', ex_wal_dir)"
proof -
  obtain s where "marshal_frame hex_us ex_wal_frame = Some s" "int (length s) + 1 \<le> MaxFrameSize"
    using NewFrame_Inr(6) [OF ex_wal_frame_ok] by blast
  then have "fst (Batch_Commit hex_us (\<lambda>_. AppendOk) Live ex_wal_batch []) = None"
    by (simp add: ex_wal_batch_def Batch_Commit_def wal_flush_def group_frames_def bindE_def appendAndSync_def)
  then show ?thesis unfolding ex_wal_dir_def by (metis prod.collapse)
qed

lemma ex_wal_history: "wal_history hex_us ex_wal_dir [ex_wal_frame]"
proof -
  have "staged hex_us ex_wal_batch"
    using staged.frame [OF staged.new, of hex_us ex_wal_frame] NewFrame_Inr(1) [OF ex_wal_frame_ok]
    by (simp add: Stage_def NewTxBatch_def ex_wal_batch_def)
  then show ?thesis
    using ex_wal_commit wal_history.commit [OF wal_history.empty] by (metis append_Nil ex_wal_batch_def TxBatch.select_convs(1))
qed

lemma ex_wal_read: "ReadAll hex_fs (\<lambda>_. ReadOk) (DirFiles ex_wal_dir) = ([ex_wal_frame], None)"
  using wal_history_read [OF hex_uuid_text ex_wal_history surjective_pairing] by (metis mset_single_iff_right mset.simps prod.collapse add_mset_add_single)

lemma ex_wal_keys: "manager_ok (fst (snd ex_keys1), snd (snd ex_keys1))" "rows_ok (snd (snd ex_keys2))"
  "set (snd (snd ex_keys1)) \<subseteq> set (snd (snd ex_keys2))"
  "NewHistoricalKeysWALVerifier ex_ed Live (snd (snd ex_keys2)) = Inr ex_wal_verify"
  using ex_later_window later_grown [of ex_fp 111 "(fst (snd ex_keys1), snd (snd ex_keys1))"]
  by (auto simp: grown_def manager_ok_def ex_wal_verify_def NewHistoricalKeysWALVerifier_def keys_List_def)

lemma ex_wal_signed: "signature_ok hex_us ex_wal_verify ex_wal_frame"
  using signed_frame_verifies [OF _ _ ex_wal_keys(2) ex_wal_frame_ok [unfolded ex_wal_signer_def]] ex_wal_keys
  by (auto simp: manager_ok_def ex_wal_verify_def NewHistoricalKeysWALVerifier_def keys_List_def)

lemma ex_wal_genuine: "genuine hex_us hex_fs ex_wal_verify ex_wal_frame (RunRow ex_wal_run)"
proof -
  have "run_text_ok ex_wal_run" by code_simp
  then have "decode_run hex_fs ex_wal_row = Some ex_wal_run" by (rule decode_run_row [OF hex_uuid_text ex_wal_row_ok])
  then show ?thesis
    using ex_wal_signed NewFrame_Inr(2-4) [OF ex_wal_frame_ok] by (simp add: genuine_def frame_row_def ex_wal_run_def)
qed


lemma ex_wal_recoverable: "recoverable hex_us hex_fs ex_wal_verify [ex_wal_frame] NewEngineStore ex_wal_frame"
  using ex_wal_genuine by (auto simp: recoverable_def ex_wal_run_def intro!: exI [of _ "RunRow ex_wal_run"])

lemma ex_wal_replayed:
  "\<exists>st s'. Reconciler_Run hex_us hex_fs ex_wal_verify (\<lambda>_ _ _. ExecOk) (\<lambda>_. ReadOk) (\<lambda>_. Live) (DirFiles ex_wal_dir) NewEngineStore
     = (None, st, s')"
proof -
  obtain snap where v: "ex_wal_verify = historicalKeysWALVerifier ex_ed snap"
    by (auto simp: ex_wal_verify_def NewHistoricalKeysWALVerifier_def keys_List_def)
  show ?thesis
    using historical.Reconciler_Run_works [of "\<lambda>_ _ _. ExecOk", OF refl ex_wal_read, of hex_us ex_ed snap NewEngineStore] ex_wal_recoverable
    by (simp add: v read_warning_def)
qed

theorem reconciler_replays_signed_rows_witness:
  "\<exists>e st s' rows.
     Reconciler_Run hex_us hex_fs ex_wal_verify (\<lambda>_ _ _. ExecOk) (\<lambda>_. ReadOk) (\<lambda>_. Live) (DirFiles ex_wal_dir) NewEngineStore = (e, st, s')
     \<and> s' = fold add_row rows NewEngineStore \<and> fresh_rows rows NewEngineStore
     \<and> (\<forall>row \<in> set rows. \<exists>f \<in> {ex_wal_frame}. genuine hex_us hex_fs ex_wal_verify f row)"
proof -
  obtain st s' where run: "Reconciler_Run hex_us hex_fs ex_wal_verify (\<lambda>_ _ _. ExecOk) (\<lambda>_. ReadOk) (\<lambda>_. Live) (DirFiles ex_wal_dir)
      NewEngineStore = (None, st, s')"
    using ex_wal_replayed by blast
  show ?thesis using reconciler_replays_signed_rows [OF ex_wal_read run] run by auto
qed

theorem reconciler_restores_log_witness:
  "\<exists>st s'. Reconciler_Run hex_us hex_fs ex_wal_verify (\<lambda>_ _ _. ExecOk) (\<lambda>_. ReadOk) (\<lambda>_. Live) (DirFiles ex_wal_dir) NewEngineStore
     = (None, st, s') \<and> has_run 21 s'"
proof -
  have "\<exists>st s'. Reconciler_Run hex_us hex_fs ex_wal_verify (\<lambda>_ _ _. ExecOk) (\<lambda>_. ReadOk) (\<lambda>_. Live) (DirFiles ex_wal_dir) NewEngineStore
      = (None, st, s') \<and> (\<forall>f \<in> set [ex_wal_frame]. signature_ok hex_us ex_wal_verify f \<longrightarrow>
          (\<exists>row. genuine hex_us hex_fs ex_wal_verify f row \<and> has_row row s'))"
    by (rule reconciler_restores_log [OF ex_wal_keys(4) refl ex_wal_read]) (simp_all add: read_warning_def ex_wal_recoverable)
  moreover have "row = RunRow ex_wal_run" if "genuine hex_us hex_fs ex_wal_verify ex_wal_frame row" for row
    using that ex_wal_genuine by (simp add: genuine_def)
  ultimately show ?thesis using ex_wal_signed by (fastforce simp: ex_wal_run_def)
qed

theorem reconciler_idempotent_witness:
  "\<exists>s'. snd (snd (Reconciler_Run hex_us hex_fs ex_wal_verify (\<lambda>_ _ _. ExecOk) (\<lambda>_. ReadOk) (\<lambda>_. Live) (DirFiles ex_wal_dir)
       NewEngineStore)) = s'
     \<and> snd (snd (Reconciler_Run hex_us hex_fs ex_wal_verify (\<lambda>_ _ _. ExecRefused) (\<lambda>_. ReadOk) (\<lambda>_. Live) (DirFiles ex_wal_dir) s')) = s'"
proof -
  obtain st s' where run: "Reconciler_Run hex_us hex_fs ex_wal_verify (\<lambda>_ _ _. ExecOk) (\<lambda>_. ReadOk) (\<lambda>_. Live) (DirFiles ex_wal_dir)
      NewEngineStore = (None, st, s')"
    using ex_wal_replayed by blast
  obtain e st2 s2 where again: "Reconciler_Run hex_us hex_fs ex_wal_verify (\<lambda>_ _ _. ExecRefused) (\<lambda>_. ReadOk) (\<lambda>_. Live)
      (DirFiles ex_wal_dir) s' = (e, st2, s2)"
    by (metis prod_cases3)
  show ?thesis using reconciler_idempotent [OF run again] run again by auto
qed

theorem frame_signature_lasts_witness: "signature_ok hex_us ex_wal_verify ex_wal_frame"
proof (rule frame_signature_lasts [OF ex_wal_keys(1) ex_wal_frame_ok [unfolded ex_wal_signer_def] _ ex_wal_keys(4)])
  show "later ex_fp 111 (fst (snd ex_keys1), snd (snd ex_keys1)) (fst (snd ex_keys2), snd (snd ex_keys2))"
    using ex_later_window by blast
qed

end
