(* ===== verification/Audit_Recovery.thy ===== *)
theory Audit_Recovery
  imports Audit_Reconciler
begin

text \<open>
  The audit transactions of production, each mirrored in the write-ahead log:
  \<^verbatim>\<open>SQLStore.WithEvaluationLock\<close>, \<^verbatim>\<open>SQLStore.AppendEvaluation\<close> and \<^verbatim>\<open>appendEvaluationInTx\<close> of
  \<^verbatim>\<open>rule_engine/sql_store.go\<close>, \<^verbatim>\<open>txStore.AppendEvaluation\<close> of \<^verbatim>\<open>rule_engine/tx_store.go\<close>, and
  \<^verbatim>\<open>SQLDegradedRunStore.AppendDegradedRun\<close> of \<^verbatim>\<open>evaluator/sql_degraded_store.go\<close>. Then what a
  start-up of the reconciler recovers after a history of such transactions and crashes. Of
  the database the model keeps the three audit tables with their primary and foreign keys;
  other refusals of a statement and the outcome of a commit are given by the environment.
\<close>

section \<open>Transactions\<close>

datatype tx_error =
    TxZeroUUID | TxMismatch | TxEmptySHA | TxSQL | TxRow row_error | TxWal wal_error | TxGuard port_error

text \<open>
  One transaction's environment: whether it begins and whether statement \<open>n\<close> goes through;
  the context, signer, generator and clock that the \<open>n\<close>-th staged frame sees; the context of
  the flush and how its appends end; how the commit ends.
\<close>

record tx_env =
  te_begin :: bool
  te_exec :: "nat \<Rightarrow> bool"
  te_ctx :: "nat \<Rightarrow> ctx"
  te_signer :: "nat \<Rightarrow> FrameSigner"
  te_gen :: "nat \<Rightarrow> uuid option"
  te_clock :: "nat \<Rightarrow> time"
  te_flush :: ctx
  te_io :: "nat \<Rightarrow> append_outcome"
  te_commit :: tx_outcome

text \<open>An \<^verbatim>\<open>INSERT\<close> and the frame staged beside it.\<close>

definition insert_staged ::
  "(uuid \<Rightarrow> string) \<Rightarrow> tx_env \<Rightarrow> nat \<Rightarrow> audit_row \<Rightarrow> row_error + string \<Rightarrow> EngineStore \<times> TxBatch
   \<Rightarrow> tx_error + EngineStore \<times> TxBatch" where
  "insert_staged us te n row json sb =
     (if \<not> te_exec te n \<or> has_row row (fst sb) \<or> \<not> fk_ok row (fst sb) then Inl TxSQL
      else
        (case json of
           Inl e \<Rightarrow> Inl (TxRow e)
         | Inr j \<Rightarrow>
             (case StageNew us (te_signer te n) (te_ctx te n) (te_gen te n) (te_clock te n) (row_table row) (row_pk row) j (snd sb) of
                (Inl e, b') \<Rightarrow> Inl (TxWal e)
              | (Inr _, b') \<Rightarrow> Inr (add_row row (fst sb), b'))))"

fun append_findings ::
  "(uuid \<Rightarrow> string) \<Rightarrow> tx_env \<Rightarrow> uuid \<Rightarrow> nat \<Rightarrow> Finding list \<Rightarrow> EngineStore \<times> TxBatch \<Rightarrow> tx_error + EngineStore \<times> TxBatch" where
  "append_findings us te runID n [] sb = Inr sb"
| "append_findings us te runID n (f # fs) sb =
     (if FindingID f = uuid_Nil then Inl TxZeroUUID
      else if f_EvaluationRunID f \<noteq> runID then Inl TxMismatch
      else bindE (insert_staged us te n (FindRow f) (walFindingRowJSON us f) sb) (append_findings us te runID (Suc n) fs))"

definition appendEvaluationInTx ::
  "(uuid \<Rightarrow> string) \<Rightarrow> tx_env \<Rightarrow> EvaluationRun \<Rightarrow> EvaluationVerdict \<Rightarrow> Finding list \<Rightarrow> EngineStore \<times> TxBatch
   \<Rightarrow> tx_error + EngineStore \<times> TxBatch" where
  "appendEvaluationInTx us te run verdict fs sb =
     (if EvaluationRunID run = uuid_Nil then Inl TxZeroUUID
      else if VerdictID verdict = uuid_Nil then Inl TxZeroUUID
      else if v_EvaluationRunID verdict = uuid_Nil then Inl TxZeroUUID
      else if v_EvaluationRunID verdict \<noteq> EvaluationRunID run then Inl TxMismatch
      else
        bindE (insert_staged us te 0 (RunRow run) (walEvaluationRunRowJSON us run) sb) (\<lambda>sb1.
        bindE (insert_staged us te 1 (VerdictRow verdict) (walEvaluationVerdictRowJSON us verdict) sb1) (\<lambda>sb2.
          append_findings us te (EvaluationRunID run) 2 fs sb2)))"

text \<open>The flush of the log, then the commit; every earlier return rolls back and cancels the batch.\<close>

definition flush_then_commit ::
  "(uuid \<Rightarrow> string) \<Rightarrow> tx_env \<Rightarrow> EngineStore \<Rightarrow> EngineStore \<times> TxBatch \<Rightarrow> wal_dir \<Rightarrow> tx_error option \<times> EngineStore \<times> wal_dir" where
  "flush_then_commit us te s sb dir =
     (case Batch_Commit us (te_io te) (te_flush te) (snd sb) dir of
        (Some e, _, dir') \<Rightarrow> (Some (TxWal e), s, dir')
      | (None, _, dir') \<Rightarrow>
          (case te_commit te of
             TxOk \<Rightarrow> (None, fst sb, dir')
           | TxFailed \<Rightarrow> (Some TxSQL, s, dir')
           | TxLost \<Rightarrow> (Some TxSQL, fst sb, dir')))"

definition in_transaction ::
  "(uuid \<Rightarrow> string) \<Rightarrow> tx_env \<Rightarrow> (EngineStore \<times> TxBatch \<Rightarrow> tx_error + EngineStore \<times> TxBatch) \<Rightarrow> EngineStore \<Rightarrow> wal_dir
   \<Rightarrow> tx_error option \<times> EngineStore \<times> wal_dir" where
  "in_transaction us te body s dir =
     (if \<not> te_begin te then (Some TxSQL, s, dir)
      else
        (case body (s, NewTxBatch) of
           Inl e \<Rightarrow> (Some e, s, dir)
         | Inr sb \<Rightarrow> flush_then_commit us te s sb dir))"

definition SQL_AppendEvaluation ::
  "(uuid \<Rightarrow> string) \<Rightarrow> tx_env \<Rightarrow> EvaluationRun \<Rightarrow> EvaluationVerdict \<Rightarrow> Finding list \<Rightarrow> EngineStore \<Rightarrow> wal_dir
   \<Rightarrow> tx_error option \<times> EngineStore \<times> wal_dir" where
  "SQL_AppendEvaluation us te run verdict fs = in_transaction us te (appendEvaluationInTx us te run verdict fs)"

text \<open>
  The engine's path: the callback runs between the advisory lock, here one more statement,
  and the flush. The lock's key is the 64-bit FNV-1a hash of the repository and the commit.
\<close>

definition fnv_step :: "64 word \<Rightarrow> char \<Rightarrow> 64 word" where
  "fnv_step h c = xor h (of_char c) * 0x100000001B3"

definition evaluationLockKey :: "(uuid \<Rightarrow> string) \<Rightarrow> uuid \<Rightarrow> sha \<Rightarrow> int" where
  "evaluationLockKey bytes repo h = sint (foldl fnv_step 0xCBF29CE484222325 (bytes repo @ '':'' @ h))"

definition WithEvaluationLock ::
  "(uuid \<Rightarrow> string) \<Rightarrow> tx_env \<Rightarrow> (int \<Rightarrow> bool) \<Rightarrow> (uuid \<Rightarrow> string) \<Rightarrow> uuid \<Rightarrow> sha
   \<Rightarrow> (EngineStore \<times> TxBatch \<Rightarrow> tx_error + EngineStore \<times> TxBatch) \<Rightarrow> EngineStore \<Rightarrow> wal_dir
   \<Rightarrow> tx_error option \<times> EngineStore \<times> wal_dir" where
  "WithEvaluationLock us te locks bytes repo h body s dir =
     (if repo = uuid_Nil then (Some TxZeroUUID, s, dir)
      else if h = [] then (Some TxEmptySHA, s, dir)
      else in_transaction us te (\<lambda>sb. if \<not> locks (evaluationLockKey bytes repo h) then Inl TxSQL else body sb) s dir)"

text \<open>The gate's degraded rows, with the checks of the store before the transaction.\<close>

definition degraded_guard :: "DegradedRun \<Rightarrow> DegradedVerdict \<Rightarrow> port_error option" where
  "degraded_guard run v =
     (if dr_EvaluationRunID run = uuid_Nil then Some PortZeroUUID
      else if dr_RepoID run = uuid_Nil then Some PortZeroUUID
      else if dr_SHA run = [] then Some PortEmptySHA
      else if dr_PolicyVersionID run = uuid_Nil then Some PortZeroUUID
      else if dv_VerdictID v = uuid_Nil then Some PortZeroUUID
      else if dv_EvaluationRunID v \<noteq> dr_EvaluationRunID run then Some PortMismatch
      else if dv_Verdict v = [] then Some PortVerdict
      else if \<not> gate_Verdict_IsValid (dv_Verdict v) then Some PortVerdict
      else if dv_Degraded v \<and> dv_Verdict v \<noteq> VerdictWarn then Some PortVerdict
      else if dv_DegradedReason v = [] then Some PortReason
      else if \<not> IsValidForGate (dv_DegradedReason v) then Some PortReason
      else None)"

definition SQL_AppendDegradedRun ::
  "(uuid \<Rightarrow> string) \<Rightarrow> tx_env \<Rightarrow> DegradedRun \<Rightarrow> DegradedVerdict \<Rightarrow> EngineStore \<Rightarrow> wal_dir \<Rightarrow> tx_error option \<times> EngineStore \<times> wal_dir" where
  "SQL_AppendDegradedRun us te run v s dir =
     (case degraded_guard run v of
        Some e \<Rightarrow> (Some (TxGuard e), s, dir)
      | None \<Rightarrow>
          in_transaction us te
            (\<lambda>sb.
              bindE (insert_staged us te 0 (RunRow (degraded_run run)) (walDegradedRunRowJSON us run) sb) (\<lambda>sb1.
                insert_staged us te 1 (VerdictRow (degraded_verdict v)) (walDegradedVerdictRowJSON us v) sb1))
            s dir)"


section \<open>Rows and their frames\<close>

fun row_json :: "(uuid \<Rightarrow> string) \<Rightarrow> audit_row \<Rightarrow> row_error + string" where
  "row_json us (RunRow r) = walEvaluationRunRowJSON us r"
| "row_json us (VerdictRow v) = walEvaluationVerdictRowJSON us v"
| "row_json us (FindRow f) = walFindingRowJSON us f"

text \<open>A row that JSON carries unchanged; severity and delta are enumerations of the database.\<close>

fun sound_row :: "audit_row \<Rightarrow> bool" where
  "sound_row (RunRow r) \<longleftrightarrow> run_text_ok r"
| "sound_row (VerdictRow v) \<longleftrightarrow> verdict_text_ok v"
| "sound_row (FindRow f) \<longleftrightarrow> finding_text_ok f \<and> f_Severity f \<noteq> [] \<and> f_Delta f \<noteq> []"

definition carries :: "(uuid \<Rightarrow> string) \<Rightarrow> tx_env \<Rightarrow> audit_row \<Rightarrow> AuditFrame \<Rightarrow> bool" where
  "carries us te row f \<longleftrightarrow>
     (\<exists>n j. row_json us row = Inr j
       \<and> NewFrame us (te_signer te n) (te_ctx te n) (te_gen te n) (te_clock te n) (row_table row) (row_pk row) j = Inr f)"

text \<open>The tables gain these rows, whose keys were absent, and the batch gains their frames.\<close>

definition mirrored ::
  "(uuid \<Rightarrow> string) \<Rightarrow> tx_env \<Rightarrow> audit_row list \<Rightarrow> AuditFrame list \<Rightarrow> EngineStore \<times> TxBatch \<Rightarrow> EngineStore \<times> TxBatch \<Rightarrow> bool" where
  "mirrored us te rows frames a b \<longleftrightarrow>
     fst b = fold add_row rows (fst a) \<and> fresh_rows rows (fst a) \<and> b_frames (snd b) = b_frames (snd a) @ frames
     \<and> finalised (snd b) = finalised (snd a) \<and> list_all2 (carries us te) rows frames
     \<and> (staged us (snd a) \<longrightarrow> staged us (snd b))"

lemma mirrored_none: "mirrored us te [] [] a a"
  by (simp add: mirrored_def)

lemma mirrored_seq:
  "mirrored us te rs fs a b \<Longrightarrow> mirrored us te ts gs b c \<Longrightarrow> mirrored us te (rs @ ts) (fs @ gs) a c"
  by (auto simp: mirrored_def fresh_rows_append intro: list_all2_appendI)

lemma insert_staged_mirrored:
  assumes "insert_staged us te n row (row_json us row) a = Inr b"
  shows "\<exists>f. mirrored us te [row] [f] a b"
proof -
  obtain j f b' where j: "row_json us row = Inr j" "\<not> has_row row (fst a)" "b = (add_row row (fst a), b')"
    and st: "StageNew us (te_signer te n) (te_ctx te n) (te_gen te n) (te_clock te n) (row_table row) (row_pk row) j (snd a) = (Inr f, b')"
    using assms by (auto simp: insert_staged_def split: if_splits sum.splits prod.splits)
  have "carries us te row f" using StageNew_Inr(1) [OF st] j(1) by (auto simp: carries_def)
  moreover have "staged us (snd a) \<longrightarrow> staged us b'" using staged.minted [of us "snd a"] st by (metis snd_conv)
  ultimately show ?thesis using j StageNew_Inr(2) [OF st] by (auto simp: mirrored_def)
qed

lemma append_findings_mirrored:
  "append_findings us te i n fs a = Inr b \<Longrightarrow> \<exists>frames. mirrored us te (map FindRow fs) frames a b"
proof (induction fs arbitrary: n a)
  case Nil
  then show ?case by (intro exI [of _ "[]"]) (simp add: mirrored_none)
next
  case (Cons f fs)
  then obtain c where c: "insert_staged us te n (FindRow f) (row_json us (FindRow f)) a = Inr c" "append_findings us te i (Suc n) fs c = Inr b"
    by (auto simp: bindE_Inr split: if_splits)
  obtain g frames where "mirrored us te [FindRow f] [g] a c" "mirrored us te (map FindRow fs) frames c b"
    using insert_staged_mirrored [OF c(1)] Cons.IH [OF c(2)] by blast
  then have "mirrored us te ([FindRow f] @ map FindRow fs) ([g] @ frames) a b" by (rule mirrored_seq)
  then show ?case by auto
qed

abbreviation evaluation_rows :: "EvaluationRun \<Rightarrow> EvaluationVerdict \<Rightarrow> Finding list \<Rightarrow> audit_row list" where
  "evaluation_rows run v fs \<equiv> RunRow run # VerdictRow v # map FindRow fs"

text \<open>The rows of one transaction: a run and rows that belong to it.\<close>

fun one_run :: "audit_row list \<Rightarrow> bool" where
  "one_run (RunRow r # rows) \<longleftrightarrow> list_all (\<lambda>row. refers row = Some (EvaluationRunID r)) rows"
| "one_run _ \<longleftrightarrow> False"

lemma appendEvaluationInTx_mirrored:
  assumes "appendEvaluationInTx us te run v fs a = Inr b"
  shows "\<exists>frames. mirrored us te (evaluation_rows run v fs) frames a b" and "one_run (evaluation_rows run v fs)"
proof -
  obtain c d where c: "insert_staged us te 0 (RunRow run) (row_json us (RunRow run)) a = Inr c"
    and d: "insert_staged us te 1 (VerdictRow v) (row_json us (VerdictRow v)) c = Inr d"
    and b: "append_findings us te (EvaluationRunID run) 2 fs d = Inr b" and v: "v_EvaluationRunID v = EvaluationRunID run"
    using assms by (auto simp: appendEvaluationInTx_def bindE_Inr split: if_splits)
  obtain f g frames where "mirrored us te [RunRow run] [f] a c" "mirrored us te [VerdictRow v] [g] c d"
    "mirrored us te (map FindRow fs) frames d b"
    using insert_staged_mirrored [OF c] insert_staged_mirrored [OF d] append_findings_mirrored [OF b] by blast
  then have "mirrored us te ([RunRow run] @ [VerdictRow v] @ map FindRow fs) ([f] @ [g] @ frames) a b" by (meson mirrored_seq)
  then show "\<exists>frames. mirrored us te (evaluation_rows run v fs) frames a b" by auto
  have "append_findings us te i n fs d = Inr b \<Longrightarrow> list_all (\<lambda>row. refers row = Some i) (map FindRow fs)" for i n d
    by (induction fs arbitrary: n d) (auto simp: bindE_Inr split: if_splits)
  then show "one_run (evaluation_rows run v fs)" using b v by simp
qed


lemma degraded_mirrored:
  assumes "degraded_guard run v = None"
    and "bindE (insert_staged us te 0 (RunRow (degraded_run run)) (walDegradedRunRowJSON us run) a) (\<lambda>c.
      insert_staged us te 1 (VerdictRow (degraded_verdict v)) (walDegradedVerdictRowJSON us v) c) = Inr b"
  shows "\<exists>frames. mirrored us te [RunRow (degraded_run run), VerdictRow (degraded_verdict v)] frames a b"
    and "one_run [RunRow (degraded_run run), VerdictRow (degraded_verdict v)]"
proof -
  have g: "dv_DegradedReason v \<noteq> []" "dv_EvaluationRunID v = dr_EvaluationRunID run"
    using assms(1) by (auto simp: degraded_guard_def split: if_splits)
  obtain c where c: "insert_staged us te 0 (RunRow (degraded_run run)) (row_json us (RunRow (degraded_run run))) a = Inr c"
    "insert_staged us te 1 (VerdictRow (degraded_verdict v)) (row_json us (VerdictRow (degraded_verdict v))) c = Inr b"
    using assms(2) by (auto simp: bindE_Inr walDegradedRunRowJSON_eq walDegradedVerdictRowJSON_eq [OF g(1)])
  show "\<exists>frames. mirrored us te [RunRow (degraded_run run), VerdictRow (degraded_verdict v)] frames a b"
    using insert_staged_mirrored [OF c(1)] insert_staged_mirrored [OF c(2)] mirrored_seq by fastforce
  show "one_run [RunRow (degraded_run run), VerdictRow (degraded_verdict v)]"
    using g(2) by (simp add: degraded_run_def degraded_verdict_def)
qed

text \<open>How a transaction whose body mirrors its rows ends.\<close>

definition transacts ::
  "(uuid \<Rightarrow> string) \<Rightarrow> tx_env \<Rightarrow> audit_row list \<Rightarrow> EngineStore \<Rightarrow> wal_dir \<Rightarrow> tx_error option \<Rightarrow> EngineStore \<Rightarrow> wal_dir \<Rightarrow> bool" where
  "transacts us te rows s dir e s' dir' \<longleftrightarrow>
     e \<noteq> None \<and> s' = s \<and> dir' = dir
     \<or> (\<exists>b b' we. staged us b \<and> \<not> finalised b \<and> list_all2 (carries us te) rows (b_frames b) \<and> one_run rows \<and> fresh_rows rows s
          \<and> Batch_Commit us (te_io te) (te_flush te) b dir = (we, b', dir')
          \<and> ((\<exists>x. we = Some x \<and> e = Some (TxWal x)) \<and> s' = s
            \<or> we = None \<and> (s' = fold add_row rows s \<or> e \<noteq> None \<and> s' = s)))"

lemma in_transaction_transacts:
  assumes "in_transaction us te body s dir = (e, s', dir')"
    and "\<And>sb. body (s, NewTxBatch) = Inr sb \<Longrightarrow> (\<exists>frames. mirrored us te rows frames (s, NewTxBatch) sb) \<and> one_run rows"
  shows "transacts us te rows s dir e s' dir'"
proof (cases "\<exists>sb. te_begin te \<and> body (s, NewTxBatch) = Inr sb")
  case False
  then have "e \<noteq> None \<and> s' = s \<and> dir' = dir"
    using assms(1) by (auto simp: in_transaction_def split: if_splits sum.splits)
  then show ?thesis by (simp add: transacts_def)
next
  case True
  then obtain sb frames where sb: "body (s, NewTxBatch) = Inr sb" "te_begin te"
    and m: "mirrored us te rows frames (s, NewTxBatch) sb" and o: "one_run rows" using assms(2) by blast
  obtain we b' d where c: "Batch_Commit us (te_io te) (te_flush te) (snd sb) dir = (we, b', d)" by (metis prod_cases3)
  have fc: "flush_then_commit us te s sb dir = (e, s', dir')" using assms(1) sb by (simp add: in_transaction_def)
  have "d = dir'" "(\<exists>x. we = Some x \<and> e = Some (TxWal x)) \<and> s' = s \<or> we = None \<and> (s' = fst sb \<or> e \<noteq> None \<and> s' = s)"
    using fc c by (auto simp: flush_then_commit_def split: option.splits tx_outcome.splits)
  moreover have "staged us (snd sb)" "\<not> finalised (snd sb)" "list_all2 (carries us te) rows (b_frames (snd sb))" "fresh_rows rows s"
    "fst sb = fold add_row rows s"
    using m by (auto simp: mirrored_def NewTxBatch_def intro: staged.new [unfolded NewTxBatch_def])
  ultimately show ?thesis using c o unfolding transacts_def by blast
qed

lemma SQL_AppendEvaluation_transacts:
  "SQL_AppendEvaluation us te run v fs s dir = (e, s', dir') \<Longrightarrow> transacts us te (evaluation_rows run v fs) s dir e s' dir'"
  unfolding SQL_AppendEvaluation_def
  by (erule in_transaction_transacts) (use appendEvaluationInTx_mirrored in blast)

lemma WithEvaluationLock_transacts:
  assumes "WithEvaluationLock us te locks bytes repo h (appendEvaluationInTx us te run v fs) s dir = (e, s', dir')"
  shows "transacts us te (evaluation_rows run v fs) s dir e s' dir'"
proof (cases "repo = uuid_Nil \<or> h = []")
  case True
  then show ?thesis using assms by (auto simp: WithEvaluationLock_def transacts_def split: if_splits)
next
  case False
  then have "in_transaction us te (\<lambda>sb. if \<not> locks (evaluationLockKey bytes repo h) then Inl TxSQL else appendEvaluationInTx us te run v fs sb) s dir
    = (e, s', dir')" using assms by (simp add: WithEvaluationLock_def)
  then show ?thesis
    by (rule in_transaction_transacts) (use appendEvaluationInTx_mirrored in \<open>auto split: if_splits\<close>)
qed

lemma SQL_AppendDegradedRun_transacts:
  assumes "SQL_AppendDegradedRun us te run v s dir = (e, s', dir')"
  shows "transacts us te [RunRow (degraded_run run), VerdictRow (degraded_verdict v)] s dir e s' dir'"
proof (cases "degraded_guard run v")
  case None
  then show ?thesis
    using assms in_transaction_transacts [OF _ conjI [OF degraded_mirrored [OF None]]] by (simp add: SQL_AppendDegradedRun_def)
next
  case (Some x)
  then show ?thesis using assms by (auto simp: SQL_AppendDegradedRun_def transacts_def)
qed


section \<open>What reaches the log\<close>

definition logged :: "(string \<Rightarrow> uuid option) \<Rightarrow> wal_dir \<Rightarrow> AuditFrame set" where
  "logged fs dir = (\<Union>n. set (wal_log fs dir n))"

text \<open>No write is torn: a write is complete or not begun, although the error may come later.\<close>

definition whole_writes :: "(nat \<Rightarrow> append_outcome) \<Rightarrow> bool" where
  "whole_writes io \<longleftrightarrow> (\<forall>n k. io n \<noteq> WriteFails k)"

lemma append_whole:
  assumes "uuid_text us fs" and "list_all (\<lambda>f. Validate f = None) xs" and "encodeFrames us xs = Inr buf" and "clean_dir fs dir"
  shows "clean_dir fs (append_file n buf dir)" and "logged fs (append_file n buf dir) = logged fs dir \<union> set xs"
proof -
  have st: "read_status fs dir m = None" for m using assms(4) by (simp add: clean_dir_def)
  note c = append_complete [OF assms(1-3) st [of n]]
  show "clean_dir fs (append_file n buf dir)" unfolding clean_dir_def using c(2) st log_elsewhere(2) by metis
  have "wal_log fs (append_file n buf dir) m = (if m = n then wal_log fs dir n @ xs else wal_log fs dir m)" for m
    using c(1) log_elsewhere(1) by metis
  then show "logged fs (append_file n buf dir) = logged fs dir \<union> set xs" by (auto simp: logged_def split: if_splits)
qed

lemma flush_groups_whole:
  assumes "uuid_text us fs" and "whole_writes io"
    and "list_all (\<lambda>(n, xs). list_all (\<lambda>f. Validate f = None) xs) gs" and "clean_dir fs dir"
    and "flush_groups us io k gs dir = (e, dir')"
  shows "\<exists>j. clean_dir fs dir' \<and> logged fs dir' = logged fs dir \<union> \<Union> (set ` snd ` set (take j gs)) \<and> (e = None \<longrightarrow> j = length gs)"
  using assms(3-)
proof (induction gs arbitrary: k dir)
  case Nil
  then show ?case by auto
next
  case (Cons g gs)
  obtain n xs where g: "g = (n, xs)" by (cases g)
  show ?case
  proof (cases "encodeFrames us xs")
    case (Inl x)
    then show ?thesis using Cons.prems g by (intro exI [of _ 0]) auto
  next
    case (Inr buf)
    note w = append_whole [OF assms(1) _ Inr Cons.prems(2), of n]
    have v: "list_all (\<lambda>f. Validate f = None) xs" using Cons.prems(1) g by simp
    consider (ok) "io k = AppendOk" | (none) "io k = OpenFails" | (all) "io k \<in> {SyncFails, CloseFails}"
      using assms(2) by (cases "io k") (auto simp: whole_writes_def)
    then show ?thesis
    proof cases
      case ok
      have "flush_groups us io (Suc k) gs (append_file n buf dir) = (e, dir')"
        using Cons.prems(3) g Inr ok by (simp add: appendAndSync_def)
      then obtain j where "clean_dir fs dir'" "e = None \<longrightarrow> j = length gs"
        "logged fs dir' = logged fs (append_file n buf dir) \<union> \<Union> (set ` snd ` set (take j gs))"
        using Cons.IH [of "append_file n buf dir" "Suc k"] w(1) [OF v] Cons.prems(1) by auto
      then show ?thesis using w(2) [OF v] g by (intro exI [of _ "Suc j"]) auto
    next
      case none
      then show ?thesis using Cons.prems g Inr by (intro exI [of _ 0]) (auto simp: appendAndSync_def)
    next
      case all
      then have "dir' = append_file n buf dir \<and> e = Some WalOS" using Cons.prems(3) g Inr by (auto simp: appendAndSync_def)
      then show ?thesis using w [OF v] g by (intro exI [of _ 1]) auto
    qed
  qed
qed

text \<open>A flush writes all frames of its batch, or some that include the first, or none.\<close>

lemma group_frames_first: "frames \<noteq> [] \<Longrightarrow> \<exists>xs gs. group_frames frames = (partition_name (WrittenAt (hd frames)), xs) # gs"
proof (induction frames rule: rev_induct)
  case (snoc f frames)
  show ?case
  proof (cases "frames = []")
    case True
    then show ?thesis by (simp add: group_frames_def)
  next
    case False
    then show ?thesis using snoc.IH by (auto simp: group_frames_snoc)
  qed
qed simp

lemma Batch_Commit_whole:
  assumes "uuid_text us fs" and "whole_writes io" and "staged us b" and "\<not> finalised b" and "b_frames b \<noteq> []" and "clean_dir fs dir"
    and "Batch_Commit us io c b dir = (e, b', dir')"
  shows "\<exists>F \<subseteq> set (b_frames b). clean_dir fs dir' \<and> logged fs dir' = logged fs dir \<union> F \<and> (e = None \<longrightarrow> F = set (b_frames b))
    \<and> (F \<noteq> {} \<longrightarrow> hd (b_frames b) \<in> F)"
proof (cases c)
  case Cancelled
  then show ?thesis using assms(4-) by (auto simp: Batch_Commit_def wal_flush_def Let_def)
next
  case Live
  let ?gs = "group_frames (b_frames b)"
  have ok: "groups_ok ?gs (b_frames b)" by (rule groups_ok_group_frames)
  have mem: "xs = frames_for n (b_frames b)" if "(n, xs) \<in> set ?gs" for n xs using ok that unfolding groups_ok_def by blast
  have v: "list_all (\<lambda>(n, xs). list_all (\<lambda>f. Validate f = None) xs) ?gs"
  proof -
    have "list_all (\<lambda>f. Validate f = None) xs" if x: "(n, xs) \<in> set ?gs" for n xs
      unfolding mem [OF x] using staged_inv [OF assms(3)] by (auto simp: batch_inv_def list_all_iff frames_for_def)
    then show ?thesis by (auto simp: list_all_iff)
  qed
  have fl: "flush_groups us io 0 ?gs dir = (e, dir')"
    using assms(4,5,7) Live by (auto simp: Batch_Commit_def wal_flush_def Let_def split: prod.splits)
  obtain j where j: "clean_dir fs dir'" "logged fs dir' = logged fs dir \<union> \<Union> (set ` snd ` set (take j ?gs))"
    "e = None \<longrightarrow> j = length ?gs"
    using flush_groups_whole [OF assms(1,2) v assms(6) fl] by auto
  define F where "F = \<Union> (set ` snd ` set (take j ?gs))"
  have sub: "F \<subseteq> set (b_frames b)"
  proof
    fix f
    assume "f \<in> F"
    then obtain n xs where x: "(n, xs) \<in> set ?gs" "f \<in> set xs" by (auto simp: F_def dest: in_set_takeD)
    then show "f \<in> set (b_frames b)" using mem [OF x(1)] by (simp add: frames_for_def)
  qed
  have all: "f \<in> \<Union> (set ` snd ` set ?gs)" if "f \<in> set (b_frames b)" for f
  proof -
    have "partition_name (WrittenAt f) \<in> fst ` set ?gs" using ok that unfolding groups_ok_def by simp
    then obtain xs where x: "(partition_name (WrittenAt f), xs) \<in> set ?gs" by force
    then have "f \<in> set xs" using mem [OF x] that by (simp add: frames_for_def)
    then show ?thesis using x by force
  qed
  obtain xs gs where first: "?gs = (partition_name (WrittenAt (hd (b_frames b))), xs) # gs" using group_frames_first [OF assms(5)] by blast
  have "hd (b_frames b) \<in> set xs" using mem [of "partition_name (WrittenAt (hd (b_frames b)))" xs] first assms(5)
    by (simp add: frames_for_def)
  then have "F \<noteq> {} \<longrightarrow> hd (b_frames b) \<in> F" unfolding F_def first by (cases j) auto
  moreover have "e = None \<longrightarrow> F = set (b_frames b)"
  proof
    assume "e = None"
    then have "F = \<Union> (set ` snd ` set ?gs)" using j(3) by (simp add: F_def)
    then show "F = set (b_frames b)" using all sub by blast
  qed
  ultimately show ?thesis using sub j(1,2) unfolding F_def by blast
qed


section \<open>Histories of transactions and restarts\<close>

text \<open>The signers are key managers whose caches are part of the key table, from which no key is ever removed.\<close>

definition trusted_signer :: "ed_verify \<Rightarrow> KeyRecord list \<Rightarrow> FrameSigner \<Rightarrow> bool" where
  "trusted_signer ed keys sg \<longleftrightarrow>
     (\<exists>kms m t. sg = keysManagerWALSigner ed kms m t \<and> rows_ok (key_cache m) \<and> set (key_cache m) \<subseteq> set keys)"

definition sound_env :: "ed_verify \<Rightarrow> KeyRecord list \<Rightarrow> tx_env \<Rightarrow> bool" where
  "sound_env ed keys te \<longleftrightarrow> (\<forall>n. trusted_signer ed keys (te_signer te n)) \<and> whole_writes (te_io te)"

lemma carries_genuine:
  assumes "uuid_text us fs" and "rows_ok keys" and "\<forall>n. trusted_signer ed keys (te_signer te n)" and "sound_row row" and "carries us te row f"
    and "verify = historicalKeysWALVerifier ed (buildHistoricalKeySnapshot keys)"
  shows "genuine us fs verify f row" and "complete_row row" and "fr_Table f = row_table row" and "RowPK f = row_pk row"
proof -
  obtain n j where j: "row_json us row = Inr j"
    and nf: "NewFrame us (te_signer te n) (te_ctx te n) (te_gen te n) (te_clock te n) (row_table row) (row_pk row) j = Inr f"
    using assms(5) by (auto simp: carries_def)
  obtain kms m t where s: "te_signer te n = keysManagerWALSigner ed kms m t" "rows_ok (key_cache m)" "set (key_cache m) \<subseteq> set keys"
    using assms(3) unfolding trusted_signer_def by blast
  note f = NewFrame_Inr(2-4) [OF nf]
  have sig: "signature_ok us verify f"
    unfolding assms(6) by (rule signed_frame_verifies [OF s(2,3) assms(2) nf [unfolded s(1)]])
  have "frame_row fs f = Some row"
    using j f assms(4) decode_run_row [OF assms(1)] decode_verdict_row [OF assms(1)] decode_finding_row [OF assms(1)]
    by (cases row) (simp_all add: frame_row_def)
  then show "genuine us fs verify f row" using sig f by (simp add: genuine_def)
  show "complete_row row"
    using j assms(4)
    by (cases row) (auto simp: walEvaluationRunRowJSON_def walEvaluationVerdictRowJSON_def walFindingRowJSON_def Caller_IsValid_def
        Verdict_IsValid_def split: if_splits)
  show "fr_Table f = row_table row" "RowPK f = row_pk row" using f by simp_all
qed

text \<open>
  Transactions by the engine, with and without the lock, and by the gate, and start-ups of
  the reconciler, in any order and with any outcome except a torn write.
\<close>

inductive audit_trace ::
  "(uuid \<Rightarrow> string) \<Rightarrow> (string \<Rightarrow> uuid option) \<Rightarrow> ed_verify \<Rightarrow> KeyRecord list \<Rightarrow> Verifier \<Rightarrow> EngineStore \<Rightarrow> wal_dir \<Rightarrow> bool"
  for us fs ed keys verify where
  start: "audit_trace us fs ed keys verify NewEngineStore []"
| direct: "audit_trace us fs ed keys verify s dir \<Longrightarrow> sound_env ed keys te \<Longrightarrow> list_all sound_row (evaluation_rows run v fds) \<Longrightarrow>
     SQL_AppendEvaluation us te run v fds s dir = (e, s', dir') \<Longrightarrow> audit_trace us fs ed keys verify s' dir'"
| locked: "audit_trace us fs ed keys verify s dir \<Longrightarrow> sound_env ed keys te \<Longrightarrow> list_all sound_row (evaluation_rows run v fds) \<Longrightarrow>
     WithEvaluationLock us te locks bytes repo h (appendEvaluationInTx us te run v fds) s dir = (e, s', dir') \<Longrightarrow>
     audit_trace us fs ed keys verify s' dir'"
| gate: "audit_trace us fs ed keys verify s dir \<Longrightarrow> sound_env ed keys te \<Longrightarrow>
     list_all sound_row [RunRow (degraded_run drun), VerdictRow (degraded_verdict dv)] \<Longrightarrow>
     SQL_AppendDegradedRun us te drun dv s dir = (e, s', dir') \<Longrightarrow> audit_trace us fs ed keys verify s' dir'"
| restart: "audit_trace us fs ed keys verify s dir \<Longrightarrow>
     Reconciler_Run us fs verify db (\<lambda>_. ReadOk) cs (DirFiles dir) s = (re, st, s') \<Longrightarrow> audit_trace us fs ed keys verify s' dir"

text \<open>
  In such a history the log is readable, each of its frames can be replayed from the log
  alone, and every stored row has a frame.
\<close>

definition log_inv :: "(uuid \<Rightarrow> string) \<Rightarrow> (string \<Rightarrow> uuid option) \<Rightarrow> Verifier \<Rightarrow> EngineStore \<Rightarrow> wal_dir \<Rightarrow> bool" where
  "log_inv us fs verify s dir \<longleftrightarrow>
     clean_dir fs dir \<and> partition_dir dir
     \<and> (\<forall>f \<in> logged fs dir. \<exists>row. genuine us fs verify f row \<and> complete_row row
          \<and> (\<forall>i. refers row = Some i \<longrightarrow> (\<exists>g \<in> logged fs dir. is_run_frame g \<and> RowPK g = i)))
     \<and> (\<forall>row. stored row s \<longrightarrow> (\<exists>f \<in> logged fs dir. genuine us fs verify f row))"

lemma stored_fold_add: "stored row (fold add_row rows s) \<longleftrightarrow> stored row s \<or> row \<in> set rows"
proof (induction rows arbitrary: s)
  case (Cons r rows)
  have "stored row (add_row r s) \<longleftrightarrow> stored row s \<or> row = r" by (cases r; cases row) auto
  then show ?case using Cons by auto
qed simp

lemma transacts_log_inv:
  assumes "uuid_text us fs" and "rows_ok keys" and "verify = historicalKeysWALVerifier ed (buildHistoricalKeySnapshot keys)"
    and env: "sound_env ed keys te" and sound: "list_all sound_row rows" and tx: "transacts us te rows s dir e s' dir'"
    and inv: "log_inv us fs verify s dir"
  shows "log_inv us fs verify s' dir'"
proof (cases "s' = s \<and> dir' = dir")
  case True
  then show ?thesis using inv by simp
next
  case False
  then obtain b b' we where b: "staged us b" "\<not> finalised b" and lc: "list_all2 (carries us te) rows (b_frames b)" and o: "one_run rows"
    and c: "Batch_Commit us (te_io te) (te_flush te) b dir = (we, b', dir')" and s': "s' = s \<or> we = None \<and> s' = fold add_row rows s"
    using tx unfolding transacts_def by blast
  obtain r rest where rows: "rows = RunRow r # rest" using o by (cases rows rule: one_run.cases) auto
  then obtain f0 fr where fr: "b_frames b = f0 # fr" using lc by (cases "b_frames b") auto
  note car = carries_genuine [OF assms(1,2) conjunct1 [OF env [unfolded sound_env_def]] _ _ assms(3)]
  have inv': "clean_dir fs dir" "partition_dir dir" using inv by (simp_all add: log_inv_def)
  obtain F where F: "F \<subseteq> set (b_frames b)" "clean_dir fs dir'" "logged fs dir' = logged fs dir \<union> F"
    "we = None \<longrightarrow> F = set (b_frames b)" "F \<noteq> {} \<longrightarrow> f0 \<in> F"
    using Batch_Commit_whole [OF assms(1) _ b _ inv'(1) c] env fr by (auto simp: sound_env_def)
  have pair: "\<exists>row \<in> set rows. sound_row row \<and> carries us te row f" if "f \<in> set (b_frames b)" for f
    using lc sound that by (auto simp: list_all2_conv_all_nth in_set_conv_nth list_all_length) (metis nth_mem)
  have run0: "is_run_frame f0 \<and> RowPK f0 = EvaluationRunID r"
    using car(3,4) [of "RunRow r" f0] lc sound by (simp add: rows fr is_run_frame_def)
  have new: "\<exists>row. genuine us fs verify f row \<and> complete_row row
      \<and> (\<forall>i. refers row = Some i \<longrightarrow> (\<exists>g \<in> logged fs dir'. is_run_frame g \<and> RowPK g = i))" if f: "f \<in> F" for f
  proof -
    obtain row where row: "row \<in> set rows" "sound_row row" "carries us te row f" using pair f F(1) by blast
    have "refers row \<in> {None, Some (EvaluationRunID r)}" using row(1) o by (auto simp: rows list_all_iff)
    moreover have "f0 \<in> logged fs dir'" using f F(3,5) by blast
    ultimately show ?thesis
      using car(1,2) [OF row(2,3)] run0 by (intro exI [of _ row]) auto
  qed
  have "\<exists>f \<in> logged fs dir'. genuine us fs verify f row" if row: "stored row s'" for row
  proof (cases "stored row s")
    case True
    then show ?thesis using inv F(3) by (auto simp: log_inv_def)
  next
    case False
    then have "row \<in> set rows" "we = None" using s' row stored_fold_add by auto
    then obtain f where "f \<in> set (b_frames b)" "carries us te row f" using lc by (metis in_set_conv_nth list_all2_conv_all_nth)
    then show ?thesis using car(1) F(3,4) \<open>we = None\<close> \<open>row \<in> set rows\<close> sound by (intro bexI [of _ f]) (auto simp: list_all_iff)
  qed
  moreover have "partition_dir dir'" using Batch_Commit_log(4) [OF assms(1) staged_inv [OF b(1)] inv'(1) c] inv'(2) by blast
  moreover have "\<exists>row. genuine us fs verify f row \<and> complete_row row
      \<and> (\<forall>i. refers row = Some i \<longrightarrow> (\<exists>g \<in> logged fs dir'. is_run_frame g \<and> RowPK g = i))" if "f \<in> logged fs dir" for f
    using inv that unfolding log_inv_def F(3) by blast
  ultimately show ?thesis using F(2,3) new unfolding log_inv_def by blast
qed


lemma ReadAll_logged:
  assumes "clean_dir fs dir" and "partition_dir dir" and "ReadAll fs (\<lambda>_. ReadOk) (DirFiles dir) = (frames, err)"
  shows "set frames = logged fs dir" and "err = None"
proof -
  note fr = ReadAll_log [OF assms(1,2)] assms(3)
  then show "err = None" by simp
  have "wal_log fs dir n = []" if "n \<notin> set (partition_files dir)" for n
  proof -
    have "map_of dir n = None" using that unfolding partition_files_set [OF assms(2)] by (simp add: map_of_eq_None_iff)
    then show ?thesis by (simp add: wal_log_def file_bytes_def)
  qed
  then have "(\<Union>n \<in> set (partition_files dir). set (wal_log fs dir n)) = logged fs dir"
    by (fastforce simp: logged_def)
  then show "set frames = logged fs dir" using fr by auto
qed

lemma audit_trace_inv:
  assumes "uuid_text us fs" and "rows_ok keys" and "verify = historicalKeysWALVerifier ed (buildHistoricalKeySnapshot keys)"
    and "audit_trace us fs ed keys verify s dir"
  shows "log_inv us fs verify s dir"
  using assms(4)
proof (induction rule: audit_trace.induct)
  case start
  have "logged fs [] = {}" by (simp add: logged_def wal_log_def file_bytes_def)
  moreover have "\<not> stored row NewEngineStore" for row by (cases row) (simp_all add: NewEngineStore_def)
  ultimately show ?case
    using wal_history_log [OF assms(1) wal_history.empty] by (simp add: log_inv_def)
next
  case (direct s dir te run v fds e s' dir')
  show ?case by (rule transacts_log_inv [OF assms(1-3) direct(2,3) SQL_AppendEvaluation_transacts [OF direct(4)] direct.IH])
next
  case (locked s dir te run v fds locks bytes repo h e s' dir')
  show ?case by (rule transacts_log_inv [OF assms(1-3) locked(2,3) WithEvaluationLock_transacts [OF locked(4)] locked.IH])
next
  case (gate s dir te drun dv e s' dir')
  show ?case by (rule transacts_log_inv [OF assms(1-3) gate(2,3) SQL_AppendDegradedRun_transacts [OF gate(4)] gate.IH])
next
  case (restart s dir db cs re st s')
  have cd: "clean_dir fs dir" "partition_dir dir" using restart.IH by (simp_all add: log_inv_def)
  obtain frames err where rd: "ReadAll fs (\<lambda>_. ReadOk) (DirFiles dir) = (frames, err)" by (metis surj_pair)
  obtain rows st0 where "replays us fs verify frames rows (st0, s) re (st, s')"
    using Reconciler_Run_replays [OF rd restart(2)] by blast
  then have "s' = fold add_row rows s" "\<forall>row \<in> set rows. \<exists>f \<in> logged fs dir. genuine us fs verify f row"
    unfolding ReadAll_logged(1) [OF cd rd, symmetric] by (simp_all add: replays_def)
  then show ?case using restart.IH unfolding log_inv_def by (auto simp: stored_fold_add)
qed

lemma log_inv_recovers:
  assumes inv: "log_inv us fs verify s dir" and v: "verify = historicalKeysWALVerifier ed snap" and db: "\<And>s t i. db s t i = ExecOk"
  shows "\<exists>st s'. Reconciler_Run us fs verify db (\<lambda>_. ReadOk) (\<lambda>_. Live) (DirFiles dir) s = (None, st, s')
    \<and> (\<forall>f \<in> logged fs dir. \<exists>row. genuine us fs verify f row \<and> has_row row s') \<and> (\<forall>row. stored row s \<longrightarrow> stored row s')"
proof -
  have cd: "clean_dir fs dir" "partition_dir dir" using inv by (simp_all add: log_inv_def)
  obtain frames err where rd: "ReadAll fs (\<lambda>_. ReadOk) (DirFiles dir) = (frames, err)" by (metis surj_pair)
  note lg = ReadAll_logged [OF cd rd]
  have gen: "\<exists>row. genuine us fs verify f row \<and> complete_row row
      \<and> (\<forall>i. refers row = Some i \<longrightarrow> (\<exists>g \<in> set frames. is_run_frame g \<and> RowPK g = i))" if "f \<in> set frames" for f
    using inv that unfolding log_inv_def lg(1) by blast
  have sig: "signature_ok us verify f" if "f \<in> set frames" for f using gen [OF that] by (auto simp: genuine_def)
  have "recoverable us fs verify frames s f" if f: "f \<in> set frames" for f
  proof -
    obtain row where row: "genuine us fs verify f row" "complete_row row"
      "\<forall>i. refers row = Some i \<longrightarrow> (\<exists>g \<in> set frames. is_run_frame g \<and> RowPK g = i)" using gen [OF f] by blast
    have "fk_ok row s \<or> (\<exists>g \<in> set frames. is_run_frame g \<and> signature_ok us verify g \<and> refers row = Some (RowPK g))"
      using row(3) sig by (cases "refers row") (auto simp: fk_ok_refers)
    then show ?thesis using row(1,2) unfolding recoverable_def by blast
  qed
  then obtain st s' where run: "Reconciler_Run us fs verify db (\<lambda>_. ReadOk) (\<lambda>_. Live) (DirFiles dir) s = (None, st, s')"
    using historical.Reconciler_Run_works [of db fs "\<lambda>_. ReadOk" "DirFiles dir" frames err us ed snap s, OF db rd] lg(2)
    unfolding v read_warning_def by blast
  obtain rows st0 where r: "replays us fs verify frames rows (st0, s) None (st, s')" using Reconciler_Run_replays [OF rd run] by blast
  have "\<exists>row. genuine us fs verify f row \<and> has_row row s'" if "f \<in> logged fs dir" for f
    using r sig that unfolding lg(1) [symmetric] replays_def by auto
  moreover have "stored row s \<longrightarrow> stored row s'" for row using r by (simp add: replays_def stored_fold_add)
  ultimately show ?thesis using run by blast
qed


section \<open>The stores of the engine and the gate\<close>

lemma fold_add_findings: "fold add_row (map FindRow fs) s = s\<lparr>findings := findings s @ fs\<rparr>"
  by (induction fs arbitrary: s) simp_all

lemma fresh_findings:
  "fresh_rows (map FindRow fs) s \<longleftrightarrow> distinct (map FindingID fs) \<and> (\<forall>f \<in> set fs. FindingID f \<notin> FindingID ` set (findings s))"
proof (induction fs arbitrary: s)
  case (Cons f fs)
  then show ?case by (auto simp: has_defs) (metis image_eqI)+
qed simp

lemma append_findings_ids:
  "append_findings us te i n fs a = Inr b \<Longrightarrow> \<forall>f \<in> set fs. FindingID f \<noteq> uuid_Nil \<and> f_EvaluationRunID f = i"
  by (induction fs arbitrary: n a) (auto simp: bindE_Inr split: if_splits)

lemma appendEvaluationInTx_store:
  assumes "appendEvaluationInTx us te run v fs (s, b) = Inr sb"
  shows "AppendEvaluation Live run v fs s = Inr (fst sb)"
proof -
  obtain frames where m: "mirrored us te (evaluation_rows run v fs) frames (s, b) sb"
    using appendEvaluationInTx_mirrored(1) [OF assms] by blast
  obtain d where "append_findings us te (EvaluationRunID run) 2 fs d = Inr sb"
    and g: "EvaluationRunID run \<noteq> uuid_Nil" "VerdictID v \<noteq> uuid_Nil" "v_EvaluationRunID v = EvaluationRunID run"
    using assms by (auto simp: appendEvaluationInTx_def bindE_Inr split: if_splits)
  then have "\<forall>f \<in> set fs. FindingID f \<noteq> uuid_Nil \<and> f_EvaluationRunID f = EvaluationRunID run" using append_findings_ids by blast
  moreover have "fresh_rows (map FindRow fs) (add_row (VerdictRow v) (add_row (RunRow run) s))" "\<not> has_run (EvaluationRunID run) s"
    "\<not> has_verdict (VerdictID v) s" using m by (auto simp: mirrored_def has_defs)
  ultimately have "batch_ok (EvaluationRunID run) [] (findings s) fs = None"
    unfolding batch_ok_None fresh_findings by simp
  then show ?thesis
    using m g \<open>\<not> has_run _ s\<close> \<open>\<not> has_verdict _ s\<close>
    by (simp add: AppendEvaluation_def mirrored_def fold_add_findings has_run_def has_verdict_def)
qed

text \<open>The tables after a transaction: those of its body when it reports success, else those or the old ones.\<close>

lemma in_transaction_store:
  assumes "in_transaction us te body s dir = (e, s', dir')"
  shows "e \<noteq> None \<and> s' = s \<or> (\<exists>sb. body (s, NewTxBatch) = Inr sb \<and> s' = fst sb)"
  using assms by (auto simp: in_transaction_def flush_then_commit_def split: if_splits sum.splits prod.splits option.splits tx_outcome.splits)

lemma degraded_guard_append:
  "degraded_guard run v = None \<Longrightarrow>
     AppendDegradedRun db run v s =
       (case db s (dr_EvaluationRunID run) (dv_VerdictID v) of
          TxOk \<Rightarrow> (None, degraded_rows run v s) | TxFailed \<Rightarrow> (Some PortDatabase, s) | TxLost \<Rightarrow> (Some PortDatabase, degraded_rows run v s))"
  "degraded_guard run v = Some x \<Longrightarrow> AppendDegradedRun db run v s = (Some x, s)"
  by (auto simp: degraded_guard_def AppendDegradedRun_def split: if_splits)

section \<open>Properties\<close>

text \<open>
  C9. The SQL store refines the in-memory store that the engine is verified over. Whatever
  the database, the log and the context do, an append either fails and leaves the tables as
  they were, or leaves exactly the tables of the in-memory append; success is only reported
  in the second case.
\<close>

theorem sql_append_refines_store:
  assumes "SQL_AppendEvaluation us te run v fs s dir = (e, s', dir')"
  shows "e \<noteq> None \<and> s' = s \<or> AppendEvaluation Live run v fs s = Inr s'"
  using in_transaction_store [OF assms [unfolded SQL_AppendEvaluation_def]] appendEvaluationInTx_store by blast

text \<open>
  The degraded write refines the port of the gate's model: with the outcome of the
  transaction as the database's answer, it returns an error in the same cases and leaves the
  same tables.
\<close>

theorem sql_degraded_refines_port:
  assumes "SQL_AppendDegradedRun us te run v s dir = (e, s', dir')"
  shows "\<exists>outcome. snd (AppendDegradedRun (\<lambda>_ _ _. outcome) run v s) = s'
    \<and> (fst (AppendDegradedRun (\<lambda>_ _ _. outcome) run v s) = None \<longleftrightarrow> e = None)"
proof (cases "degraded_guard run v")
  case (Some x)
  then show ?thesis using assms degraded_guard_append(2) [OF Some] by (auto simp: SQL_AppendDegradedRun_def)
next
  case None
  note tx = assms [unfolded SQL_AppendDegradedRun_def None option.case]
  have rows: "fst sb = degraded_rows run v s"
    if b: "bindE (insert_staged us te 0 (RunRow (degraded_run run)) (walDegradedRunRowJSON us run) (s, NewTxBatch)) (\<lambda>c.
      insert_staged us te 1 (VerdictRow (degraded_verdict v)) (walDegradedVerdictRowJSON us v) c) = Inr sb" for sb
    using degraded_mirrored(1) [OF None b] by (auto simp: mirrored_def degraded_rows_def degraded_run_def degraded_verdict_def)
  consider "e \<noteq> None" "s' = s" | "s' = degraded_rows run v s" "e = None" | "s' = degraded_rows run v s" "e \<noteq> None"
    using in_transaction_store [OF tx] rows by blast
  then show ?thesis
  proof cases
    case 1
    then show ?thesis using degraded_guard_append(1) [OF None] by (intro exI [of _ TxFailed]) simp
  next
    case 2
    then show ?thesis using degraded_guard_append(1) [OF None] by (intro exI [of _ TxOk]) simp
  next
    case 3
    then show ?thesis using degraded_guard_append(1) [OF None] by (intro exI [of _ TxLost]) simp
  qed
qed

text \<open>
  C6. The log comes before the tables. After any history of transactions and restarts
  without a torn write, every row of the audit tables has a signed frame in the log, and a
  start-up on a working database ends without an error with the row of every logged frame in
  its table and every row that was there before.
\<close>

theorem crash_recovery:
  assumes "uuid_text us fs" and "rows_ok keys" and "NewHistoricalKeysWALVerifier ed Live keys = Inr verify"
    and "audit_trace us fs ed keys verify s dir" and "\<And>s t i. db s t i = ExecOk"
  shows "(\<forall>row. stored row s \<longrightarrow> (\<exists>f \<in> logged fs dir. genuine us fs verify f row))
    \<and> (\<exists>st s'. Reconciler_Run us fs verify db (\<lambda>_. ReadOk) (\<lambda>_. Live) (DirFiles dir) s = (None, st, s')
         \<and> (\<forall>f \<in> logged fs dir. \<exists>row. genuine us fs verify f row \<and> has_row row s')
         \<and> (\<forall>row. stored row s \<longrightarrow> stored row s'))"
proof -
  have v: "verify = historicalKeysWALVerifier ed (buildHistoricalKeySnapshot keys)"
    using assms(3) by (auto simp: NewHistoricalKeysWALVerifier_def keys_List_def)
  note inv = audit_trace_inv [OF assms(1,2) v assms(4)]
  then have "\<forall>row. stored row s \<longrightarrow> (\<exists>f \<in> logged fs dir. genuine us fs verify f row)" by (simp add: log_inv_def)
  then show ?thesis using log_inv_recovers [OF inv v, of db] assms(5) by blast
qed

text \<open>
  C5. A commit that the database loses is restored. If an append reports success, or the
  flush of its frames succeeded and only the commit reported an error, then after the next
  start-up on a working database the run, its verdict and all its findings have their keys
  in the tables.
\<close>

theorem lost_commit_restored:
  assumes "uuid_text us fs" and "rows_ok keys" and "NewHistoricalKeysWALVerifier ed Live keys = Inr verify"
    and "audit_trace us fs ed keys verify s dir" and "sound_env ed keys te" and "list_all sound_row (evaluation_rows run v fds)"
    and "SQL_AppendEvaluation us te run v fds s dir = (e, s1, dir1)" and "e = None \<or> e = Some TxSQL \<and> dir1 \<noteq> dir"
    and "\<And>s t i. db s t i = ExecOk"
  shows "\<exists>st s2. Reconciler_Run us fs verify db (\<lambda>_. ReadOk) (\<lambda>_. Live) (DirFiles dir1) s1 = (None, st, s2)
    \<and> (\<forall>row \<in> set (evaluation_rows run v fds). has_row row s2)"
proof -
  have vd: "verify = historicalKeysWALVerifier ed (buildHistoricalKeySnapshot keys)"
    using assms(3) by (auto simp: NewHistoricalKeysWALVerifier_def keys_List_def)
  have "audit_trace us fs ed keys verify s1 dir1" using audit_trace.direct [OF assms(4-7)] .
  note inv = audit_trace_inv [OF assms(1,2) vd this] and inv0 = audit_trace_inv [OF assms(1,2) vd assms(4)]
  obtain st s2 where run: "Reconciler_Run us fs verify db (\<lambda>_. ReadOk) (\<lambda>_. Live) (DirFiles dir1) s1 = (None, st, s2)"
    and all: "\<forall>f \<in> logged fs dir1. \<exists>row. genuine us fs verify f row \<and> has_row row s2"
    using log_inv_recovers [OF inv vd, of db] assms(9) by blast
  obtain b b' where b: "staged us b" "\<not> finalised b" "list_all2 (carries us te) (evaluation_rows run v fds) (b_frames b)"
      "Batch_Commit us (te_io te) (te_flush te) b dir = (None, b', dir1)"
    using SQL_AppendEvaluation_transacts [OF assms(7)] assms(8) unfolding transacts_def by auto
  have ne: "b_frames b \<noteq> []" using b(3) by auto
  have sub: "set (b_frames b) \<subseteq> logged fs dir1"
    using Batch_Commit_whole [OF assms(1) _ b(1,2) ne _ b(4)] assms(5) inv0
    by (auto simp: sound_env_def log_inv_def)
  have "has_row row s2" if row: "row \<in> set (evaluation_rows run v fds)" for row
  proof -
    obtain f where f: "f \<in> set (b_frames b)" "carries us te row f" using b(3) row by (metis in_set_conv_nth list_all2_conv_all_nth)
    have "genuine us fs verify f row"
      using carries_genuine(1) [OF assms(1,2) conjunct1 [OF assms(5) [unfolded sound_env_def]] _ f(2) vd] assms(6) row by (auto simp: list_all_iff)
    moreover obtain row' where "genuine us fs verify f row'" "has_row row' s2" using all f(1) sub by blast
    ultimately show ?thesis by (simp add: genuine_def)
  qed
  then show ?thesis using run by blast
qed


section \<open>A concrete history\<close>

definition ex_wal_verdict :: EvaluationVerdict where
  "ex_wal_verdict =
     \<lparr>VerdictID = 22, v_EvaluationRunID = 21, v_Verdict = VerdictPass, v_Degraded = False, v_DegradedReason = [],
      v_CreatedAt = 1700000000 * 10 ^ 9\<rparr>"

definition ex_wal_now :: time where
  "ex_wal_now = 1700000000 * 10 ^ 9"

definition ex_te :: "(nat \<Rightarrow> append_outcome) \<Rightarrow> tx_outcome \<Rightarrow> tx_env" where
  "ex_te io out =
     \<lparr>te_begin = True, te_exec = (\<lambda>_. True), te_ctx = (\<lambda>_. Live), te_signer = (\<lambda>_. ex_wal_signer),
      te_gen = (\<lambda>n. Some (if n = 0 then 31 else 32)), te_clock = (\<lambda>_. ex_wal_now), te_flush = Live, te_io = io,
      te_commit = out\<rparr>"

lemma ex_te_frames:
  "\<exists>f. NewFrame hex_us ex_wal_signer Live (Some 31) ex_wal_now TableEvaluationRun 21 ex_wal_row = Inr f"
  "\<exists>j f. walEvaluationVerdictRowJSON hex_us ex_wal_verdict = Inr j
     \<and> NewFrame hex_us ex_wal_signer Live (Some 32) ex_wal_now TableEvaluationVerdict 22 j = Inr f"
proof -
  have "length ex_wal_row < 1000" by code_simp
  then show "\<exists>f. NewFrame hex_us ex_wal_signer Live (Some 31) ex_wal_now TableEvaluationRun 21 ex_wal_row = Inr f"
    using row_json_valid(1) [OF ex_wal_row_ok] unfolding ex_wal_now_def by (intro ex_wal_frames) (simp_all add: Table_IsValid_def)
  have len: "length (projr (walEvaluationVerdictRowJSON hex_us ex_wal_verdict)) < 1000" by code_simp
  have j: "walEvaluationVerdictRowJSON hex_us ex_wal_verdict = Inr (projr (walEvaluationVerdictRowJSON hex_us ex_wal_verdict))"
    by (simp add: walEvaluationVerdictRowJSON_def ex_wal_verdict_def Verdict_IsValid_def)
  have "\<exists>f. NewFrame hex_us ex_wal_signer Live (Some 32) ex_wal_now TableEvaluationVerdict 22
      (projr (walEvaluationVerdictRowJSON hex_us ex_wal_verdict)) = Inr f"
    using row_json_valid(2) [OF j] len unfolding ex_wal_now_def by (intro ex_wal_frames) (simp_all add: Table_IsValid_def)
  then show "\<exists>j f. walEvaluationVerdictRowJSON hex_us ex_wal_verdict = Inr j
     \<and> NewFrame hex_us ex_wal_signer Live (Some 32) ex_wal_now TableEvaluationVerdict 22 j = Inr f" using j by blast
qed

lemma StageNew_works:
  "NewFrame us sg c gen now table pk row = Inr f \<Longrightarrow> \<not> finalised b \<Longrightarrow>
     StageNew us sg c gen now table pk row b = (Inr f, b\<lparr>b_frames := b_frames b @ [f]\<rparr>)"
  using NewFrame_Inr(1) [of us sg c gen now table pk row f] by (simp add: StageNew_def Stage_def)

lemma ex_body:
  obtains f g where
    "\<And>io out. appendEvaluationInTx hex_us (ex_te io out) ex_wal_run ex_wal_verdict [] (NewEngineStore, NewTxBatch)
       = Inr (add_row (VerdictRow ex_wal_verdict) (add_row (RunRow ex_wal_run) NewEngineStore), \<lparr>b_frames = [f, g], finalised = False\<rparr>)"
    "NewFrame hex_us ex_wal_signer Live (Some 31) ex_wal_now TableEvaluationRun 21 ex_wal_row = Inr f"
    "\<exists>s t. encodeFrames hex_us [f, g] = Inr (s @ CHR 0x0A # t) \<and> encodeFrames hex_us [f] = Inr (s @ [CHR 0x0A])"
    "partition_name (WrittenAt g) = partition_name (WrittenAt f)"
proof -
  obtain f where f: "NewFrame hex_us ex_wal_signer Live (Some 31) ex_wal_now TableEvaluationRun 21 ex_wal_row = Inr f"
    using ex_te_frames(1) by blast
  obtain j g where g: "walEvaluationVerdictRowJSON hex_us ex_wal_verdict = Inr j"
    "NewFrame hex_us ex_wal_signer Live (Some 32) ex_wal_now TableEvaluationVerdict 22 j = Inr g"
    using ex_te_frames(2) by blast
  have ids: "EvaluationRunID ex_wal_run = 21" "VerdictID ex_wal_verdict = 22" "v_EvaluationRunID ex_wal_verdict = 21"
    by (simp_all add: ex_wal_run_def ex_wal_verdict_def)
  have "appendEvaluationInTx hex_us (ex_te io out) ex_wal_run ex_wal_verdict [] (NewEngineStore, NewTxBatch)
       = Inr (add_row (VerdictRow ex_wal_verdict) (add_row (RunRow ex_wal_run) NewEngineStore), \<lparr>b_frames = [f, g], finalised = False\<rparr>)" for io out
    by (simp add: appendEvaluationInTx_def insert_staged_def ex_te_def ids ex_wal_row_ok g(1) StageNew_works [OF f] StageNew_works [OF g(2)]
        NewTxBatch_def has_run_def has_verdict_def NewEngineStore_def)
  moreover obtain s u where "marshal_frame hex_us f = Some s" "marshal_frame hex_us g = Some u"
    "int (length s) + 1 \<le> MaxFrameSize" "int (length u) + 1 \<le> MaxFrameSize"
    using NewFrame_Inr(6) [OF f] NewFrame_Inr(6) [OF g(2)] by blast
  then have "\<exists>s t. encodeFrames hex_us [f, g] = Inr (s @ CHR 0x0A # t) \<and> encodeFrames hex_us [f] = Inr (s @ [CHR 0x0A])" by simp
  ultimately show thesis using f NewFrame_Inr(5) [OF f] NewFrame_Inr(5) [OF g(2)] that by simp
qed

lemma ex_lost:
  "\<exists>dir1. dir1 \<noteq> [] \<and> (\<forall>out. SQL_AppendEvaluation hex_us (ex_te (\<lambda>_. AppendOk) out) ex_wal_run ex_wal_verdict [] NewEngineStore []
     = (if out = TxOk then None else Some TxSQL,
        if out = TxFailed then NewEngineStore else add_row (VerdictRow ex_wal_verdict) (add_row (RunRow ex_wal_run) NewEngineStore), dir1))"
proof -
  obtain f g s t where b: "\<And>io out. appendEvaluationInTx hex_us (ex_te io out) ex_wal_run ex_wal_verdict [] (NewEngineStore, NewTxBatch)
       = Inr (add_row (VerdictRow ex_wal_verdict) (add_row (RunRow ex_wal_run) NewEngineStore), \<lparr>b_frames = [f, g], finalised = False\<rparr>)"
    and e: "encodeFrames hex_us [f, g] = Inr (s @ CHR 0x0A # t)" and n: "partition_name (WrittenAt g) = partition_name (WrittenAt f)"
    using ex_body by metis
  define dir1 where "dir1 = append_file (partition_name (WrittenAt f)) (s @ CHR 0x0A # t) []"
  have "Batch_Commit hex_us (\<lambda>_. AppendOk) Live \<lparr>b_frames = [f, g], finalised = False\<rparr> []
      = (None, \<lparr>b_frames = [f, g], finalised = True\<rparr>, dir1)"
    using e n by (simp add: Batch_Commit_def wal_flush_def group_frames_def appendAndSync_def dir1_def del: encodeFrames.simps)
  then have "SQL_AppendEvaluation hex_us (ex_te (\<lambda>_. AppendOk) out) ex_wal_run ex_wal_verdict [] NewEngineStore []
     = (if out = TxOk then None else Some TxSQL,
        if out = TxFailed then NewEngineStore else add_row (VerdictRow ex_wal_verdict) (add_row (RunRow ex_wal_run) NewEngineStore), dir1)" for out
    unfolding SQL_AppendEvaluation_def in_transaction_def b
    by (cases out) (simp_all add: flush_then_commit_def ex_te_def)
  moreover have "dir1 \<noteq> []" by (simp add: dir1_def append_file_def gomap_put_def)
  ultimately show ?thesis by blast
qed

lemma ex_cut:
  "\<exists>k f dir1. SQL_AppendEvaluation hex_us (ex_te (\<lambda>_. WriteFails k) TxOk) ex_wal_run ex_wal_verdict [] NewEngineStore []
      = (Some (TxWal WalOS), NewEngineStore, dir1) \<and> logged hex_fs dir1 = {f} \<and> is_run_frame f"
proof -
  obtain f g s t where b: "\<And>io out. appendEvaluationInTx hex_us (ex_te io out) ex_wal_run ex_wal_verdict [] (NewEngineStore, NewTxBatch)
       = Inr (add_row (VerdictRow ex_wal_verdict) (add_row (RunRow ex_wal_run) NewEngineStore), \<lparr>b_frames = [f, g], finalised = False\<rparr>)"
    and nf: "NewFrame hex_us ex_wal_signer Live (Some 31) ex_wal_now TableEvaluationRun 21 ex_wal_row = Inr f"
    and e: "encodeFrames hex_us [f, g] = Inr (s @ CHR 0x0A # t)" "encodeFrames hex_us [f] = Inr (s @ [CHR 0x0A])"
    and n: "partition_name (WrittenAt g) = partition_name (WrittenAt f)"
    using ex_body by metis
  define k dir1 where kd: "k = length s + 1" "dir1 = append_file (partition_name (WrittenAt f)) (s @ [CHR 0x0A]) []"
  have "Batch_Commit hex_us (\<lambda>_. WriteFails k) Live \<lparr>b_frames = [f, g], finalised = False\<rparr> []
      = (Some WalOS, \<lparr>b_frames = [f, g], finalised = True\<rparr>, dir1)"
    using e n by (simp add: Batch_Commit_def wal_flush_def group_frames_def appendAndSync_def kd del: encodeFrames.simps)
  then have "SQL_AppendEvaluation hex_us (ex_te (\<lambda>_. WriteFails k) TxOk) ex_wal_run ex_wal_verdict [] NewEngineStore []
      = (Some (TxWal WalOS), NewEngineStore, dir1)"
    unfolding SQL_AppendEvaluation_def in_transaction_def b by (simp add: flush_then_commit_def ex_te_def)
  moreover have "logged hex_fs dir1 = {f}"
    using append_whole(2) [OF hex_uuid_text _ e(2) ex_clean] NewFrame_Inr(1) [OF nf] by (simp add: kd logged_def wal_log_def file_bytes_def)
  moreover have "is_run_frame f" using NewFrame_Inr(2) [OF nf] by (simp add: is_run_frame_def)
  ultimately show ?thesis by blast
qed

lemma ex_sound: "whole_writes io \<Longrightarrow> sound_env ex_ed (snd (snd ex_keys2)) (ex_te io out)"
  "list_all sound_row (evaluation_rows ex_wal_run ex_wal_verdict [])"
proof -
  have "trusted_signer ex_ed (snd (snd ex_keys2)) ex_wal_signer"
    unfolding trusted_signer_def ex_wal_signer_def using ex_wal_keys(1,3) by (auto simp: manager_ok_def)
  then show "whole_writes io \<Longrightarrow> sound_env ex_ed (snd (snd ex_keys2)) (ex_te io out)" by (simp add: sound_env_def ex_te_def)
  have "run_text_ok ex_wal_run" "verdict_text_ok ex_wal_verdict" by code_simp+
  then show "list_all sound_row (evaluation_rows ex_wal_run ex_wal_verdict [])" by simp
qed


section \<open>A batch cut short\<close>

lemma read_partitions_warn:
  assumes "\<forall>n. read_status fs dir n \<in> {None, Some ErrTrailingPartialFrame}" and "\<forall>n \<in> set ns. map_of dir n \<noteq> None" and "read_warning w"
  shows "\<exists>w'. read_partitions fs (\<lambda>_. ReadOk) dir out w ns = (out @ concat (map (wal_log fs dir) ns), w') \<and> read_warning w'"
  using assms(2,3)
proof (induction ns arbitrary: out w)
  case (Cons n ns)
  then obtain b where b: "map_of dir n = Some b" by auto
  then have "ReadPartition fs ReadOk (map_of dir n) = (wal_log fs dir n, read_status fs dir n)"
    using readFrames_log [of fs dir n] by (simp add: ReadPartition_def file_bytes_def)
  moreover have "read_status fs dir n = None \<or> read_status fs dir n = Some ErrTrailingPartialFrame" using assms(1) by blast
  ultimately show ?case
    using Cons.IH [of w "out @ wal_log fs dir n"] Cons.IH [of "Some ErrTrailingPartialFrame" "out @ wal_log fs dir n"] Cons.prems
    by (auto simp: read_warning_def)
qed simp

lemma ReadAll_torn:
  assumes "\<forall>n. read_status fs dir n \<in> {None, Some ErrTrailingPartialFrame}" and "partition_dir dir"
  shows "\<exists>frames w. ReadAll fs (\<lambda>_. ReadOk) (DirFiles dir) = (frames, w) \<and> read_warning w \<and> set frames = logged fs dir"
proof -
  have files: "\<forall>n \<in> set (partition_files dir). map_of dir n \<noteq> None"
    unfolding partition_files_set [OF assms(2)] by (simp add: map_of_eq_None_iff)
  have "wal_log fs dir n = []" if "n \<notin> set (partition_files dir)" for n
    using that unfolding partition_files_set [OF assms(2)] by (auto simp: wal_log_def file_bytes_def dest: map_of_eq_None_iff [THEN iffD2] split: option.split)
  then have "(\<Union>n \<in> set (partition_files dir). set (wal_log fs dir n)) = logged fs dir" by (fastforce simp: logged_def)
  then show ?thesis
    using read_partitions_warn [OF assms(1) files, of None "[]"] by (auto simp: ReadAll_def read_warning_def)
qed

lemma replays_one:
  assumes "replays us fs verify frames rows (st0, s) None (st, s')" and "set frames = {f}" and "genuine us fs verify f row" and "\<not> has_row row s"
  shows "s' = add_row row s"
proof -
  have only: "r = row" if "r \<in> set rows" for r using assms(1-3) that by (auto simp: replays_def genuine_def)
  have "has_row row s'" using assms(1-3) by (auto simp: replays_def genuine_def)
  then obtain r rest where rows: "rows = r # rest" using assms(1,4) by (cases rows) (auto simp: replays_def)
  have "rest = []"
  proof (rule ccontr)
    assume "rest \<noteq> []"
    then obtain x xs where x: "rest = x # xs" by (cases rest) auto
    have "r = row" "x = row" using only rows x by simp_all
    then show False using assms(1) rows x by (simp add: replays_def)
  qed
  then show ?thesis using assms(1) only rows by (auto simp: replays_def)
qed

text \<open>
  C24. A transaction is not replayed as a whole. If the write of its batch breaks off after
  the frame of the run, the append reports an error and the database rolls back, yet the
  next start-up reports success and stores the run without its verdict and findings.
\<close>

theorem rolled_back_run_replayed:
  assumes "uuid_text us fs" and "rows_ok keys" and "NewHistoricalKeysWALVerifier ed Live keys = Inr verify"
    and "\<forall>n. trusted_signer ed keys (te_signer te n)" and "run_text_ok run"
    and "SQL_AppendEvaluation us te run v fds s [] = (e, s1, dir1)" and "logged fs dir1 = {f}" and "is_run_frame f"
    and "\<And>s t i. db s t i = ExecOk"
  shows "e \<noteq> None \<and> s1 = s
    \<and> (\<exists>st. Reconciler_Run us fs verify db (\<lambda>_. ReadOk) (\<lambda>_. Live) (DirFiles dir1) s1 = (None, st, s\<lparr>runs := runs s @ [run]\<rparr>))"
proof -
  have vd: "verify = historicalKeysWALVerifier ed (buildHistoricalKeySnapshot keys)"
    using assms(3) by (auto simp: NewHistoricalKeysWALVerifier_def keys_List_def)
  have empty: "clean_dir fs []" "partition_dir []" "logged fs [] = {}"
    using wal_history_log [OF assms(1) wal_history.empty] by (simp_all add: logged_def frames_for_def)
  then have "dir1 \<noteq> []" using assms(7) by auto
  then obtain b b' we where b: "staged us b" and lc: "list_all2 (carries us te) (evaluation_rows run v fds) (b_frames b)"
      and fresh: "fresh_rows (evaluation_rows run v fds) s" and c: "Batch_Commit us (te_io te) (te_flush te) b [] = (we, b', dir1)"
      and out: "we \<noteq> None \<Longrightarrow> e \<noteq> None \<and> s1 = s"
    using SQL_AppendEvaluation_transacts [OF assms(6)] unfolding transacts_def by auto
  note log = Batch_Commit_log [OF assms(1) staged_inv [OF b] empty(1) c]
  have tab: "fr_Table g = row_table row" if "carries us te row g" for row g using that NewFrame_Inr(2) by (auto simp: carries_def)
  have wl: "wal_log fs [] n = []" for n using empty(3) by (auto simp: logged_def)
  have "f \<in> set (b_frames b)"
  proof -
    obtain n where "f \<in> set (wal_log fs dir1 n)" using assms(7) by (auto simp: logged_def)
    then obtain j where "f \<in> set (take j (frames_for n (b_frames b)))" using log(3) [of n] wl [of n] by auto
    then have "f \<in> set (frames_for n (b_frames b))" by (rule in_set_takeD)
    then show ?thesis by (simp add: frames_for_def)
  qed
  then obtain row where row: "row \<in> set (evaluation_rows run v fds)" "carries us te row f"
    using lc by (metis in_set_conv_nth list_all2_conv_all_nth)
  then have car: "carries us te (RunRow run) f" using tab [OF row(2)] assms(8) by (auto simp: is_run_frame_def)
  have "we \<noteq> None"
  proof
    assume none: "we = None"
    obtain g where g: "g \<in> set (b_frames b)" "carries us te (VerdictRow v) g"
      using lc by (metis in_set_conv_nth list_all2_conv_all_nth list.set_intros(1,2))
    have "g \<in> logged fs dir1" using log(1) [OF none] g(1) by (auto simp: logged_def wl frames_for_def)
    then show False using assms(7,8) tab [OF g(2)] by (simp add: is_run_frame_def)
  qed
  note out = out [OF this]
  note gen = carries_genuine [OF assms(1,2,4) _ car vd]
  have st: "\<forall>n. read_status fs dir1 n \<in> {None, Some ErrTrailingPartialFrame}" using log(3) by blast
  obtain frames w where rd: "ReadAll fs (\<lambda>_. ReadOk) (DirFiles dir1) = (frames, w)" "read_warning w" "set frames = {f}"
    using ReadAll_torn [OF st log(4) [OF empty(2)]] assms(7) by auto
  have absent: "\<not> has_row (RunRow run) s" using fresh by simp
  have "recoverable us fs verify frames s f" unfolding recoverable_def using gen assms(5) by (intro exI [of _ "RunRow run"]) simp
  then obtain st' s2 where run: "Reconciler_Run us fs verify db (\<lambda>_. ReadOk) (\<lambda>_. Live) (DirFiles dir1) s = (None, st', s2)"
    using historical.Reconciler_Run_works [of db, OF assms(9) rd(1,2)] rd(3) unfolding vd by fastforce
  obtain rows st0 where "replays us fs verify frames rows (st0, s) None (st', s2)" using Reconciler_Run_replays [OF rd(1) run] by blast
  then have "s2 = add_row (RunRow run) s" using replays_one rd(3) gen(1) assms(5) absent by fastforce
  then show ?thesis using out run by auto
qed


definition ex_drun :: DegradedRun where
  "ex_drun =
     \<lparr>dr_EvaluationRunID = 21, dr_RepoID = 2, dr_SHA = ''c0ffee'', dr_PolicyVersionID = 3, dr_ScopeID = None,
      dr_CreatedAt = 1700000000 * 10 ^ 9\<rparr>"

definition ex_dverdict :: DegradedVerdict where
  "ex_dverdict =
     \<lparr>dv_VerdictID = 22, dv_EvaluationRunID = 21, dv_Verdict = VerdictWarn, dv_Degraded = True,
      dv_DegradedReason = DegradedReasonSamplesPending, dv_CreatedAt = 1700000000 * 10 ^ 9\<rparr>"

theorem sql_append_refines_store_witness:
  "\<exists>s' dir1. SQL_AppendEvaluation hex_us (ex_te (\<lambda>_. AppendOk) TxOk) ex_wal_run ex_wal_verdict [] NewEngineStore [] = (None, s', dir1)
     \<and> AppendEvaluation Live ex_wal_run ex_wal_verdict [] NewEngineStore = Inr s'"
proof -
  obtain s' dir1 where d: "SQL_AppendEvaluation hex_us (ex_te (\<lambda>_. AppendOk) TxOk) ex_wal_run ex_wal_verdict [] NewEngineStore [] = (None, s', dir1)"
    using ex_lost by auto
  then show ?thesis using sql_append_refines_store [OF d] by blast
qed

theorem sql_degraded_refines_port_witness:
  "\<exists>outcome. snd (AppendDegradedRun (\<lambda>_ _ _. outcome) ex_drun ex_dverdict NewEngineStore) = NewEngineStore
     \<and> fst (AppendDegradedRun (\<lambda>_ _ _. outcome) ex_drun ex_dverdict NewEngineStore) \<noteq> None"
proof -
  obtain f where f: "NewFrame hex_us ex_wal_signer Live (Some 31) ex_wal_now TableEvaluationRun 21 ex_wal_row = Inr f"
    using ex_te_frames(1) by blast
  have run: "degraded_run ex_drun = ex_wal_run" by (simp add: degraded_run_def ex_drun_def ex_wal_run_def)
  have guard: "degraded_guard ex_drun ex_dverdict = None"
    by (simp add: degraded_guard_def ex_drun_def ex_dverdict_def gate_Verdict_IsValid_def IsValidForGate_def)
  define te where "te = ex_te (\<lambda>_. AppendOk) TxOk\<lparr>te_exec := (\<lambda>n. n = 0)\<rparr>"
  have te: "te_begin te" "te_exec te n \<longleftrightarrow> n = 0" "te_ctx te n = Live" "te_signer te n = ex_wal_signer" "te_gen te 0 = Some 31"
    "te_clock te n = ex_wal_now" for n by (simp_all add: te_def ex_te_def)
  have id: "EvaluationRunID ex_wal_run = 21" by (simp add: ex_wal_run_def)
  have absent: "\<not> has_run 21 NewEngineStore" by (simp add: has_run_def NewEngineStore_def)
  have one: "insert_staged hex_us te 0 (RunRow ex_wal_run) (Inr ex_wal_row) (NewEngineStore, NewTxBatch)
      = Inr (add_row (RunRow ex_wal_run) NewEngineStore, NewTxBatch\<lparr>b_frames := [f]\<rparr>)"
    using absent StageNew_works [OF f, of NewTxBatch] by (simp add: insert_staged_def te id NewTxBatch_def)
  have "SQL_AppendDegradedRun hex_us te ex_drun ex_dverdict NewEngineStore [] = (Some TxSQL, NewEngineStore, [])"
    by (simp add: SQL_AppendDegradedRun_def guard in_transaction_def te walDegradedRunRowJSON_eq run ex_wal_row_ok one)
      (simp add: insert_staged_def te)
  then show ?thesis using sql_degraded_refines_port by blast
qed

theorem lost_commit_restored_witness:
  "\<exists>dir1 st s2. SQL_AppendEvaluation hex_us (ex_te (\<lambda>_. AppendOk) TxFailed) ex_wal_run ex_wal_verdict [] NewEngineStore []
       = (Some TxSQL, NewEngineStore, dir1)
     \<and> Reconciler_Run hex_us hex_fs ex_wal_verify (\<lambda>_ _ _. ExecOk) (\<lambda>_. ReadOk) (\<lambda>_. Live) (DirFiles dir1) NewEngineStore = (None, st, s2)
     \<and> has_run 21 s2 \<and> has_verdict 22 s2"
proof -
  obtain dir1 where d: "SQL_AppendEvaluation hex_us (ex_te (\<lambda>_. AppendOk) TxFailed) ex_wal_run ex_wal_verdict [] NewEngineStore []
       = (Some TxSQL, NewEngineStore, dir1)" "dir1 \<noteq> []" using ex_lost by auto
  have "\<exists>st s2. Reconciler_Run hex_us hex_fs ex_wal_verify (\<lambda>_ _ _. ExecOk) (\<lambda>_. ReadOk) (\<lambda>_. Live) (DirFiles dir1) NewEngineStore
      = (None, st, s2) \<and> (\<forall>row \<in> set (evaluation_rows ex_wal_run ex_wal_verdict []). has_row row s2)"
    by (rule lost_commit_restored [OF hex_uuid_text ex_wal_keys(2,4) audit_trace.start ex_sound(1) ex_sound(2) d(1) _ refl])
      (use d(2) in \<open>simp_all add: whole_writes_def\<close>)
  then show ?thesis using d(1) by (auto simp: ex_wal_run_def ex_wal_verdict_def)
qed

theorem crash_recovery_witness:
  "\<exists>dir1 st s2. SQL_AppendEvaluation hex_us (ex_te (\<lambda>_. AppendOk) TxFailed) ex_wal_run ex_wal_verdict [] NewEngineStore []
       = (Some TxSQL, NewEngineStore, dir1)
     \<and> Reconciler_Run hex_us hex_fs ex_wal_verify (\<lambda>_ _ _. ExecOk) (\<lambda>_. ReadOk) (\<lambda>_. Live) (DirFiles dir1) NewEngineStore = (None, st, s2)
     \<and> (\<forall>f \<in> logged hex_fs dir1. \<exists>row. genuine hex_us hex_fs ex_wal_verify f row \<and> has_row row s2)"
proof -
  obtain dir1 where d: "SQL_AppendEvaluation hex_us (ex_te (\<lambda>_. AppendOk) TxFailed) ex_wal_run ex_wal_verdict [] NewEngineStore []
       = (Some TxSQL, NewEngineStore, dir1)" using ex_lost by auto
  have "audit_trace hex_us hex_fs ex_ed (snd (snd ex_keys2)) ex_wal_verify NewEngineStore dir1"
    by (rule audit_trace.direct [OF audit_trace.start ex_sound(1) ex_sound(2) d]) (simp add: whole_writes_def)
  then show ?thesis
    using crash_recovery [OF hex_uuid_text ex_wal_keys(2,4), of NewEngineStore dir1 "\<lambda>_ _ _. ExecOk"] d by blast
qed

theorem rolled_back_run_replayed_witness:
  "\<exists>k dir1 st. SQL_AppendEvaluation hex_us (ex_te (\<lambda>_. WriteFails k) TxOk) ex_wal_run ex_wal_verdict [] NewEngineStore []
       = (Some (TxWal WalOS), NewEngineStore, dir1)
     \<and> Reconciler_Run hex_us hex_fs ex_wal_verify (\<lambda>_ _ _. ExecOk) (\<lambda>_. ReadOk) (\<lambda>_. Live) (DirFiles dir1) NewEngineStore
         = (None, st, NewEngineStore\<lparr>runs := [ex_wal_run]\<rparr>)"
proof -
  obtain k f dir1 where d: "SQL_AppendEvaluation hex_us (ex_te (\<lambda>_. WriteFails k) TxOk) ex_wal_run ex_wal_verdict [] NewEngineStore []
       = (Some (TxWal WalOS), NewEngineStore, dir1)" "logged hex_fs dir1 = {f}" "is_run_frame f"
    using ex_cut by blast
  have "\<forall>n. trusted_signer ex_ed (snd (snd ex_keys2)) (te_signer (ex_te (\<lambda>_. WriteFails k) TxOk) n)"
    using ex_sound(1) [of "\<lambda>_. AppendOk" TxOk] by (simp add: sound_env_def whole_writes_def ex_te_def)
  moreover have "run_text_ok ex_wal_run" using ex_sound(2) by simp
  ultimately show ?thesis
    using rolled_back_run_replayed [OF hex_uuid_text ex_wal_keys(2,4) _ _ d, of "\<lambda>_ _ _. ExecOk"] d(1)
    by (auto simp: NewEngineStore_def)
qed

end
