(* ===== verification/Go_Json_Lex.thy ===== *)
theory Go_Json_Lex
  imports Go_Json
begin

text \<open>
  The brackets and quotes of a JSON text, followed by an automaton that the scanner of
  \<open>Go_Json\<close> is shown to agree with on every text it accepts. The result is that the text of
  an object cannot be continued with the text of a second object that starts with a quoted
  name: \<open>glued_not_json\<close>. The audit log needs it where a write was cut inside a line.
\<close>

section \<open>The brackets and quotes of a JSON text\<close>

text \<open>
  Where a scan of the brackets and quotes of a text stands: before a value with \<open>d\<close>
  containers open, behind a value that ended with a quote or a bracket, inside a string,
  behind a backslash of one, or nowhere in any JSON text.
\<close>

datatype lex = LOut nat | LAfter nat | LStr nat | LEsc nat | LDead

fun lex_step :: "lex \<Rightarrow> char \<Rightarrow> lex" where
  "lex_step (LOut d) c =
     (if c = quote_char then LStr d
      else if c = CHR ''{'' \<or> c = CHR ''['' then LOut (Suc d)
      else if c = CHR ''}'' \<or> c = CHR '']'' then (case d of 0 \<Rightarrow> LDead | Suc k \<Rightarrow> LAfter k)
      else LOut d)"
| "lex_step (LAfter d) c =
     (if is_ws c then LAfter d
      else
        (case d of
           0 \<Rightarrow> LDead
         | Suc k \<Rightarrow>
             if c = CHR '','' \<or> c = CHR '':'' then LOut d
             else if c = CHR ''}'' \<or> c = CHR '']'' then LAfter k
             else LDead))"
| "lex_step (LStr d) c = (if c = quote_char then LAfter d else if c = CHR 0x5C then LEsc d else LStr d)"
| "lex_step (LEsc d) c = LStr d"
| "lex_step LDead c = LDead"

abbreviation lex_run :: "lex \<Rightarrow> string \<Rightarrow> lex" where
  "lex_run \<equiv> foldl lex_step"

definition lex_plain :: "char \<Rightarrow> bool" where
  "lex_plain c \<longleftrightarrow> c \<notin> {quote_char, CHR ''{'', CHR ''['', CHR ''}'', CHR '']''}"

lemma lex_plain_run: "list_all lex_plain w \<Longrightarrow> lex_run (LOut d) w = LOut d"
  by (induction w) (simp_all add: lex_plain_def)

lemma is_ws_plain: "is_ws c \<Longrightarrow> lex_plain c"
  by (auto simp: is_ws_def lex_plain_def)

definition at_value :: "nat \<Rightarrow> lex \<Rightarrow> bool" where
  "at_value d q \<longleftrightarrow> q = LOut d \<or> q = LAfter d"

lemma at_value_ws: "at_value d q \<Longrightarrow> list_all is_ws w \<Longrightarrow> at_value d (lex_run q w)"
proof (induction w arbitrary: q)
  case (Cons c w)
  have "lex_step (LOut d) c = LOut d" if "is_ws c" using lex_plain_run [of "[c]"] is_ws_plain [OF that] by simp
  with Cons have "at_value d (lex_step q c)" unfolding at_value_def by (elim disjE) (simp_all del: lex_step.simps(1))
  then show ?case using Cons by simp
qed simp

lemma at_value_separator:
  assumes "at_value (Suc d) q"
  shows "lex_step q (CHR '','') = LOut (Suc d)" "lex_step q (CHR '':'') = LOut (Suc d)"
    "lex_step q (CHR ''}'') = LAfter d" "lex_step q (CHR '']'') = LAfter d"
  using assms unfolding at_value_def by (elim disjE; simp add: is_ws_def)+

lemma skip_ws_split: obtains w where "s = w @ skip_ws s" "list_all is_ws w"
  unfolding skip_ws_def by (metis takeWhile_dropWhile_id list_all_iff set_takeWhileD)

lemma scan_string_lex: "scan_string s = Some (a, r) \<Longrightarrow> \<exists>w. s = w @ r \<and> (\<forall>d. lex_run (LStr d) w = LAfter d)"
proof (induction s arbitrary: a rule: scan_string.induct)
  case (2 c s)
  have lift: ?case if u: "s = u @ s'" and ih: "\<exists>w. s' = w @ r \<and> (\<forall>d. lex_run (LStr d) w = LAfter d)"
    and stay: "\<forall>d. lex_run (LStr d) (c # u) = LStr d" for u s'
  proof -
    obtain w where "s' = w @ r" "\<forall>d. lex_run (LStr d) w = LAfter d" using ih by blast
    with u stay show ?thesis by (intro exI [of _ "c # u @ w"]) simp
  qed
  show ?case
  proof (cases "c = CHR 0x5C")
    case True
    obtain e t where s: "s = e # t" using 2(4) True by (cases s) simp_all
    show ?thesis
    proof (cases "e \<in> set [CHR 0x22, CHR 0x5C, CHR ''/'', CHR ''b'', CHR ''f'', CHR ''n'', CHR ''r'', CHR ''t'']")
      case esc: True
      then obtain b where "scan_string t = Some (b, r)" using 2(4) by (auto simp: True s consed_Some simp del: list.set)
      then show ?thesis using 2(1) [OF _ True s esc] True by (intro lift [of "[e]" t]) (simp_all add: s)
    next
      case False
      then have e: "e = CHR ''u''" using 2(4) by (simp add: True s del: list.set split: if_splits)
      obtain h1 h2 h3 h4 u where t: "t = h1 # h2 # h3 # h4 # u"
        using 2(4) by (auto simp: True s e split: list.splits)
      have h: "is_hex h1" "is_hex h2" "is_hex h3" "is_hex h4"
        using 2(4) by (simp_all add: True s e t split: if_splits)
      then obtain b where b: "scan_string u = Some (b, r)" using 2(4) by (auto simp: True s e t consed_Some)
      have stay: "lex_step (LStr d) x = LStr d" if "is_hex x" for x d
        using that by (auto simp: is_hex_def hex_val_def)
      have "\<exists>w. u = w @ r \<and> (\<forall>d. lex_run (LStr d) w = LAfter d)"
        using 2(2) [OF _ True s False e t] h b True by simp
      then show ?thesis
        using True stay h by (intro lift [of "CHR ''u'' # [h1, h2, h3, h4]" u]) (simp_all add: s e t del: lex_step.simps(3), simp)
    qed
  next
    case False
    show ?thesis
    proof (cases "c = CHR 0x22")
      case True
      then show ?thesis using 2(4) by (intro exI [of _ "[c]"]) simp
    next
      case plain: False
      then obtain b where b: "scan_string s = Some (b, r)" "\<not> byte_of c < 32"
        using 2(4) False by (auto simp: consed_Some split: if_splits)
      then show ?thesis using 2(3) [OF plain False b(2,1)] plain False by (intro lift [of "[]" s]) simp_all
    qed
  qed
qed simp

lemma scan_number_lex: "scan_number s = Some (a, r) \<Longrightarrow> s = a @ r \<and> list_all lex_plain a"
proof -
  have c: "lex_plain (CHR ''-'')" "lex_plain (CHR ''+'')" "lex_plain (CHR ''.'')" "lex_plain (CHR ''0'')" "lex_plain (CHR ''e'')"
    "lex_plain (CHR ''E'')" by (simp_all add: lex_plain_def)
  have d: "is_digit x \<Longrightarrow> lex_plain x" for x by (auto simp: is_digit_def lex_plain_def)
  then have tw: "list_all lex_plain (takeWhile is_digit x)" for x by (auto simp: list_all_iff dest: set_takeWhileD)
  have dig: "num_digits x = Some (b, q) \<Longrightarrow> x = b @ q \<and> list_all lex_plain b" for x b q
    using tw by (auto simp: num_digits_def split: if_splits)
  have i: "num_int x = Some (b, q) \<Longrightarrow> x = b @ q \<and> list_all lex_plain b" for x b q
    using tw [of x] c takeWhile_dropWhile_id [of is_digit x] by (cases x) (auto simp: num_int_def simp del: takeWhile_dropWhile_id split: if_splits)
  have f: "num_frac x = Some (b, q) \<Longrightarrow> x = b @ q \<and> list_all lex_plain b" for x b q
    using c by (cases x) (auto simp: num_frac_def consed_Some dest!: dig split: if_splits)
  have e: "num_exp x = Some (b, q) \<Longrightarrow> x = b @ q \<and> list_all lex_plain b" for x b q
    using c by (cases x) (auto simp: num_exp_def consed_Some dest!: dig split: if_splits list.splits)
  have abs: "num_abs x = Some (b, q) \<Longrightarrow> x = b @ q \<and> list_all lex_plain b" for x b q
    by (auto simp: num_abs_def consed_Some bind_eq_Some_conv dest!: i f e)
  assume "scan_number s = Some (a, r)"
  then show ?thesis using abs [of s] abs [of "tl s"] c by (cases s) (auto simp: scan_number_def consed_Some split: if_splits)
qed

lemma scan_word_lex: "scan_word x v s = Some (v', r) \<Longrightarrow> s = x @ r"
  by (auto simp: scan_word_def split: if_splits) (metis append_take_drop_id)

text \<open>
  A value leaves the automaton at the same depth; the rest of a container, with its closing
  bracket, one level further out.
\<close>

definition value_text :: "string \<Rightarrow> bool" where
  "value_text w \<longleftrightarrow> (\<forall>d. at_value d (lex_run (LOut d) w))"

definition tail_text :: "string \<Rightarrow> bool" where
  "tail_text w \<longleftrightarrow> (\<forall>d. lex_run (LOut (Suc d)) w = LAfter d)"

lemma lex_ws: "list_all is_ws u \<Longrightarrow> lex_run (LOut d) u = LOut d" "list_all is_ws u \<Longrightarrow> lex_run (LAfter d) u = LAfter d"
proof -
  show "list_all is_ws u \<Longrightarrow> lex_run (LOut d) u = LOut d" by (rule lex_plain_run) (auto simp: list_all_iff is_ws_plain)
  show "list_all is_ws u \<Longrightarrow> lex_run (LAfter d) u = LAfter d" by (induction u) simp_all
qed

lemma value_text_ws:
  assumes "value_text w" and "list_all is_ws u"
  shows "value_text (u @ w)" and "value_text (w @ u)"
  using assms at_value_ws [OF _ assms(2)] by (simp_all add: value_text_def lex_ws(1))

lemma tail_text_comma:
  assumes "value_text w" and "tail_text w'"
  shows "tail_text (w @ CHR '','' # w')"
proof -
  have "lex_step (lex_run (LOut (Suc d)) w) (CHR '','') = LOut (Suc d)" for d
    using assms(1) by (intro at_value_separator(1)) (simp add: value_text_def)
  then show ?thesis using assms(2) by (simp add: tail_text_def)
qed

lemma tail_text_close:
  assumes "value_text w" and "c = CHR '']'' \<or> c = CHR ''}''"
  shows "tail_text (w @ [c])"
  using assms at_value_separator(3,4) unfolding value_text_def tail_text_def by auto

lemma value_text_open:
  assumes "tail_text w" and "c = CHR ''['' \<or> c = CHR ''{''"
  shows "value_text (c # w)"
  using assms unfolding value_text_def tail_text_def by (auto simp: at_value_def)

text \<open>A member of an object: its name, a colon and its value.\<close>

lemma value_text_member:
  assumes "\<forall>d. lex_run (LStr d) k = LAfter d" and "list_all is_ws u" and "value_text w"
  shows "tail_text (w @ z) \<Longrightarrow> tail_text (CHR 0x22 # k @ u @ CHR '':'' # w @ z)"
proof -
  have "lex_step (LAfter (Suc d)) (CHR '':'') = LOut (Suc d)" for d by (simp add: is_ws_def)
  then show "tail_text (w @ z) \<Longrightarrow> tail_text (CHR 0x22 # k @ u @ CHR '':'' # w @ z)"
    using assms(1,2) by (simp add: tail_text_def lex_ws(2) del: lex_step.simps(2))
qed

lemma value_text_empty: "list_all is_ws u \<Longrightarrow> c = CHR '']'' \<or> c = CHR ''}'' \<Longrightarrow> tail_text (u @ [c])"
  using tail_text_close [of "u" c] value_text_ws(1) [of "[]" u] by (simp add: value_text_def at_value_def)

lemma skip_ws_prefix: "skip_ws s = c # t \<Longrightarrow> \<exists>u. s = u @ c # t \<and> list_all is_ws u"
  using skip_ws_split [of s] by metis


text \<open>The parts of the scanner, given what the calls one level down take from their input.\<close>

lemma container_lex:
  assumes "c = CHR ''['' \<or> c = CHR ''{''" and "close = CHR '']'' \<or> close = CHR ''}''" and "skip_ws t = e # u"
    and "if e = close then r = u else \<exists>w. t = w @ r \<and> tail_text w"
  shows "\<exists>w. c # t = w @ r \<and> value_text w"
proof -
  obtain z where z: "t = z @ e # u" "list_all is_ws z" using skip_ws_prefix [OF assms(3)] by blast
  have "\<exists>w. t = w @ r \<and> tail_text w"
    using assms(2,4) z value_text_empty [of z e] by (cases "e = close") (auto intro!: exI [of _ "z @ [e]"])
  then show ?thesis using assms(1) value_text_open by (metis append_Cons)
qed

lemma scan_value_lex:
  assumes "scan_value (Suc n) d s = Some (v, r)"
    and elems: "\<And>s vs r. scan_elems n (d + 1) s = Some (vs, r) \<Longrightarrow> \<exists>w. s = w @ r \<and> tail_text w"
    and members: "\<And>s ms r. scan_members n (d + 1) s = Some (ms, r) \<Longrightarrow> \<exists>w. s = w @ r \<and> tail_text w"
  shows "\<exists>w. s = w @ r \<and> value_text w"
proof -
  obtain c t where s: "s = c # t" using assms(1) by (cases s) auto
  have plain: "\<exists>w. s = w @ r \<and> value_text w" if "list_all lex_plain x" "s = x @ r" for x
    using that lex_plain_run by (auto simp: value_text_def at_value_def)
  have word: "\<exists>w. s = w @ r \<and> value_text w" if "scan_word x v' s = Some (v, r)" "list_all lex_plain x" for x v'
    using plain [OF that(2) scan_word_lex [OF that(1)]] .
  consider (str) "c = CHR 0x22" | (arr) "c = CHR ''[''" | (obj) "c = CHR ''{''"
    | (other) "c \<noteq> CHR 0x22" "c \<noteq> CHR ''[''" "c \<noteq> CHR ''{''" by blast
  then show ?thesis
  proof cases
    case str
    then obtain a where "scan_string t = Some (a, r)" using assms(1) s by auto
    then obtain w where "t = w @ r" "\<forall>d. lex_run (LStr d) w = LAfter d" using scan_string_lex by blast
    then show ?thesis using s str by (intro exI [of _ "c # w"]) (simp add: value_text_def at_value_def)
  next
    case arr
    obtain e u where e: "skip_ws t = e # u" using assms(1) s arr by (auto split: if_splits list.splits)
    show ?thesis unfolding s
      by (rule container_lex [OF _ _ e, of c "CHR '']''"]) (use arr assms(1) s e elems in \<open>auto split: if_splits\<close>)
  next
    case obj
    obtain e u where e: "skip_ws t = e # u" using assms(1) s obj by (auto split: if_splits list.splits)
    show ?thesis unfolding s
      by (rule container_lex [OF _ _ e, of c "CHR ''}''"]) (use obj assms(1) s e members in \<open>auto split: if_splits\<close>)
  next
    case other
    then consider (tru) "scan_word ''true'' (jvalue.VBool True) s = Some (v, r)" | (fls) "scan_word ''false'' (jvalue.VBool False) s = Some (v, r)"
      | (nul) "scan_word ''null'' VNull s = Some (v, r)" | (num) a where "scan_number s = Some (a, r)"
      using assms(1) by (simp add: s split: if_splits) blast
    then show ?thesis
    proof cases
      case num
      then show ?thesis using scan_number_lex [of s] plain by blast
    qed (auto intro!: word simp: lex_plain_def)
  qed
qed

lemma scan_elems_lex:
  assumes "scan_elems (Suc n) d s = Some (vs, r)"
    and "\<And>s v r. scan_value n d s = Some (v, r) \<Longrightarrow> \<exists>w. s = w @ r \<and> value_text w"
    and elems: "\<And>s vs r. scan_elems n d s = Some (vs, r) \<Longrightarrow> \<exists>w. s = w @ r \<and> tail_text w"
  shows "\<exists>w. s = w @ r \<and> tail_text w"
proof -
  obtain v r1 c t where v: "scan_value n d (skip_ws s) = Some (v, r1)" and c: "skip_ws r1 = c # t"
    using assms(1) by (auto split: option.splits prod.splits list.splits)
  obtain w where w: "skip_ws s = w @ r1" "value_text w" using assms(2) [OF v] by blast
  obtain z where z: "s = z @ skip_ws s" "list_all is_ws z" by (rule skip_ws_split)
  obtain y where y: "r1 = y @ c # t" "list_all is_ws y" using skip_ws_prefix [OF c] by blast
  have val: "value_text (z @ w @ y)" using w(2) z(2) y(2) value_text_ws by metis
  have s: "s = (z @ w @ y) @ c # t" using z(1) w(1) y(1) by simp
  show ?thesis
  proof (cases "c = CHR '',''")
    case True
    then obtain vs' where "scan_elems n d t = Some (vs', r)" using assms(1) v c by auto
    then obtain x where "t = x @ r" "tail_text x" using elems by blast
    then show ?thesis using tail_text_comma [OF val] s True by (metis append.assoc append_Cons)
  next
    case False
    then have "c = CHR '']''" "r = t" using assms(1) v c by (auto split: if_splits)
    then show ?thesis using tail_text_close [OF val] s by (metis append.assoc append_Cons append_Nil)
  qed
qed

lemma scan_members_lex:
  assumes "scan_members (Suc n) d s = Some (ms, r)"
    and "\<And>s v r. scan_value n d s = Some (v, r) \<Longrightarrow> \<exists>w. s = w @ r \<and> value_text w"
    and members: "\<And>s ms r. scan_members n d s = Some (ms, r) \<Longrightarrow> \<exists>w. s = w @ r \<and> tail_text w"
  shows "\<exists>w. s = w @ r \<and> tail_text w"
proof -
  obtain r0 k r1 r2 v r3 c t where q: "skip_ws s = CHR 0x22 # r0" and k: "scan_string r0 = Some (k, r1)"
    and p: "skip_ws r1 = CHR '':'' # r2" and v: "scan_value n d (skip_ws r2) = Some (v, r3)" and c: "skip_ws r3 = c # t"
    using assms(1) by (auto split: option.splits prod.splits list.splits if_splits)
  obtain z where z: "s = z @ CHR 0x22 # r0" "list_all is_ws z" using skip_ws_prefix [OF q] by blast
  obtain a where a: "r0 = a @ r1" "\<forall>d. lex_run (LStr d) a = LAfter d" using scan_string_lex [OF k] by blast
  obtain y where y: "r1 = y @ CHR '':'' # r2" "list_all is_ws y" using skip_ws_prefix [OF p] by blast
  obtain b where b: "r2 = b @ skip_ws r2" "list_all is_ws b" by (rule skip_ws_split)
  obtain w where w: "skip_ws r2 = w @ r3" "value_text w" using assms(2) [OF v] by blast
  obtain x where x: "r3 = x @ c # t" "list_all is_ws x" using skip_ws_prefix [OF c] by blast
  have val: "value_text (b @ w @ x)" using w(2) b(2) x(2) value_text_ws by metis
  have s: "s = z @ CHR 0x22 # a @ y @ CHR '':'' # (b @ w @ x) @ c # t"
    using z(1) a(1) y(1) b(1) w(1) x(1) by simp
  have ends: ?thesis if "c # t = u @ r" "tail_text ((b @ w @ x) @ u)" for u
  proof -
    have "tail_text (CHR 0x22 # a @ y @ CHR '':'' # (b @ w @ x) @ u)" by (rule value_text_member [OF a(2) y(2) val that(2)])
    then have "tail_text (z @ CHR 0x22 # a @ y @ CHR '':'' # (b @ w @ x) @ u)" using z(2) by (simp add: tail_text_def lex_ws(1))
    then show ?thesis using s that(1) by (intro exI [of _ "z @ CHR 0x22 # a @ y @ CHR '':'' # (b @ w @ x) @ u"]) simp
  qed
  show ?thesis
  proof (cases "c = CHR '',''")
    case True
    then obtain ms' where "scan_members n d t = Some (ms', r)" using assms(1) q k p v c by auto
    then obtain u where "t = u @ r" "tail_text u" using members by blast
    then show ?thesis using tail_text_comma [OF val] True by (intro ends [of "c # u"]) simp_all
  next
    case False
    then have "c = CHR ''}''" "r = t" using assms(1) q k p v c by (auto split: if_splits)
    then show ?thesis using tail_text_close [OF val] by (intro ends [of "[c]"]) simp_all
  qed
qed

lemma scan_lex:
  "scan_value n d s = Some (v, r) \<Longrightarrow> \<exists>w. s = w @ r \<and> value_text w"
  "scan_elems n d s = Some (vs, r) \<Longrightarrow> \<exists>w. s = w @ r \<and> tail_text w"
  "scan_members n d s = Some (ms, r) \<Longrightarrow> \<exists>w. s = w @ r \<and> tail_text w"
proof (induction n arbitrary: d s v vs ms r)
  case (Suc n)
  {
    case 1
    then show ?case using Suc.IH(2,3) by (rule scan_value_lex)
  next
    case 2
    then show ?case using Suc.IH(1,2) by (rule scan_elems_lex)
  next
    case 3
    then show ?case using Suc.IH(1,3) by (rule scan_members_lex)
  }
qed simp_all

lemma parse_json_lex:
  assumes "parse_json s = Some v"
  shows "at_value d (lex_run (LOut d) s)"
proof -
  obtain r where r: "scan_value (2 * length s + 1) 0 (skip_ws s) = Some (v, r)" "skip_ws r = []"
    using assms by (auto simp: parse_json_def split: option.splits if_splits)
  obtain w where w: "skip_ws s = w @ r" "value_text w" using scan_lex(1) [OF r(1)] by blast
  obtain z where z: "s = z @ skip_ws s" "list_all is_ws z" by (rule skip_ws_split)
  have "list_all is_ws r" using r(2) by (simp add: skip_ws_def list_all_iff dropWhile_eq_Nil_conv)
  then have "value_text (z @ w @ r)" using w(2) z(2) value_text_ws by metis
  then show ?thesis using z(1) w(1) by (simp add: value_text_def)
qed

text \<open>
  An object that does not end before another begins, as the text of a frame does, is not a
  JSON text: either it is inside a string, which the first quote of the frame closes too
  early, or a bracket stays open, or the frame follows a complete value.
\<close>

lemma lex_not_start: "q \<noteq> LOut 0 \<Longrightarrow> lex_run q w \<noteq> LOut 0"
proof (induction w arbitrary: q)
  case (Cons c w)
  have "lex_step q c \<noteq> LOut 0" using Cons.prems by (cases q) (simp_all split: nat.splits)
  then show ?case using Cons.IH by simp
qed simp

lemma lex_dead: "lex_run LDead w = LDead"
  by (induction w) simp_all

lemma glued_not_json:
  assumes t: "t = CHR ''{'' # CHR 0x22 # c # u" "parse_json t = Some v"
    and c: "\<not> is_ws c" "c \<notin> {CHR '','', CHR '':'', CHR ''}'', CHR '']''}"
  shows "parse_json (CHR ''{'' # x @ t) = None"
proof (rule ccontr)
  assume "\<not> ?thesis"
  then have ok: "at_value 0 (lex_run (lex_run (LOut 0) (CHR ''{'' # x)) t)"
    using parse_json_lex [of "CHR ''{'' # x @ t" _ 0] by (auto simp: foldl_append)
  have after: "lex_step (LAfter d) c = LDead" for d using c by (simp split: nat.split)
  have "lex_run (LOut 0) (CHR ''{'' # x) \<noteq> LOut 0" using lex_not_start [of "LOut (Suc 0)" x] by simp
  then show False
  proof (cases "lex_run (LOut 0) (CHR ''{'' # x)")
    case (LOut d)
    then have "at_value d (lex_run (LOut d) t)" using parse_json_lex [OF t(2)] by blast
    with ok LOut \<open>lex_run (LOut 0) (CHR ''{'' # x) \<noteq> LOut 0\<close> show False by (auto simp: at_value_def)
  next
    case (LAfter d)
    have "lex_step (LAfter d) (CHR ''{'') = LDead" by (simp add: is_ws_def split: nat.split)
    with ok LAfter show False by (simp add: t(1) lex_dead at_value_def del: lex_step.simps(2))
  next
    case (LStr d)
    with ok after show False by (simp add: t(1) lex_dead at_value_def del: lex_step.simps(2))
  next
    case (LEsc d)
    with ok after show False by (simp add: t(1) lex_dead at_value_def del: lex_step.simps(2))
  next
    case LDead
    with ok show False by (simp add: lex_dead at_value_def)
  qed
qed

end
