(* ===== verification/Audit_Torn.thy ===== *)
theory Audit_Torn
  imports Audit_Reconciler Go_Json_Lex
begin

text \<open>
  What a write that was cut inside a line does to the audit log: the bytes a commit appends
  to each file, the unfinished line it may leave, and how the reader and the start-up run
  see the log after the next commit to the same file.
\<close>

section \<open>The bytes a commit appends\<close>

text \<open>
  To the file of each day a commit appends a prefix of the encoded frames of that day, all
  of it when it succeeds.
\<close>

lemma flush_groups_bytes:
  assumes "flush_groups us io k gs dir = (e, dir')" and "distinct (map fst gs)"
  shows "\<exists>d. file_bytes dir' n = file_bytes dir n @ d
    \<and> (d = [] \<and> (e = None \<longrightarrow> group_of gs n = []) \<or> (\<exists>buf m. encodeFrames us (group_of gs n) = Inr buf \<and> d = take m buf \<and> (e = None \<longrightarrow> d = buf)))"
  using assms
proof (induction gs arbitrary: k dir)
  case (Cons g gs)
  obtain name xs where g: "g = (name, xs)" by (cases g)
  have fresh: "group_of gs name = []" using Cons.prems(2) g by (intro group_of_fresh) simp
  show ?case
  proof (cases "encodeFrames us xs")
    case (Inl x)
    then show ?thesis using Cons.prems(1) g by auto
  next
    case (Inr buf)
    have stop: ?thesis if "e = Some x" "dir' = append_file name (take m buf) dir" for x m
      using that Inr by (cases "n = name") (auto simp: g group_of_Cons)
    have stay: ?thesis if "e = Some x" "dir' = dir" for x using that by auto
    have whole: "append_file name buf dir = append_file name (take (length buf) buf) dir" by simp
    show ?thesis
    proof (cases "io k")
      case AppendOk
      then have "flush_groups us io (Suc k) gs (append_file name buf dir) = (e, dir')"
        using Cons.prems(1) g Inr by (simp add: appendAndSync_def)
      from Cons.IH [OF this] Cons.prems(2) g obtain d where d: "file_bytes dir' n = file_bytes (append_file name buf dir) n @ d"
        "d = [] \<and> (e = None \<longrightarrow> group_of gs n = []) \<or> (\<exists>buf m. encodeFrames us (group_of gs n) = Inr buf \<and> d = take m buf \<and> (e = None \<longrightarrow> d = buf))"
        by auto
      show ?thesis
      proof (cases "n = name")
        case True
        then have "d = []" using d(2) fresh by auto
        then show ?thesis using True d(1) Inr by (intro exI [of _ buf]) (auto simp: g group_of_Cons intro!: exI [of _ "length buf"])
      next
        case False
        then show ?thesis using d by (auto simp: g group_of_Cons)
      qed
    next
      case OpenFails
      then show ?thesis using Cons.prems(1) g Inr by (intro stay [of WalOS]) (auto simp: appendAndSync_def)
    next
      case (WriteFails m)
      then show ?thesis using Cons.prems(1) g Inr by (intro stop [of WalOS m]) (auto simp: appendAndSync_def)
    next
      case SyncFails
      then show ?thesis using Cons.prems(1) g Inr by (intro stop [of WalOS "length buf"]) (auto simp: appendAndSync_def)
    next
      case CloseFails
      then show ?thesis using Cons.prems(1) g Inr by (intro stop [of WalOS "length buf"]) (auto simp: appendAndSync_def)
    qed
  qed
qed (simp add: group_of_def)

lemma Batch_Commit_bytes:
  assumes "Batch_Commit us io c b dir = (e, b', dir')"
  shows "\<exists>buf m. file_bytes dir' n = file_bytes dir n @ take m buf
    \<and> (take m buf \<noteq> [] \<or> e = None \<longrightarrow> encodeFrames us (frames_for n (b_frames b)) = Inr buf) \<and> (e = None \<longrightarrow> take m buf = buf)"
proof -
  consider (same) "dir' = dir" "e = None \<Longrightarrow> b_frames b = []" | (flush) "flush_groups us io 0 (group_frames (b_frames b)) dir = (e, dir')"
    using assms by (auto simp: Batch_Commit_def Let_def wal_flush_def split: if_splits prod.splits)
  then show ?thesis
  proof cases
    case same
    then show ?thesis by (intro exI [of _ "[]"]) (auto simp: frames_for_def)
  next
    case flush
    have "distinct (map fst (group_frames (b_frames b)))" using groups_ok_group_frames [of "b_frames b"] by (simp add: groups_ok_def)
    from flush_groups_bytes [OF flush this, of n] obtain d where d: "file_bytes dir' n = file_bytes dir n @ d"
      "d = [] \<and> (e = None \<longrightarrow> frames_for n (b_frames b) = [])
       \<or> (\<exists>buf m. encodeFrames us (frames_for n (b_frames b)) = Inr buf \<and> d = take m buf \<and> (e = None \<longrightarrow> d = buf))"
      unfolding group_of_group_frames by blast
    from d(2) show ?thesis
    proof (elim disjE conjE exE)
      assume "d = []" "e = None \<longrightarrow> frames_for n (b_frames b) = []"
      then show ?thesis using d(1) by (intro exI [of _ "[]"]) auto
    next
      fix buf m
      assume "encodeFrames us (frames_for n (b_frames b)) = Inr buf" "d = take m buf" "e = None \<longrightarrow> d = buf"
      then show ?thesis using d(1) by (intro exI [of _ buf] exI [of _ m]) auto
    qed
  qed
qed


section \<open>A torn line\<close>

text \<open>What follows the last line end of a file.\<close>

definition torn_tail :: "string \<Rightarrow> string" where
  "torn_tail s = rev (takeWhile (\<lambda>c. c \<noteq> CHR 0x0A) (rev s))"

lemma torn_tail_append:
  assumes "CHR 0x0A \<notin> set z" and "p = [] \<or> last p = CHR 0x0A"
  shows "torn_tail (p @ z) = z"
proof -
  have "takeWhile (\<lambda>c. c \<noteq> CHR 0x0A) (rev z @ rev p) = rev z"
    using assms line_split(1,3) [of "rev z"] by (cases p rule: rev_cases) simp_all
  then show ?thesis by (simp add: torn_tail_def)
qed

lemma readFrames_clean_last: "readFrames fs False out s = (frames, None) \<Longrightarrow> s = [] \<or> last s = CHR 0x0A"
proof (induction "length s" arbitrary: out s rule: less_induct)
  case less
  show ?case
  proof (cases s rule: first_line)
    case last
    then show ?thesis using readFrames_partial [of s fs out] less.prems by (cases "s = []") auto
  next
    case (line l t)
    have "\<exists>out'. readFrames fs False out' t = (frames, None)"
      using less.prems readFrames_line [OF line(2), of fs False out t]
      by (cases "l = []") (auto simp: line(1) readFrames_blank split: if_splits option.splits)
    then have "t = [] \<or> last t = CHR 0x0A" using less.hyps [of t] line(1) by auto
    then show ?thesis using line(1) by (cases "t = []") auto
  qed
qed

text \<open>A write that was cut short: complete lines and the beginning of one more.\<close>

definition cut_line :: "string \<Rightarrow> bool" where
  "cut_line z \<longleftrightarrow> z = [] \<or> (\<exists>x. z = CHR ''{'' # x) \<and> CHR 0x0A \<notin> set z \<and> int (length z) \<le> MaxFrameSize"

lemma readFrames_cut:
  assumes "uuid_text us fs" and "list_all (\<lambda>f. Validate f = None) frames" and "encodeFrames us frames = Inr buf"
  shows "\<exists>a z k. take n buf = a @ z \<and> cut_line z \<and> readFrames fs False out a = (out @ take k frames, None)"
  using assms(2,3)
proof (induction frames arbitrary: out buf n)
  case (Cons f frames)
  obtain s rest where s: "marshal_frame us f = Some s" "int (length s) + 1 \<le> MaxFrameSize"
      "encodeFrames us frames = Inr rest" "buf = s @ CHR 0x0A # rest"
    using Cons.prems(2) by (auto simp: bindE_Inr split: option.splits if_splits)
  have ne: "s \<noteq> []" and nl: "CHR 0x0A \<notin> set s" using marshal_frame_line [OF s(1)] by auto
  show ?case
  proof (cases "n \<le> length s")
    case True
    have "cut_line (take n s)"
      using marshal_frame_line [OF s(1)] s(2) by (cases n) (auto simp: cut_line_def dest: in_set_takeD)
    then show ?thesis using True s(4) by (intro exI [of _ "[]"] exI [of _ "take n s"] exI [of _ 0]) simp
  next
    case False
    then obtain m where m: "n = Suc (length s + m)" by (metis less_iff_Suc_add not_le)
    have t: "take n buf = s @ CHR 0x0A # take m rest" using m s(4) by (simp add: take_Cons')
    obtain a z k where a: "take m rest = a @ z" "cut_line z" "readFrames fs False (out @ [f]) a = ((out @ [f]) @ take k frames, None)"
      using Cons.IH [OF _ s(3), of m "out @ [f]"] Cons.prems(1) by auto
    have "readFrames fs False out (s @ CHR 0x0A # a) = (out @ take (Suc k) (f # frames), None)"
      unfolding readFrames_line [OF nl ne] using frame_roundtrip [OF assms(1) _ s(1)] Cons.prems(1) s(2) a(3) by simp
    then show ?thesis using a(1,2) t
      by (intro exI [of _ "s @ CHR 0x0A # a"] exI [of _ z] exI [of _ "Suc k"]) simp
  qed
qed (auto simp: cut_line_def)

text \<open>Frames appended to a cut line: the first of them is glued to it and nothing more is read.\<close>

lemma glued_frame:
  assumes "uuid_text us fs" and "Validate g = None" and "marshal_frame us g = Some t"
  shows "unmarshal_frame fs ((CHR ''{'' # x) @ t) = None"
proof -
  have "unmarshal_frame fs t = Some g" by (rule frame_roundtrip [OF assms])
  then obtain v where v: "parse_json t = Some v" by (auto simp: unmarshal_frame_def bind_eq_Some_conv)
  have "\<exists>u. t = CHR ''{'' # CHR 0x22 # CHR ''f'' # u"
    using assms(3) json_escape_plain [of "''frame_id''"]
    by (auto simp: marshal_frame_def frame_value_def unsigned_fields_def jstruct_def plain_char_def)
  then obtain u where u: "t = CHR ''{'' # CHR 0x22 # CHR ''f'' # u" by blast
  have "parse_json (CHR ''{'' # x @ t) = None" by (rule glued_not_json [OF u v]) (simp_all add: is_ws_def)
  then show ?thesis by (simp add: unmarshal_frame_def)
qed


lemma readFrames_glued:
  assumes "uuid_text us fs" and "list_all (\<lambda>f. Validate f = None) frames" and "encodeFrames us frames = Inr buf"
    and p: "readFrames fs False [] p = (out, None)" and z: "cut_line z"
  shows "readFrames fs False [] ((p @ z) @ buf) =
    (if z = [] then (out @ frames, None)
     else
       (case frames of
          [] \<Rightarrow> (out, Some ErrTrailingPartialFrame)
        | g # _ \<Rightarrow>
            (out, Some (if int (length z + length (the (marshal_frame us g))) > MaxFrameSize then ErrFrameSizeExceeded
                        else WalParse))))"
proof (cases "z = []")
  case True
  then show ?thesis
    using readFrames_append [OF p, of buf] readFrames_frames [OF assms(1-3), of False out "[]"] by simp
next
  case ne: False
  then obtain x where x: "z = CHR ''{'' # x" and nl: "CHR 0x0A \<notin> set z" and len: "int (length z) \<le> MaxFrameSize"
    using z by (auto simp: cut_line_def)
  have rd: "readFrames fs False [] ((p @ z) @ buf) = readFrames fs False out (z @ buf)"
    using readFrames_append [OF p, of "z @ buf"] by simp
  show ?thesis
  proof (cases frames)
    case Nil
    then show ?thesis using rd assms(3) readFrames_partial [OF nl ne, of fs out] ne len by simp
  next
    case (Cons g gs)
    obtain t rest where t: "marshal_frame us g = Some t" "buf = t @ CHR 0x0A # rest"
      using assms(3) Cons by (auto simp: bindE_Inr split: option.splits if_splits)
    have "CHR 0x0A \<notin> set (z @ t)" using nl marshal_frame_line(1) [OF t(1)] by simp
    moreover have "unmarshal_frame fs (z @ t) = None" using glued_frame [OF assms(1) _ t(1), of x] assms(2) Cons x by simp
    ultimately have "readFrames fs False out ((z @ t) @ CHR 0x0A # rest) =
        (out, Some (if int (length (z @ t)) > MaxFrameSize then ErrFrameSizeExceeded else WalParse))"
      using ne by (subst readFrames_line) simp_all
    then show ?thesis using rd ne t Cons by simp
  qed
qed

text \<open>Two commits, the first on a log without torn lines: what is then read of a day.\<close>

lemma two_commits:
  assumes ut: "uuid_text us fs" and clean: "clean_dir fs dir" and bs: "batch_inv b" "batch_inv b'"
    and one: "Batch_Commit us io c b dir = (e, b1, dir1)" and two: "Batch_Commit us io' c' b' dir1 = (None, b2, dir2)"
  obtains out z where "cut_line z" "torn_tail (file_bytes dir1 n) = z" "wal_log fs dir1 n = out"
    "readFrames fs False [] (file_bytes dir2 n) =
      (if z = [] then (out @ frames_for n (b_frames b'), None)
       else
         (case frames_for n (b_frames b') of
            [] \<Rightarrow> (out, Some ErrTrailingPartialFrame)
          | g # _ \<Rightarrow>
              (out, Some (if int (length z + length (the (marshal_frame us g))) > MaxFrameSize then ErrFrameSizeExceeded
                          else WalParse))))"
proof -
  have valid: "list_all (\<lambda>f. Validate f = None) (frames_for n (b_frames x))" if "batch_inv x" for x
    using that by (auto simp: batch_inv_def frames_for_def list_all_iff)
  obtain buf m where buf: "file_bytes dir1 n = file_bytes dir n @ take m buf"
    "take m buf \<noteq> [] \<longrightarrow> encodeFrames us (frames_for n (b_frames b)) = Inr buf"
    using Batch_Commit_bytes [OF one, of n] by blast
  have p0: "readFrames fs False [] (file_bytes dir n) = (wal_log fs dir n, None)"
    using readFrames_log [of fs dir n] clean by (simp add: clean_dir_def)
  obtain a z out where az: "take m buf = a @ z" "cut_line z" "readFrames fs False (wal_log fs dir n) a = (out, None)"
  proof (cases "take m buf = []")
    case True
    then show thesis by (intro that [of "[]" "[]"]) (simp_all add: cut_line_def)
  next
    case False
    with buf(2) readFrames_cut [OF ut valid [OF bs(1)], of buf m "wal_log fs dir n"] that show thesis by blast
  qed
  let ?p = "file_bytes dir n @ a"
  have p: "readFrames fs False [] ?p = (out, None)" using readFrames_append [OF p0, of a] az(3) by simp
  have f1: "file_bytes dir1 n = ?p @ z" using buf(1) az(1) by simp
  have "CHR 0x0A \<notin> set z" using az(2) by (auto simp: cut_line_def)
  then have tail: "torn_tail (file_bytes dir1 n) = z"
    unfolding f1 by (rule torn_tail_append [OF _ readFrames_clean_last [OF p]])
  obtain buf' where buf': "file_bytes dir2 n = file_bytes dir1 n @ buf'" "encodeFrames us (frames_for n (b_frames b')) = Inr buf'"
    using Batch_Commit_bytes [OF two, of n] by auto
  have "fst (readFrames fs False [] (?p @ z)) = out"
    using readFrames_glued [OF ut _ _ p az(2), of "[]" "[]"] by (simp split: if_splits)
  then have "wal_log fs dir1 n = out" by (simp add: wal_log_def f1)
  then show ?thesis
    using that [OF az(2) tail] readFrames_glued [OF ut valid [OF bs(2)] buf'(2) p az(2)] buf'(1) f1 by simp
qed

lemma read_partitions_hard:
  assumes "\<forall>m \<in> set ns. map_of dir m \<noteq> None
      \<and> read_status fs dir m \<in> {None, Some ErrTrailingPartialFrame, Some ErrFrameSizeExceeded, Some WalParse}"
    and "n \<in> set ns" and "read_status fs dir n = Some WalParse"
  shows "snd (read_partitions fs (\<lambda>_. ReadOk) dir out w ns) = Some WalParse"
  using assms(1,2)
proof (induction ns arbitrary: out w)
  case (Cons m ns)
  then obtain b where b: "map_of dir m = Some b" by auto
  then have "ReadPartition fs ReadOk (map_of dir m) = (wal_log fs dir m, read_status fs dir m)"
    using readFrames_log [of fs dir m] by (simp add: ReadPartition_def file_bytes_def)
  moreover have "m = n \<Longrightarrow> read_status fs dir m = Some WalParse" using assms(3) by simp
  ultimately show ?case using Cons by auto
qed simp

lemma torn_read:
  assumes "uuid_text us fs" and "clean_dir fs dir" and "partition_dir dir" and "batch_inv b" and "batch_inv b'"
    and "Batch_Commit us io c b dir = (e, b1, dir1)" and "Batch_Commit us io' c' b' dir1 = (None, b2, dir2)"
    and "frames_for n (b_frames b') \<noteq> []" and "read_status fs dir2 n = Some WalParse"
  shows "snd (ReadAll fs (\<lambda>_. ReadOk) (DirFiles dir2)) = Some WalParse"
proof -
  note two = two_commits [OF assms(1,2,4,5,6,7)]
  have st: "read_status fs dir2 m \<in> {None, Some ErrTrailingPartialFrame, Some ErrFrameSizeExceeded, Some WalParse}" for m
    by (rule two [of m]) (simp add: read_status_def split: list.splits if_splits)
  have pd: "partition_dir dir1" using Batch_Commit_log(4) [OF assms(1,4,2,6,3)] .
  have "wal_flush us io' c' (b_frames b') dir1 = (None, dir2)"
    using assms(7,8) by (auto simp: Batch_Commit_def Let_def frames_for_def split: if_splits prod.splits)
  note names = wal_flush_names [OF this pd]
  have "n \<in> set (map fst dir2)" using names(2) assms(8) by (auto simp: frames_for_def filter_empty_conv)
  then show ?thesis
    unfolding ReadAll_def listing.case using st partition_files_set [OF names(1)] assms(9)
    by (intro read_partitions_hard [of _ _ _ n]) (auto simp: map_of_eq_None_iff)
qed

text \<open>
  C25. A torn line is not isolated. Let any commit on a log without torn lines leave the file
  of a day with an unfinished line, however many frames and days it has and wherever the
  write was cut, and let the next commit have frames of that day and report success. Then none
  of its frames of that day is read: the first is glued to the unfinished line. If the glued
  line fits the reader's buffer, the start-up run stops with a parse error before it replays
  a single row of any day.
\<close>

theorem torn_write_blocks_recovery:
  assumes "uuid_text us fs" and "clean_dir fs dir" and "partition_dir dir" and "staged us b" and "staged us b'"
    and "Batch_Commit us io c b dir = (e, b1, dir1)" and "torn_tail (file_bytes dir1 n) \<noteq> []"
    and "Batch_Commit us io' c' b' dir1 = (None, b2, dir2)"
    and "frames_for n (b_frames b') = g # gs" and "marshal_frame us g = Some t"
  shows "wal_log fs dir2 n = wal_log fs dir1 n
    \<and> (int (length (torn_tail (file_bytes dir1 n)) + length t) \<le> MaxFrameSize \<longrightarrow>
        Reconciler_Run us fs verify db (\<lambda>_. ReadOk) (\<lambda>_. Live) (DirFiles dir2) s = (Some (RecRead WalParse), zero_Stats, s))"
proof (intro conjI impI)
  note inv = staged_inv [OF assms(4)] staged_inv [OF assms(5)]
  have rd: "readFrames fs False [] (file_bytes dir2 n) =
      (wal_log fs dir1 n, Some (if int (length (torn_tail (file_bytes dir1 n)) + length t) > MaxFrameSize
                                then ErrFrameSizeExceeded else WalParse))"
    by (rule two_commits [OF assms(1,2) inv assms(6,8), of n]) (use assms(7,9,10) in simp)
  then show "wal_log fs dir2 n = wal_log fs dir1 n" by (simp add: wal_log_def)
  assume "int (length (torn_tail (file_bytes dir1 n)) + length t) \<le> MaxFrameSize"
  then have "read_status fs dir2 n = Some WalParse" using rd by (simp add: read_status_def)
  then obtain frames where "ReadAll fs (\<lambda>_. ReadOk) (DirFiles dir2) = (frames, Some WalParse)"
    using torn_read [OF assms(1-3) inv assms(6,8)] assms(9) by (metis list.distinct(1) prod.collapse)
  then show "Reconciler_Run us fs verify db (\<lambda>_. ReadOk) (\<lambda>_. Live) (DirFiles dir2) s = (Some (RecRead WalParse), zero_Stats, s)"
    by (simp add: Reconciler_Run_phases read_warning_def)
qed


section \<open>A concrete torn log\<close>

text \<open>A batch of two frames, cut in the second, and a later batch of the same day.\<close>

definition ex_torn_batch :: TxBatch where
  "ex_torn_batch = \<lparr>b_frames = [ex_frame 5, ex_frame 7], finalised = False\<rparr>"

definition ex_torn_dir :: wal_dir where
  "ex_torn_dir = snd (snd (Batch_Commit hex_us (\<lambda>_. WriteFails 350) Live ex_torn_batch []))"

lemma ex_torn_tail:
  defines "tail \<equiv> torn_tail (file_bytes ex_torn_dir (partition_name (WrittenAt (ex_frame 6))))"
  shows "tail \<noteq> []" and "length tail + length (the (marshal_frame hex_us (ex_frame 6))) \<le> 1000"
    and "tail \<noteq> file_bytes ex_torn_dir (partition_name (WrittenAt (ex_frame 6)))"
  unfolding tail_def by code_simp+

lemma ex_torn_staged: "staged hex_us ex_torn_batch" "staged hex_us (ex_batch 6)"
proof -
  have v: "Validate (ex_frame 5) = None" "Validate (ex_frame 6) = None" "Validate (ex_frame 7) = None" by code_simp+
  have "staged hex_us (snd (Stage (ex_frame 7) (snd (Stage (ex_frame 5) NewTxBatch))))" by (intro staged.intros)
  then show "staged hex_us ex_torn_batch" using v by (simp add: Stage_def NewTxBatch_def ex_torn_batch_def)
  have "staged hex_us (snd (Stage (ex_frame 6) NewTxBatch))" by (intro staged.intros)
  then show "staged hex_us (ex_batch 6)" using v by (simp add: Stage_def NewTxBatch_def ex_batch_def)
qed

lemma ex_torn_next:
  obtains t b2 dir2 where "marshal_frame hex_us (ex_frame 6) = Some t"
    "Batch_Commit hex_us (\<lambda>_. AppendOk) Live (ex_batch 6) ex_torn_dir = (None, b2, dir2)"
proof -
  have "fst (Batch_Commit hex_us (\<lambda>_. AppendOk) Live (ex_batch 6) []) = None" by code_simp
  then obtain t where t: "marshal_frame hex_us (ex_frame 6) = Some t" "int (length t) + 1 \<le> MaxFrameSize"
    unfolding ex_batch_def
    by (auto simp: Batch_Commit_def wal_flush_def group_frames_def bindE_def Let_def split: option.splits if_splits prod.splits)
  then have "fst (Batch_Commit hex_us (\<lambda>_. AppendOk) Live (ex_batch 6) ex_torn_dir) = None"
    by (auto simp: ex_batch_def Batch_Commit_def wal_flush_def group_frames_def bindE_def appendAndSync_def)
  then show ?thesis using that t(1) by (metis prod.collapse)
qed

theorem torn_write_blocks_recovery_witness:
  "\<exists>b2 dir2. Batch_Commit hex_us (\<lambda>_. AppendOk) Live (ex_batch 6) ex_torn_dir = (None, b2, dir2)
     \<and> wal_log hex_fs dir2 (partition_name (WrittenAt (ex_frame 6))) = wal_log hex_fs ex_torn_dir (partition_name (WrittenAt (ex_frame 6)))
     \<and> Reconciler_Run hex_us hex_fs ex_wal_verify (\<lambda>_ _ _. ExecOk) (\<lambda>_. ReadOk) (\<lambda>_. Live) (DirFiles dir2) NewEngineStore
         = (Some (RecRead WalParse), zero_Stats, NewEngineStore)"
proof -
  obtain e b1 where one: "Batch_Commit hex_us (\<lambda>_. WriteFails 350) Live ex_torn_batch [] = (e, b1, ex_torn_dir)"
    by (metis ex_torn_dir_def prod.collapse)
  obtain t b2 dir2 where t: "marshal_frame hex_us (ex_frame 6) = Some t"
    and two: "Batch_Commit hex_us (\<lambda>_. AppendOk) Live (ex_batch 6) ex_torn_dir = (None, b2, dir2)"
    by (rule ex_torn_next)
  have day: "frames_for (partition_name (WrittenAt (ex_frame 6))) (b_frames (ex_batch 6)) = [ex_frame 6]"
    by (simp add: frames_for_def ex_batch_def)
  have "partition_dir []" by (simp add: partition_dir_def)
  from torn_write_blocks_recovery [OF hex_uuid_text ex_clean this ex_torn_staged one ex_torn_tail(1) two day t,
      of ex_wal_verify "\<lambda>_ _ _. ExecOk" NewEngineStore] ex_torn_tail(2) two t
  show ?thesis by (simp add: MaxFrameSize_def)
qed

end
