(* ===== verification/Spec2Isabelle.thy ===== *)
theory Spec2Isabelle
  imports Dsl_Cache Rule_Worker Audit_Recovery Audit_Torn
begin

text \<open>
  The policy pipeline of the clean-code service
  (\<^verbatim>\<open>src/services/clean-code/internal\<close>), from the source text of a rule to the verdict of the
  evaluation gate.

  \<^bold>\<open>The program's parts and how they interact.\<close> Rules are predicates over metric samples, written
  in a small language (\<^verbatim>\<open>policy/dsl\<close>). The policy steward (\<^verbatim>\<open>policy/steward\<close>) stores rule packs,
  thresholds, signed policy versions, activations and overrides; it signs versions through
  the signing-key manager (\<^verbatim>\<open>policy/keys\<close>), which rotates keys with an overlap window. The rule
  engine (\<^verbatim>\<open>rule_engine\<close>) evaluates a policy version on the samples of a commit and appends a
  run, its findings and its verdict to the audit tables. The gate (\<^verbatim>\<open>evaluator\<close>) resolves the
  active policy, re-verifies its signature, checks that the commit is scanned and calls the
  engine, or records a degraded run. The batch worker re-runs the active policy on scanned commits.
  Every audit transaction stages a signed frame per row and flushes them to the write-ahead log
  (\<^verbatim>\<open>audit/wal\<close>) before the database commits; at start-up the reconciler
  (\<^verbatim>\<open>audit/reconciler\<close>) verifies the frames and inserts the rows that are missing.

  \<^bold>\<open>Theories.\<close>
  \<^item> \<^verbatim>\<open>Prelude\<close>: contexts, uuids as 128-bit words, Go maps as association lists, results as sums,
    Go's sorting with its laws, float64 as an extended rational; \<^verbatim>\<open>Go_Strings\<close>: UTF-8, runes,
    trimming, number syntax.
  \<^item> \<^verbatim>\<open>Dsl_Ast\<close>, \<^verbatim>\<open>Dsl_Lexer\<close>, \<^verbatim>\<open>Dsl_Parser\<close>, \<^verbatim>\<open>Dsl_Eval\<close>, \<^verbatim>\<open>Dsl_Cache\<close>: the files of \<^verbatim>\<open>policy/dsl\<close>
    of the same names: tokens, syntax tree, recursive descent, binding of thresholds, evaluation
    on a sample (\<^verbatim>\<open>evaluator.go\<close>) and at a scope (\<^verbatim>\<open>scope_eval.go\<close>), and the compile cache
    as a step relation of concurrent callers.
  \<^item> \<^verbatim>\<open>Steward_Types\<close>, \<^verbatim>\<open>Steward_Glob\<close>, \<^verbatim>\<open>Steward_Json\<close>, \<^verbatim>\<open>Steward_Store\<close>, \<^verbatim>\<open>Steward\<close>: rows and requests
    (\<^verbatim>\<open>types.go\<close>, \<^verbatim>\<open>verbs.go\<close>), scope globs, the canonical JSON that is signed, the in-memory store
    and the verbs of \<^verbatim>\<open>steward.go\<close> and \<^verbatim>\<open>override.go\<close>.
  \<^item> \<^verbatim>\<open>Policy_Keys\<close>: the manager of \<^verbatim>\<open>policy/keys\<close> over its in-memory store. Ed25519, SHA-256 and
    the key-management service are parameters.
  \<^item> \<^verbatim>\<open>Rule_Engine_Store\<close>, \<^verbatim>\<open>Rule_Engine\<close>: \<^verbatim>\<open>types.go\<close>, \<^verbatim>\<open>inmem_store.go\<close> and \<^verbatim>\<open>engine.go\<close>;
    \<^verbatim>\<open>Rule_Engine_Laws\<close> and \<^verbatim>\<open>Rule_Engine_Run\<close> hold their lemmas and properties.
  \<^item> \<^verbatim>\<open>Rule_Worker\<close>: the batch-refresh worker and its catch-up (\<^verbatim>\<open>worker.go\<close>, \<^verbatim>\<open>catchup.go\<close>).
  \<^item> \<^verbatim>\<open>Eval_Gate\<close>: \<^verbatim>\<open>gate.go\<close>, \<^verbatim>\<open>gate_evaluate.go\<close>, \<^verbatim>\<open>verdict.go\<close>, the production wiring and the
    adapter of the rule engine; the histories of the whole pipeline.
  \<^item> \<^verbatim>\<open>Go_Json\<close>, \<^verbatim>\<open>Go_Time\<close>: what the log uses of Go's \<^verbatim>\<open>encoding/json\<close> (scanner, encoder, decoding
    into struct fields, Base64) and of \<^verbatim>\<open>time\<close> (civil dates, the two layouts, parsing), with their
    round trips; \<^verbatim>\<open>Go_Json_Lex\<close>: the scanner against an automaton of brackets and quotes.
  \<^item> \<^verbatim>\<open>Audit_Wal\<close>: the files of \<^verbatim>\<open>audit/wal\<close> and \<^verbatim>\<open>composition/wal_signer.go\<close>: frames, signing,
    batches, the append to the file of a day, the reader. A directory is a map from names to bytes.
  \<^item> \<^verbatim>\<open>Audit_Rows\<close>: the row texts of both \<^verbatim>\<open>wal_rows.go\<close> and their strict decoding.
  \<^item> \<^verbatim>\<open>Audit_Reconciler\<close>: \<^verbatim>\<open>audit/reconciler\<close> and the verifier of \<^verbatim>\<open>composition/wal_reconciler.go\<close>;
    \<^verbatim>\<open>Audit_Torn\<close>: the log after a write that was cut inside a line.
  \<^item> \<^verbatim>\<open>Audit_Recovery\<close>: the audit transactions of \<^verbatim>\<open>rule_engine/sql_store.go\<close> and
    \<^verbatim>\<open>evaluator/sql_degraded_store.go\<close>, and histories of transactions, crashes and restarts.
  State is a record per component, passed explicitly; a critical section of the code is one step.
  An error is a constructor of the component's error type, without its message text. Clocks,
  minted identifiers, the outcome of a database transaction, of a statement and of a file
  operation, and the scan status of a commit are arguments. The text of an identifier is a
  parameter of which only its round trip and its plain characters are assumed (\<^verbatim>\<open>uuid_text\<close>).

  \<^bold>\<open>Interfaces.\<close> Locales state what one part relies on in another, each interpreted on the model:
  the append-only logs with latest-row-wins reads of the steward's store (interpreted by activations and
  overrides), the signing service (interpreted by the key manager, with its validity window), the
  runner of scan events (interpreted by the worker's live and catch-up processing), the replayer
  of an audit table (interpreted by each of the three tables), and the verifier whose refusals
  are classified (interpreted by the historical keys and by the stand-in of the tests).

  \<^bold>\<open>What the lemmas show.\<close> The language: parsing is total (\<^verbatim>\<open>Parse_total\<close>), compiled predicates are
  well typed (\<^verbatim>\<open>Compile_binds_valid_rows\<close>), both evaluators compute the Boolean meaning
  (\<^verbatim>\<open>Eval_is_meaning\<close>, \<^verbatim>\<open>EvalAtScope_is_meaning\<close>), the cache compiles an entry at most once
  under every interleaving, and a second entry of a key only after an invalidation
  (\<^verbatim>\<open>GetOrCompile_singleflight\<close> and the three after it). The steward: globs and
  canonical bytes, referential integrity and append-only tables over all histories
  (\<^verbatim>\<open>steward_referential_integrity\<close>, \<^verbatim>\<open>steward_append_only\<close>), the behaviour of every verb
  on every branch, and the exact condition under which publishing succeeds
  (\<^verbatim>\<open>Publish_succeeds_iff\<close>). The engine: verdict, findings and resolved rows of a run are exact
  (\<^verbatim>\<open>run_verdict\<close>, \<^verbatim>\<open>run_findings_exact\<close>, \<^verbatim>\<open>run_resolved_exact\<close>), and both deduplication layers. Keys:
  signatures survive rotations, whatever their listings did; at most two keys are active as long as
  each scheduled rotation starts from an up-to-date cache, which the manager does not ensure
  (\<^verbatim>\<open>at_most_two_active_keys\<close>, \<^verbatim>\<open>failed_listing_three_active\<close>). The gate: its outcomes, its checks
  and its audit rows, and the consistency of the audit tables in every reachable state
  (\<^verbatim>\<open>pipeline_audit_consistent\<close>). The worker: a catch-up ends and leaves exactly what failed
  (\<^verbatim>\<open>catchup_drains\<close>), the stream is served (\<^verbatim>\<open>worker_serves_stream\<close>). The log: a commit refines
  an append to a list of frames per day (\<^verbatim>\<open>commit_refines_log\<close>), what is committed is read back
  (\<^verbatim>\<open>committed_frames_read_back\<close>), writer and reader agree on sizes (\<^verbatim>\<open>frame_size_bounds\<close>). The
  reconciler: it only adds rows of signed frames (\<^verbatim>\<open>reconciler_replays_signed_rows\<close>), is
  idempotent, and accepts a frame however often keys rotated since (\<^verbatim>\<open>frame_signature_lasts\<close>).
  Recovery: the SQL append refines the in-memory one (\<^verbatim>\<open>sql_append_refines_store\<close>), every stored
  row has a frame and a restart restores what a lost commit dropped (\<^verbatim>\<open>crash_recovery\<close>,
  \<^verbatim>\<open>lost_commit_restored\<close>); two theorems state what a write cut short
  breaks: a line cut anywhere makes the next commit of that day unreadable, and a cut between
  lines replays part of a batch that was rolled back (\<^verbatim>\<open>torn_write_blocks_recovery\<close>,
  \<^verbatim>\<open>rolled_back_run_replayed\<close>). This theory: a published policy
  is what the gate enforces, and what its verdict means.

  \<^bold>\<open>Bounds and fuel.\<close> The parser's recursion takes fuel \<open>5 * n + 9\<close> for a text of \<open>n\<close> bytes; \<^verbatim>\<open>Parse_total\<close>
  shows that it is never exhausted. A number literal is printed with 17 significant
  digits at most, as the shortest float64 representation needs. The JSON scanner takes fuel
  \<open>2 * n + 1\<close>, enough for any text (\<^verbatim>\<open>scan_fuel_enough\<close>), and refuses nesting beyond 10000 as Go
  does; a frame's line is at most \<open>2 ^ 20\<close> bytes; dates are written and read for the years 0 to 9999.

  \<^bold>\<open>Not modelled.\<close> The reads of the SQL stores (their interfaces are modelled by the in-memory
  stores), constructors' checks of their configuration, logging, HTTP and configuration,
  private-key storage, the metric ingestor, aggregator and refactoring planner, which work on SQL
  statements, source parsers and external services, and the agent-memory services, programs of
  their own. Float64 comparison is exact, rounding is only at parsing, and negative zero is zero, also in
  the text of a number. A time stored by a SQL store keeps its nanoseconds. Where both a
  cancelled context and another channel are ready, the worker's select takes the first listed. An fsync has no effect on
  the bytes a later reader sees, so a crash that drops bytes written without a completed fsync
  is not among the outcomes of a write.
\<close>

section \<open>From publication to verdict\<close>

text \<open>
  The rule engine's tables of versions, rules and thresholds are those of the steward: the
  production wiring puts both on one database.
\<close>

definition tables_shared :: "World \<Rightarrow> bool" where
  "tables_shared w \<longleftrightarrow>
     es_policyVersions (w_audit w) = policyVersions (w_steward w) \<and> es_rules (w_audit w) = rules (w_steward w)
     \<and> es_thresholds (w_audit w) = thresholds (w_steward w)"

lemma Evaluate_reaches_engine:
  assumes "GetPolicyVersion Live pvid (w_steward w) = Inr pv" and "PolicyVersionID pv = pvid"
    and "VerifyPolicyVersionSignature us (ge_signer ge) Live pv = None"
    and "ge_scan ge repo h = Inr (Some ''scanned'')" and "repo \<noteq> uuid_Nil" and "h \<noteq> []" and "pvid \<noteq> uuid_Nil"
  shows "Evaluate gen now (Some (NewProductionGate fs us ge mgr)) Live repo h scope pvid w =
    (case RunSync fs us Live (ge_run ge) repo h scope pvid (w_rule_engine w) (w_audit w) of (r, e', s') \<Rightarrow>
       (case r of
          Inl x \<Rightarrow> (zeroResult, Some (GateEngine (PortEngine x)))
        | Inr x \<Rightarrow>
            if gate_Verdict_IsValid (rr_Verdict x)
            then (\<lparr>ev_EvaluationRunID = rr_EvaluationRunID x, ev_EvaluationVerdictID = rr_EvaluationVerdictID x,
                   ev_FindingIDs = rr_FindingIDs x, ev_Verdict = rr_Verdict x, Degraded = False, ev_DegradedReason = []\<rparr>, None)
            else (zeroResult, Some (GateEngine PortVerdict)),
        w\<lparr>w_rule_engine := e', w_audit := s'\<rparr>))"
  using assms
  by (simp add: Evaluate_def NewProductionGate_def stewardPolicyAdapter_def stewardSignatureAdapter_def SamplesReady_def)
    (simp add: EvaluatorAdapter_RunSync_def split: prod.splits sum.splits)

lemma load_inputs_rules:
  assumes "load_inputs Live s repo h scope pvid = Inr (resolver, rs, xs, parent)"
  obtains pv where "map_of (es_policyVersions s) pvid = Some pv" "loadRulesWith Live s pv = Inr rs"
    "buildThresholdResolverWith Live s pv = Inr resolver"
  using assms by (auto simp: load_inputs_def bindE_Inr es_GetPolicyVersion_def split: option.splits if_splits)

lemma active_stored:
  assumes "store_inv s" and "ActivePolicyVersion Live s = Inr (Some pv)"
  shows "map_of (policyVersions s) (PolicyVersionID pv) = Some pv"
  using assms version_id [OF assms(1)]
  by (auto simp: active_policy_cases [OF assms(1)] split: option.splits)

text \<open>
  C2. A policy that is published and then activated, with no later activation, is what the
  gate enforces: while the signing key is in its window, whatever rotations and reloads
  happened, a call of the gate for a scanned commit runs the rule engine with exactly that
  version and passes on its answer.
\<close>
theorem published_policy_reaches_engine:
  assumes "Publish us (manager_signer ed kms m t) Live gen now req s = Inr (pv, s1)"
    and "Activate sg Live gen' now' areq s1 = Inr (pa, w_steward w)"
    and "a_PolicyVersionID areq = PolicyVersionID pv"
    and "\<And>pa'. pa' \<in> set (activations s) \<Longrightarrow> pa_CreatedAt pa' < now'"
    and "key_window fp (m, rows, t) (m', rows', t')" and "ge_signer ge = manager_signer ed kms m' t'"
    and "ge_scan ge repo h = Inr (Some ''scanned'')" and "repo \<noteq> uuid_Nil" and "h \<noteq> []"
  shows "Gate_Gate mint_ids tm (Some (NewProductionGate fs us ge mgr)) Live repo h scope w =
    (case RunSync fs us Live (ge_run ge) repo h scope (PolicyVersionID pv) (w_rule_engine w) (w_audit w) of (r, e', s') \<Rightarrow>
       (case r of
          Inl x \<Rightarrow> (zeroResult, Some (GateEngine (PortEngine x)))
        | Inr x \<Rightarrow>
            if gate_Verdict_IsValid (rr_Verdict x)
            then (\<lparr>ev_EvaluationRunID = rr_EvaluationRunID x, ev_EvaluationVerdictID = rr_EvaluationVerdictID x,
                   ev_FindingIDs = rr_FindingIDs x, ev_Verdict = rr_Verdict x, Degraded = False, ev_DegradedReason = []\<rparr>, None)
            else (zeroResult, Some (GateEngine PortVerdict)),
        w\<lparr>w_rule_engine := e', w_audit := s'\<rparr>))"
proof -
  note active = publish_then_activate [OF assms(1-4)]
  have "VerifyPolicyVersionSignature us (ge_signer ge) Live pv = None"
    using key_manager.published_verifies [OF assms(5) _ _ assms(1), of ed kms "ge_signer ge"] assms(6)
    by (simp add: manager_signer_def)
  moreover have nz: "PolicyVersionID pv \<noteq> uuid_Nil"
    using assms(2,3) by (auto simp: Activate_def guardE_def validateActivateRequest_def split: option.splits if_splits)
  ultimately show ?thesis
    using Evaluate_reaches_engine [OF active(2) refl _ assms(7-9), of us mint_ids tm fs mgr scope]
    by (simp add: Gate_production active(1))
qed

theorem published_policy_reaches_engine_witness:
  "\<exists>pv. fst (Gate_Gate ex_ids 130 (Some (ex_prod (Some ''scanned''))) Live 1 ''b2'' None ex_world) =
    (\<lparr>ev_EvaluationRunID = 200, ev_EvaluationVerdictID = 203, ev_FindingIDs = [201, 202], ev_Verdict = VerdictBlock,
      Degraded = False, ev_DegradedReason = []\<rparr>, None) \<and> GetPolicyVersion Live 50 (w_steward ex_world) = Inr pv"
proof -
  obtain pv s1 where s1: "ex_published = Inr (pv, s1)" using ex_published_ok by blast
  obtain pa s2 where s2: "ex_activated = Inr (pa, s2)" using ex_activated_ok by blast
  have "ex_activated_store = s2" by (simp add: ex_activated_store_def s2)
  then have act: "Activate ex_signer Live (Some 60) 4 \<lparr>a_PolicyVersionID = 50, a_ActivatedBy = ''op''\<rparr> s1 = Inr (pa, w_steward ex_world)"
    using s2 by (simp add: ex_activated_def s1 ex_world_def)
  have none: "activations ex_store = []" by code_simp
  have pub: "Publish ex_uuid_String (manager_signer ex_ed (ex_kms CHR ''a'') (fst (snd ex_keys1)) 111) Live (Some 50) 3 ex_publish ex_store
    = Inr (pv, s1)" using s1 by (simp add: ex_published_def ex_signer_def)
  have i: "PolicyVersionID pv = 50" using Publish_Inr(8) [OF pub] by simp
  have win: "key_window ex_fp (fst (snd ex_keys1), snd (snd ex_keys1), 111) (fst (snd ex_keys2), snd (snd ex_keys2), 120)"
    using ex_later_window by (auto simp: key_window_def)
  have run: "RunSync ex_from_string ex_uuid_String Live (ge_run (ex_genv (Some ''scanned''))) 1 ''b2'' None 50
      (w_rule_engine ex_world) (w_audit ex_world)
    = (Inr \<lparr>rr_EvaluationRunID = 200, rr_EvaluationVerdictID = 203, rr_FindingIDs = [201, 202], rr_Verdict = VerdictBlock\<rparr>,
        fst (snd ex_run2), snd (snd ex_run2))"
    using ex_run2_eq by (simp add: RunSync_def ex_genv_def ex_world_def)
  have "ge_signer (ex_genv (Some ''scanned'')) = manager_signer ex_ed (ex_kms CHR ''a'') (fst (snd ex_keys2)) 120"
    "ge_scan (ex_genv (Some ''scanned'')) 1 ''b2'' = Inr (Some ''scanned'')"
    by (simp_all add: ex_genv_def)
  from published_policy_reaches_engine [OF pub act _ _ win this, of ex_ids 130 ex_from_string None None] i none run
  have "fst (Gate_Gate ex_ids 130 (Some (ex_prod (Some ''scanned''))) Live 1 ''b2'' None ex_world) =
    (\<lparr>ev_EvaluationRunID = 200, ev_EvaluationVerdictID = 203, ev_FindingIDs = [201, 202], ev_Verdict = VerdictBlock,
      Degraded = False, ev_DegradedReason = []\<rparr>, None)"
    by (simp add: ex_prod_def gate_Verdict_IsValid_def split_beta)
  moreover have "\<exists>pv. GetPolicyVersion Live 50 (w_steward ex_world) = Inr pv"
    by (rule ex_active) (auto simp: ex_world_def)
  ultimately show ?thesis by blast
qed

text \<open>
  C1. The verdict of a successful call of the gate, over the shared tables and not answered
  from a recent run, is decided by the active policy, the version of the latest activation:
  block when one of its rules of severity block holds at some scope of the commit and is not
  muted there, warn when only rules of severity warn do, pass otherwise. The rules are those
  the version cites and the predicates are compiled against the thresholds it cites.
\<close>
theorem gate_verdict_end_to_end:
  assumes "Gate_Gate gen now (Some (NewProductionGate fs us ge mgr)) Live repo h scope w = ((res, None), w')"
    and "ActivePolicyVersion Live (w_steward w) = Inr (Some pv)" and "store_inv (w_steward w)" and "tables_shared w"
    and "fresh_call Live (ge_run ge) repo h scope (PolicyVersionID pv) CallerEvalGate (w_rule_engine w) (w_audit w)"
    and "load_inputs Live (w_audit w) repo h scope (PolicyVersionID pv) = Inr (resolver, rs, xs, parent)"
    and "coherent fs resolver (PolicyVersionID pv) (w_rule_engine w) (w_audit w)" and "distinct (map RuleID rs)"
  shows "loadRulesWith Live (w_audit w) pv = Inr rs \<and> buildThresholdResolverWith Live (w_audit w) pv = Inr resolver
    \<and> VerifyPolicyVersionSignature us (ge_signer ge) Live pv = None
    \<and> ev_Verdict res =
      (let firing = (\<lambda>sev. \<exists>q \<in> set rs. SeverityDefault q = sev
         \<and> (\<exists>i \<in> s_ScopeID ` set xs. rule_fires fs resolver xs q i \<and> \<not> muting us (w_audit w) repo xs (RuleID q) i))
       in if firing SeverityBlock then VerdictBlock else if firing SeverityWarn then VerdictWarn else VerdictPass)"
proof -
  have "Evaluate gen now (Some (NewProductionGate fs us ge mgr)) Live repo h scope (PolicyVersionID pv) w = ((res, None), w')"
    using assms(1,2) by (auto simp: Gate_production split: if_splits)
  then obtain pv' r e' s' where checks: "GetPolicyVersion Live (PolicyVersionID pv) (w_steward w) = Inr pv'"
      "VerifyPolicyVersionSignature us (ge_signer ge) Live pv' = None"
      "RunSync fs us Live (ge_run ge) repo h scope (PolicyVersionID pv) (w_rule_engine w) (w_audit w) = (Inr r, e', s')"
      "ev_Verdict res = rr_Verdict r"
    by (rule Evaluate_success)
  have same: "pv' = pv" and stored: "map_of (policyVersions (w_steward w)) (PolicyVersionID pv) = Some pv"
    using assms(2) checks(1) active_stored [OF assms(3)] by (auto simp: GetPolicyVersion_def)
  obtain new where v: "rr_Verdict r = rollup new"
    and rows: "run_rows us fs resolver (w_audit w) (coords (ge_run ge) repo h parent (PolicyVersionID pv) r) rs xs new"
    using engine_run_rows [OF checks(3) [unfolded RunSync_def] assms(5-7)] by blast
  obtain pv2 where "map_of (es_policyVersions (w_audit w)) (PolicyVersionID pv) = Some pv2"
    "loadRulesWith Live (w_audit w) pv2 = Inr rs" "buildThresholdResolverWith Live (w_audit w) pv2 = Inr resolver"
    using load_inputs_rules [OF assms(6)] by blast
  moreover from this have "pv2 = pv"
    using assms(4) stored by (simp add: tables_shared_def)
  ultimately show ?thesis
    using checks(2,4) same v run_rows_severity [OF rows assms(8)]
    by (simp add: rollup_def Let_def coords_def)
qed

text \<open>A world on one set of tables, with the signed version.\<close>

definition ex_signed :: PolicyVersion where
  "ex_signed = ex_version\<lparr>Signature := replicate 64 CHR ''a''\<rparr>"

definition ex_shared :: World where
  "ex_shared =
     \<lparr>w_steward =
        \<lparr>policyVersions = [(50, ex_signed)],
         activations = [\<lparr>ActivationID = 60, pa_PolicyVersionID = 50, ActivatedBy = ''op'', pa_CreatedAt = 4\<rparr>],
         rulePacks = [((''base'', 1), \<lparr>rp_PackID = ''base'', rp_Version = 1, DisplayName = ''Base'', rp_DescriptionMD = [], rp_CreatedAt = 1\<rparr>)],
         rules = es_rules ex_estore, thresholds = es_thresholds ex_estore, overrides = []\<rparr>,
      w_rule_engine = NewEngine 0,
      w_audit = ex_estore\<lparr>es_policyVersions := [(50, ex_signed)]\<rparr>\<rparr>"

lemma ex_shared_run:
  "fst (RunSync ex_from_string ex_uuid_String Live (ex_env 2 6) 1 ''b2'' None 50 (w_rule_engine ex_shared) (w_audit ex_shared)) =
     Inr \<lparr>rr_EvaluationRunID = 200, rr_EvaluationVerdictID = 202, rr_FindingIDs = [201], rr_Verdict = VerdictBlock\<rparr>"
  by code_simp

lemma ex_shared_signature:
  "VerifyPolicyVersionSignature ex_uuid_String (ge_signer (ex_genv (Some ''scanned''))) Live ex_signed = None"
  by code_simp

lemma ex_shared_gate:
  "fst (Gate_Gate ex_ids 130 (Some (ex_prod (Some ''scanned''))) Live 1 ''b2'' None ex_shared) =
     (\<lparr>ev_EvaluationRunID = 200, ev_EvaluationVerdictID = 202, ev_FindingIDs = [201], ev_Verdict = VerdictBlock,
       Degraded = False, ev_DegradedReason = []\<rparr>, None)"
proof -
  have "ActivePolicyVersion Live (w_steward ex_shared) = Inr (Some ex_signed)" by code_simp
  moreover have "GetPolicyVersion Live 50 (w_steward ex_shared) = Inr ex_signed" by code_simp
  moreover have "ge_scan (ex_genv (Some ''scanned'')) 1 ''b2'' = Inr (Some ''scanned'')"
    "ge_run (ex_genv (Some ''scanned'')) = ex_env 2 6" "PolicyVersionID ex_signed = 50"
    by (simp_all add: ex_genv_def ex_signed_def ex_version_def)
  moreover note Evaluate_reaches_engine [of 50 ex_shared ex_signed ex_uuid_String "ex_genv (Some ''scanned'')" 1 "''b2''" ex_ids 130
      ex_from_string None None, OF _ _ ex_shared_signature]
  ultimately show ?thesis
    using ex_shared_run by (simp add: Gate_production ex_prod_def split_beta gate_Verdict_IsValid_def)
qed

lemma ex_shared_inv: "store_inv (w_steward ex_shared)"
proof -
  let ?s = "w_steward ex_shared"
  have tables: "es_rules ex_estore = [((''r1'', 1), ex_rule)]" "es_thresholds ex_estore = [(7, ex_threshold)]"
    by code_simp+
  have "rule_ok ?s ex_rule"
  proof -
    have "Severity_IsValid (SeverityDefault ex_rule)" "\<not> blank (PredicateDSL ex_rule)" "0 < Version ex_rule" by code_simp+
    moreover have "map_of (rulePacks ?s) (PackID ex_rule, 1) \<noteq> None" by code_simp
    ultimately show ?thesis unfolding rule_ok_def by blast
  qed
  moreover have "version_ok ?s ex_signed"
    by (simp add: version_ok_def ex_shared_def tables ex_signed_def ex_version_def)
  moreover have "PolicyVersionID ex_signed = 50" "rule_key ex_rule = (''r1'', 1)" "ThresholdID (th_row ex_threshold) = 7"
    by code_simp+
  ultimately show ?thesis
    unfolding store_inv_def by (simp add: ex_shared_def tables gomap_ok_def)
qed

theorem gate_verdict_end_to_end_witness:
  "VerdictBlock =
      (let firing = (\<lambda>sev. \<exists>q \<in> set [ex_rule]. SeverityDefault q = sev
         \<and> (\<exists>i \<in> s_ScopeID ` set ex_samples. rule_fires ex_from_string ex_resolver ex_samples q i
              \<and> \<not> muting ex_uuid_String (w_audit ex_shared) 1 ex_samples (RuleID q) i))
       in if firing SeverityBlock then VerdictBlock else if firing SeverityWarn then VerdictWarn else VerdictPass)"
proof -
  let ?g = "Gate_Gate ex_ids 130 (Some (ex_prod (Some ''scanned''))) Live 1 ''b2'' None ex_shared"
  have i: "PolicyVersionID ex_signed = 50" by (simp add: ex_signed_def ex_version_def)
  have "?g = ((\<lparr>ev_EvaluationRunID = 200, ev_EvaluationVerdictID = 202, ev_FindingIDs = [201], ev_Verdict = VerdictBlock,
       Degraded = False, ev_DegradedReason = []\<rparr>, None), snd ?g)"
    using ex_shared_gate by (metis prod.collapse)
  note gate = this [unfolded ex_prod_def]
  have active: "ActivePolicyVersion Live (w_steward ex_shared) = Inr (Some ex_signed)" by code_simp
  have inv: "store_inv (w_steward ex_shared)" by (rule ex_shared_inv)
  have shared: "tables_shared ex_shared" by (simp add: tables_shared_def ex_shared_def)
  have fresh: "fresh_call Live (ge_run (ex_genv (Some ''scanned''))) 1 ''b2'' None (PolicyVersionID ex_signed) CallerEvalGate
      (w_rule_engine ex_shared) (w_audit ex_shared)" unfolding i by code_simp
  have inputs: "load_inputs Live (w_audit ex_shared) 1 ''b2'' None (PolicyVersionID ex_signed)
      = Inr (ex_resolver, [ex_rule], ex_samples, Some ''a1'')" unfolding i by code_simp
  have "coherent ex_from_string ex_resolver (PolicyVersionID ex_signed) (w_rule_engine ex_shared) (w_audit ex_shared)"
  proof -
    have "es_overrides (w_audit ex_shared) = []" "dslCache (w_rule_engine ex_shared) = []" by code_simp+
    then show ?thesis by (simp add: coherent_def cached_ok_def overrides_ok_def)
  qed
  from gate_verdict_end_to_end [OF gate active inv shared fresh inputs this] show ?thesis by simp
qed

end
